(* ===== verification/Jnu_Prelude.thy ===== *)
theory Jnu_Prelude
  imports Main "HOL-Library.Word" "HOL-Library.Monad_Syntax"
begin

text \<open>
  Shared ground of the JNU development: names for the machine types of
  \<^verbatim>\<open>include/jnu/base/types.h\<close>, the error numbers of \<^verbatim>\<open>include/uapi/jnu/errno.h\<close>, the
  page geometry of \<^verbatim>\<open>include/jnu/mm/paging.h\<close>, the collections of rewrite rules the
  component theories extend, and list lemmas that several of them use.

  Pointers are natural numbers, with \<open>0\<close> as \<^verbatim>\<open>NULL\<close>. A result of type
  \<open>'a option\<close> is \<open>None\<close> where the C function does not return (it panics or its loop
  never ends); an errno return is an \<open>int\<close>, \<open>0\<close> or negative, as in the source.
\<close>

unbundle bit_operations_syntax

type_synonym ptr = nat
type_synonym u8 = "8 word"
type_synonym u16 = "16 word"
type_synonym u32 = "32 word"
type_synonym u64 = "64 word"
type_synonym paddr_t = u64
type_synonym vaddr_t = u64

abbreviation (input) NULL :: ptr where "NULL \<equiv> 0"

named_theorems frame_simps "updates of one location leave a structure elsewhere alone"
named_theorems step_defs "definitions of single loop bodies and straight-line operations"

section \<open>Error numbers\<close>

definition EPERM :: int where "EPERM = 1"
definition ENOENT :: int where "ENOENT = 2"
definition EIO :: int where "EIO = 5"
definition ENXIO :: int where "ENXIO = 6"
definition E2BIG :: int where "E2BIG = 7"
definition ENOEXEC :: int where "ENOEXEC = 8"
definition EAGAIN :: int where "EAGAIN = 11"
definition ENOMEM :: int where "ENOMEM = 12"
definition EACCES :: int where "EACCES = 13"
definition EFAULT :: int where "EFAULT = 14"
definition EBUSY :: int where "EBUSY = 16"
definition EEXIST :: int where "EEXIST = 17"
definition ENODEV :: int where "ENODEV = 19"
definition ENOTDIR :: int where "ENOTDIR = 20"
definition EISDIR :: int where "EISDIR = 21"
definition ECHILD :: int where "ECHILD = 10"
definition EINVAL :: int where "EINVAL = 22"
definition ENOSPC :: int where "ENOSPC = 28"
definition EMFILE :: int where "EMFILE = 24"
definition ERANGE :: int where "ERANGE = 34"
definition ENAMETOOLONG :: int where "ENAMETOOLONG = 36"
definition ENOSYS :: int where "ENOSYS = 38"
definition EXDEV :: int where "EXDEV = 18"
definition EMLINK :: int where "EMLINK = 31"
definition ESPIPE :: int where "ESPIPE = 29"
definition ENOTTY :: int where "ENOTTY = 25"
definition ENOTSUP :: int where "ENOTSUP = 95"
definition ETIMEDOUT :: int where "ETIMEDOUT = 110"
definition EROFS :: int where "EROFS = 30"
definition EINTR :: int where "EINTR = 4"

lemmas errno_defs = EPERM_def ENOENT_def EIO_def ENXIO_def E2BIG_def ENOEXEC_def EAGAIN_def
  ENOMEM_def EACCES_def EFAULT_def EBUSY_def EEXIST_def ENODEV_def ENOTDIR_def EISDIR_def
  ECHILD_def EINVAL_def ENOSPC_def EMFILE_def ERANGE_def ENAMETOOLONG_def ENOSYS_def EXDEV_def
  EMLINK_def ESPIPE_def ENOTTY_def ENOTSUP_def ETIMEDOUT_def EROFS_def EINTR_def

section \<open>Page geometry\<close>

definition PAGE_SHIFT :: nat where "PAGE_SHIFT = 12"
definition PAGE_SIZE :: u64 where "PAGE_SIZE = push_bit PAGE_SHIFT 1"
definition PAGE_MASK :: u64 where "PAGE_MASK = PAGE_SIZE - 1"

lemma page_consts:
  "PAGE_SIZE = 4096" "PAGE_MASK = 4095"
  by (simp_all add: PAGE_SIZE_def PAGE_MASK_def PAGE_SHIFT_def)

lemma and_4095: "a AND 4095 = a mod (4096 :: u64)"
  using take_bit_eq_mod [of 12 a] take_bit_eq_mask [of 12 a] by (simp add: mask_eq_exp_minus_1)

lemma page_aligned_iff: "a AND PAGE_MASK = 0 \<longleftrightarrow> 4096 dvd unat a"
  using unat_mod [of a "4096 :: u64"]
  by (simp add: page_consts and_4095 dvd_eq_mod_eq_0 unat_eq_0 [symmetric] del: unat_eq_0)

section \<open>Lists read through a cursor\<close>

text \<open>The pointer a cursor holds when the elements \<open>xs\<close> are still ahead of it.\<close>

definition first_or_null :: "ptr list \<Rightarrow> ptr" where
  "first_or_null xs = (case xs of [] \<Rightarrow> NULL | x # _ \<Rightarrow> x)"

lemma first_or_null_simps [simp]:
  "first_or_null [] = 0"
  "first_or_null (x # xs) = x"
  by (simp_all add: first_or_null_def)

lemma first_or_null_append:
  "first_or_null (xs @ ys) = (if xs = [] then first_or_null ys else first_or_null xs)"
  by (cases xs) simp_all

lemma first_or_null_eq_0:
  "0 \<notin> set xs \<Longrightarrow> first_or_null xs = 0 \<longleftrightarrow> xs = []"
  by (cases xs) auto

lemma find_append: "find P (xs @ ys) = (case find P xs of None \<Rightarrow> find P ys | Some x \<Rightarrow> Some x)"
  by (induction xs) auto

lemma append_split_unique:
  "as @ bs = cs @ ds \<Longrightarrow> set as \<inter> set ds = {} \<Longrightarrow> set cs \<inter> set bs = {} \<Longrightarrow> as = cs \<and> bs = ds"
proof -
  assume eq: "as @ bs = cs @ ds" and d: "set as \<inter> set ds = {}" "set cs \<inter> set bs = {}"
  from eq consider us where "as = cs @ us" "us @ bs = ds" | us where "as @ us = cs" "bs = us @ ds"
    by (auto simp: append_eq_append_conv2)
  then show ?thesis
  proof cases
    case 1
    with d(1) have "us = []" by (cases us) auto
    with 1 show ?thesis by simp
  next
    case 2
    with d(2) have "us = []" by (cases us) auto
    with 2 show ?thesis by simp
  qed
qed

lemma word_le_minus_one_iff: "0 < (b :: 'a :: len word) \<Longrightarrow> x \<le> b - 1 \<longleftrightarrow> x < b"
proof -
  assume "0 < b"
  then have "b \<noteq> 0" "0 < unat b" by (auto simp: word_less_nat_alt)
  then show ?thesis by (simp add: word_le_nat_alt word_less_nat_alt unat_minus_one) linarith
qed

lemma option_eqI: "(\<And>y. a = Some y \<longleftrightarrow> b = Some y) \<Longrightarrow> a = b"
  by (cases a; cases b) auto

section \<open>Bits and bytes\<close>

lemma unat64_less: "unat (a :: u64) < 18446744073709551616"
  using unsigned_less [of a, where ?'a = nat] by simp

lemma word_and_mask_eq_0: "n < 64 \<Longrightarrow> (a :: u64) AND (2 ^ n - 1) = 0 \<longleftrightarrow> 2 ^ n dvd unat a"
proof -
  assume n: "n < 64"
  have "a AND (2 ^ n - 1) = take_bit n a" by (simp add: take_bit_eq_mask mask_eq_exp_minus_1)
  moreover have "unat (take_bit n a) = unat a mod 2 ^ n"
    by (simp add: unsigned_take_bit_eq flip: take_bit_eq_mod)
  ultimately show ?thesis by (metis dvd_eq_mod_eq_0 unat_eq_zero unsigned_0)
qed

lemma nat_xor_one: "(m :: nat) XOR 1 = (if even m then m + 1 else m - 1)"
  by (simp add: xor_Suc_0_eq)

lemma page_bytes: "p * 4096 \<le> x \<and> x < p * 4096 + 4096 \<longleftrightarrow> x div 4096 = (p :: nat)"
proof
  show "p * 4096 \<le> x \<and> x < p * 4096 + 4096 \<Longrightarrow> x div 4096 = p"
    by (intro div_nat_eqI) simp_all
  show "x div 4096 = p \<Longrightarrow> p * 4096 \<le> x \<and> x < p * 4096 + 4096"
    using div_mult_mod_eq [of x 4096] mod_less_divisor [of 4096 x] by linarith
qed

end
