(* ===== verification/Pmm.thy ===== *)
theory Pmm
  imports Jnu_Prelude
begin

text \<open>
  The physical memory manager, \<^verbatim>\<open>kernel/mm/pmm.c\<close>: a buddy allocator of page frames with one
  doubly linked free list per zone and order, the reference counts of user pages, and the boot
  code that feeds the bootloader's memory map into the free lists. This theory is the code.

  A page frame number is a natural number (all of them are below \<open>2\<^sup>5\<^sup>2\<close>), a physical address a
  64-bit word, and the counters of \<^verbatim>\<open>struct pmm_stats\<close> are words that wrap. The metadata array
  \<^verbatim>\<open>pfn_table\<close> is one function per field. \<open>pmem\<close> is the contents of physical memory by byte
  address. \<^verbatim>\<open>None\<close> is a panic. The allocator's lock serialises its operations, so each of them
  is one step here.
\<close>

section \<open>State\<close>

datatype pmm_zone = PMM_ZONE_DMA | PMM_ZONE_NORMAL

definition PMM_MAX_ORDER :: nat where "PMM_MAX_ORDER = 11"
definition PFN_FREE :: u32 where "PFN_FREE = 1"
definition NO_LINK :: nat where "NO_LINK = 2 ^ 64 - 1"

record pmm_stats =
  total_pages :: u64
  free_pages :: u64
  free_by_order :: "nat \<Rightarrow> u64"
  zone_total :: "pmm_zone \<Rightarrow> u64"
  zone_free :: "pmm_zone \<Rightarrow> u64"

record pmm_state =
  pfn_flags :: "nat \<Rightarrow> u32"
  pfn_order :: "nat \<Rightarrow> nat"
  pfn_refcount :: "nat \<Rightarrow> u16"
  pfn_next :: "nat \<Rightarrow> nat"
  pfn_prev :: "nat \<Rightarrow> nat"
  pfn_count :: nat
  free_list_head :: "pmm_zone \<Rightarrow> nat \<Rightarrow> nat"
  stats :: pmm_stats
  mm_zero_page :: paddr_t
  pmem :: "nat \<Rightarrow> u8"

definition pfn_to_pa :: "nat \<Rightarrow> paddr_t" where
  "pfn_to_pa pfn = push_bit 12 (of_nat pfn)"

definition pa_to_pfn :: "paddr_t \<Rightarrow> nat" where
  "pa_to_pfn pa = unat (drop_bit 12 pa)"

definition zone_of :: "paddr_t \<Rightarrow> pmm_zone" where
  "zone_of pa = (if pa < 16 * 1024 * 1024 then PMM_ZONE_DMA else PMM_ZONE_NORMAL)"

definition PMM_ORDER_SIZE :: "nat \<Rightarrow> nat" where
  "PMM_ORDER_SIZE order = 2 ^ (12 + order)"

section \<open>Free lists\<close>

abbreviation set_head :: "pmm_state \<Rightarrow> pmm_zone \<Rightarrow> nat \<Rightarrow> nat \<Rightarrow> pmm_state" where
  "set_head s z order pfn \<equiv>
     s\<lparr>free_list_head := (free_list_head s)(z := (free_list_head s z)(order := pfn))\<rparr>"

definition list_remove :: "pmm_state \<Rightarrow> nat \<Rightarrow> pmm_state" where
  "list_remove s pfn =
     (let p = pfn_prev s pfn;
          n = pfn_next s pfn;
          s = (if p \<noteq> NO_LINK then s\<lparr>pfn_next := (pfn_next s)(p := pfn_next s pfn)\<rparr>
               else set_head s (zone_of (pfn_to_pa pfn)) (pfn_order s pfn) (pfn_next s pfn));
          s = (if n \<noteq> NO_LINK then s\<lparr>pfn_prev := (pfn_prev s)(n := pfn_prev s pfn)\<rparr> else s);
          s = s\<lparr>pfn_next := (pfn_next s)(pfn := NO_LINK)\<rparr>
      in s\<lparr>pfn_prev := (pfn_prev s)(pfn := NO_LINK)\<rparr>)"

definition list_push :: "pmm_state \<Rightarrow> pmm_zone \<Rightarrow> nat \<Rightarrow> nat \<Rightarrow> pmm_state" where
  "list_push s z order pfn =
     (let head = free_list_head s z order;
          s = s\<lparr>pfn_prev := (pfn_prev s)(pfn := NO_LINK)\<rparr>;
          s = s\<lparr>pfn_next := (pfn_next s)(pfn := head)\<rparr>;
          s = s\<lparr>pfn_order := (pfn_order s)(pfn := order)\<rparr>;
          s = s\<lparr>pfn_flags := (pfn_flags s)(pfn := pfn_flags s pfn OR PFN_FREE)\<rparr>;
          s = (if head \<noteq> NO_LINK then s\<lparr>pfn_prev := (pfn_prev s)(head := pfn)\<rparr> else s)
      in set_head s z order pfn)"

definition clear_free :: "pmm_state \<Rightarrow> nat \<Rightarrow> pmm_state" where
  "clear_free s pfn = s\<lparr>pfn_flags := (pfn_flags s)(pfn := pfn_flags s pfn AND NOT PFN_FREE)\<rparr>"

definition list_pop :: "pmm_state \<Rightarrow> pmm_zone \<Rightarrow> nat \<Rightarrow> nat \<times> pmm_state" where
  "list_pop s z order =
     (let head = free_list_head s z order in
      if head = NO_LINK then (NO_LINK, s) else (head, clear_free (list_remove s head) head))"

definition buddy_pfn :: "nat \<Rightarrow> nat \<Rightarrow> nat" where
  "buddy_pfn pfn order = pfn XOR 2 ^ order"

text \<open>The three counter updates that follow every push and every removal.\<close>

definition stats_gain :: "pmm_state \<Rightarrow> pmm_zone \<Rightarrow> nat \<Rightarrow> pmm_state" where
  "stats_gain s z order =
     (let st = stats s;
          st = st\<lparr>free_pages := free_pages st + 2 ^ order\<rparr>;
          st = st\<lparr>free_by_order := (free_by_order st)(order := free_by_order st order + 1)\<rparr>;
          st = st\<lparr>zone_free := (zone_free st)(z := zone_free st z + 2 ^ order)\<rparr>
      in s\<lparr>stats := st\<rparr>)"

definition stats_lose :: "pmm_state \<Rightarrow> pmm_zone \<Rightarrow> nat \<Rightarrow> pmm_state" where
  "stats_lose s z order =
     (let st = stats s;
          st = st\<lparr>free_pages := free_pages st - 2 ^ order\<rparr>;
          st = st\<lparr>free_by_order := (free_by_order st)(order := free_by_order st order - 1)\<rparr>;
          st = st\<lparr>zone_free := (zone_free st)(z := zone_free st z - 2 ^ order)\<rparr>
      in s\<lparr>stats := st\<rparr>)"

text \<open>\<^verbatim>\<open>memset(p, 0, n)\<close> on the bytes of physical memory from \<open>a\<close>.\<close>

definition pmem_zero :: "pmm_state \<Rightarrow> nat \<Rightarrow> nat \<Rightarrow> pmm_state" where
  "pmem_zero s a n = s\<lparr>pmem := (\<lambda>x. if a \<le> x \<and> x < a + n then 0 else pmem s x)\<rparr>"

section \<open>Allocation\<close>

function find_order :: "pmm_state \<Rightarrow> pmm_zone \<Rightarrow> nat \<Rightarrow> nat" where
  "find_order s z order =
     (if order < PMM_MAX_ORDER \<and> free_list_head s z order = NO_LINK then find_order s z (order + 1)
      else order)"
  by auto
termination by (relation "measure (\<lambda>(s, z, order). PMM_MAX_ORDER - order)") auto

declare find_order.simps [simp del]

fun split_down :: "pmm_state \<Rightarrow> pmm_zone \<Rightarrow> nat \<Rightarrow> nat \<Rightarrow> nat \<Rightarrow> pmm_state" where
  "split_down s z pfn order 0 = s"
| "split_down s z pfn order (Suc o') =
     (if order < Suc o'
      then split_down (stats_gain (list_push s z o' (pfn + 2 ^ o')) z o') z pfn order o'
      else s)"

definition pmm_take :: "pmm_state \<Rightarrow> pmm_zone \<Rightarrow> nat \<Rightarrow> nat \<Rightarrow> paddr_t \<times> pmm_state" where
  "pmm_take s z order ord =
     (let (pfn, s) = list_pop s z ord;
          s = stats_lose s z ord;
          s = split_down s z pfn order ord;
          s = clear_free s pfn;
          s = s\<lparr>pfn_order := (pfn_order s)(pfn := order)\<rparr>
      in (pfn_to_pa pfn, s))"

definition pmm_alloc_pages_locked :: "pmm_state \<Rightarrow> int \<Rightarrow> paddr_t \<times> pmm_state" where
  "pmm_alloc_pages_locked s order =
     (if order < 0 \<or> int PMM_MAX_ORDER \<le> order then (0, s)
      else let n = find_order s PMM_ZONE_NORMAL (nat order) in
        if n < PMM_MAX_ORDER then pmm_take s PMM_ZONE_NORMAL (nat order) n
        else let d = find_order s PMM_ZONE_DMA (nat order) in
          if d < PMM_MAX_ORDER then pmm_take s PMM_ZONE_DMA (nat order) d
          else (0, s))"

definition pmm_alloc_pages :: "pmm_state \<Rightarrow> int \<Rightarrow> paddr_t \<times> pmm_state" where
  "pmm_alloc_pages s order = pmm_alloc_pages_locked s order"

definition pmm_alloc_zeroed_pages :: "pmm_state \<Rightarrow> int \<Rightarrow> paddr_t \<times> pmm_state" where
  "pmm_alloc_zeroed_pages s order = pmm_alloc_pages s order"

definition pmm_alloc_user_page :: "pmm_state \<Rightarrow> paddr_t \<times> pmm_state" where
  "pmm_alloc_user_page s =
     (let (pa, s) = pmm_alloc_pages_locked s 0 in
      if pa \<noteq> 0 then (pa, s\<lparr>pfn_refcount := (pfn_refcount s)(pa_to_pfn pa := 1)\<rparr>) else (pa, s))"

text \<open>
  \<^verbatim>\<open>pmm_alloc_dma\<close> has no guard on its argument: for a negative order it reads before the list
  heads, which is \<open>None\<close> here.
\<close>

definition pmm_alloc_dma :: "pmm_state \<Rightarrow> int \<Rightarrow> (paddr_t \<times> pmm_state) option" where
  "pmm_alloc_dma s order =
     (if order < 0 then None
      else let d = find_order s PMM_ZONE_DMA (nat order) in
        if PMM_MAX_ORDER \<le> d then Some (0, s)
        else Some (pmm_take s PMM_ZONE_DMA (nat order) d))"

section \<open>Release\<close>

function coalesce :: "pmm_state \<Rightarrow> pmm_zone \<Rightarrow> nat \<Rightarrow> nat \<Rightarrow> pmm_state \<times> nat \<times> nat" where
  "coalesce s z pfn order =
     (if order + 1 < PMM_MAX_ORDER then
        let bpfn = buddy_pfn pfn order in
        if pfn_count s \<le> bpfn then (s, pfn, order)
        else if pfn_flags s bpfn AND PFN_FREE = 0 \<or> pfn_order s bpfn \<noteq> order then (s, pfn, order)
        else if zone_of (pfn_to_pa bpfn) \<noteq> z then (s, pfn, order)
        else
          coalesce (clear_free (stats_lose (list_remove s bpfn) z order) bpfn) z
            (if bpfn < pfn then bpfn else pfn) (order + 1)
      else (s, pfn, order))"
  by auto
termination by (relation "measure (\<lambda>(s, z, pfn, order). PMM_MAX_ORDER - order)") auto

declare coalesce.simps [simp del]

definition pmm_free_pages_locked :: "pmm_state \<Rightarrow> paddr_t \<Rightarrow> nat \<Rightarrow> pmm_state" where
  "pmm_free_pages_locked s pa order =
     (let z = zone_of pa;
          (s, pfn, order) = coalesce s z (pa_to_pfn pa) order
      in stats_gain (list_push s z order pfn) z order)"

definition pmm_free_validate_locked :: "pmm_state \<Rightarrow> paddr_t \<Rightarrow> int \<Rightarrow> unit option" where
  "pmm_free_validate_locked s pa order =
     (if order < 0 \<or> int PMM_MAX_ORDER \<le> order then None
      else if pa AND (2 ^ (12 + nat order) - 1) \<noteq> 0 then None
      else if pfn_count s \<le> pa_to_pfn pa then None
      else if pfn_flags s (pa_to_pfn pa) AND PFN_FREE \<noteq> 0 then None
      else Some ())"

definition pmm_free_pages :: "pmm_state \<Rightarrow> paddr_t \<Rightarrow> int \<Rightarrow> pmm_state option" where
  "pmm_free_pages s pa order =
     do {
       _ \<leftarrow> pmm_free_validate_locked s pa order;
       let s = pmem_zero s (unat pa) (PMM_ORDER_SIZE (nat order));
       Some (pmm_free_pages_locked s pa (nat order))
     }"

section \<open>User-page reference counts\<close>

definition pmm_get_user_page :: "pmm_state \<Rightarrow> paddr_t \<Rightarrow> pmm_state option" where
  "pmm_get_user_page s pa =
     (let pfn = pa_to_pfn pa in
      if pa = mm_zero_page s then None
      else if pfn_count s \<le> pfn then None
      else if pfn_flags s pfn AND PFN_FREE \<noteq> 0 then None
      else if pfn_refcount s pfn = 0 then None
      else if pfn_refcount s pfn = 0xFFFF then None
      else Some (s\<lparr>pfn_refcount := (pfn_refcount s)(pfn := pfn_refcount s pfn + 1)\<rparr>))"

definition pmm_put_user_page :: "pmm_state \<Rightarrow> paddr_t \<Rightarrow> pmm_state option" where
  "pmm_put_user_page s pa =
     (let pfn = pa_to_pfn pa in
      if pa = mm_zero_page s then None
      else if pfn_count s \<le> pfn then None
      else if pfn_flags s pfn AND PFN_FREE \<noteq> 0 then None
      else if pfn_refcount s pfn = 0 then None
      else
        let s = s\<lparr>pfn_refcount := (pfn_refcount s)(pfn := pfn_refcount s pfn - 1)\<rparr> in
        if pfn_refcount s pfn = 0 then pmm_free_pages s pa 0 else Some s)"

definition pmm_user_refcount :: "pmm_state \<Rightarrow> paddr_t \<Rightarrow> u16" where
  "pmm_user_refcount s pa =
     (if pfn_count s \<le> pa_to_pfn pa then 0 else pfn_refcount s (pa_to_pfn pa))"

definition pmm_user_refcount_locked :: "pmm_state \<Rightarrow> paddr_t \<Rightarrow> u16" where
  "pmm_user_refcount_locked s pa =
     (if pfn_count s \<le> pa_to_pfn pa then 0 else pfn_refcount s (pa_to_pfn pa))"

definition pmm_get_stats :: "pmm_state \<Rightarrow> pmm_stats" where
  "pmm_get_stats s = stats s"

section \<open>Boot\<close>

definition pmm_register_block :: "pmm_state \<Rightarrow> nat \<Rightarrow> nat \<Rightarrow> pmm_state" where
  "pmm_register_block s pfn order =
     (let z = zone_of (pfn_to_pa pfn);
          s = pmem_zero s (unat (pfn_to_pa pfn)) (PMM_ORDER_SIZE order);
          s = stats_gain (list_push s z order pfn) z order;
          st = stats s
      in s\<lparr>stats := st\<lparr>zone_total := (zone_total st)(z := zone_total st z + 2 ^ order)\<rparr>\<rparr>)"

text \<open>The largest order at which a block fits at \<open>start\<close> in front of \<open>stop\<close>.\<close>

function natural_order :: "nat \<Rightarrow> nat \<Rightarrow> nat \<Rightarrow> nat" where
  "natural_order start stop order =
     (if order + 1 < PMM_MAX_ORDER \<and> start AND (2 ^ (order + 1) - 1) = 0 \<and>
         start + 2 ^ (order + 1) \<le> stop
      then natural_order start stop (order + 1) else order)"
  by auto
termination by (relation "measure (\<lambda>(start, stop, order). PMM_MAX_ORDER - order)") auto

declare natural_order.simps [simp del]

function register_loop :: "pmm_state \<Rightarrow> nat \<Rightarrow> nat \<Rightarrow> pmm_state" where
  "register_loop s start stop =
     (if start < stop then
        let order = natural_order start stop 0 in
        register_loop (pmm_register_block s start order) (start + 2 ^ order) stop
      else s)"
  by auto
termination by (relation "measure (\<lambda>(s, start, stop). stop - start)") (auto simp: diff_less_mono2)

declare register_loop.simps [simp del]

definition pmm_register_range :: "pmm_state \<Rightarrow> u64 \<Rightarrow> u64 \<Rightarrow> pmm_state" where
  "pmm_register_range s start_pa end_pa =
     register_loop s (pa_to_pfn ((start_pa + PAGE_SIZE - 1) AND NOT (PAGE_SIZE - 1)))
       (pa_to_pfn (end_pa AND NOT (PAGE_SIZE - 1)))"

text \<open>An entry of the bootloader's memory map; \<open>me_usable\<close> is \<^verbatim>\<open>type == LIMINE_MEMMAP_USABLE\<close>.\<close>

record memmap_entry =
  me_base :: u64
  me_length :: u64
  me_usable :: bool

definition sizeof_pmm_pfn :: u64 where "sizeof_pmm_pfn = 32"

fun highest_end :: "memmap_entry list \<Rightarrow> u64 \<Rightarrow> u64" where
  "highest_end [] h = h"
| "highest_end (e # es) h =
     (if \<not> me_usable e then highest_end es h
      else let stop = me_base e + me_length e in highest_end es (if h < stop then stop else h))"

text \<open>The metadata array is cut from the first usable entry that is long enough.\<close>

fun carve_metadata :: "u64 \<Rightarrow> memmap_entry list \<Rightarrow> paddr_t \<times> memmap_entry list" where
  "carve_metadata n [] = (0, [])"
| "carve_metadata n (e # es) =
     (if me_usable e \<and> n \<le> me_length e
      then (me_base e, e\<lparr>me_base := me_base e + n, me_length := me_length e - n\<rparr> # es)
      else let (pa, es) = carve_metadata n es in (pa, e # es))"

fun feed_ranges :: "pmm_state \<Rightarrow> memmap_entry list \<Rightarrow> pmm_state" where
  "feed_ranges s [] = s"
| "feed_ranges s (e # es) =
     feed_ranges (if me_usable e then pmm_register_range s (me_base e) (me_base e + me_length e) else s) es"

text \<open>The bytes the metadata of \<open>count\<close> page frames take, in whole pages.\<close>

definition metadata_span :: "u64 \<Rightarrow> u64" where
  "metadata_span count =
     (let meta_bytes = count * sizeof_pmm_pfn;
          meta_pages = (meta_bytes + PAGE_SIZE - 1) div PAGE_SIZE
      in meta_pages * PAGE_SIZE)"

definition pmm_reset :: "pmm_state \<Rightarrow> nat \<Rightarrow> pmm_state" where
  "pmm_reset s n =
     s\<lparr>pfn_flags := (\<lambda>i. if i < n then 0 else pfn_flags s i),
       pfn_order := (\<lambda>i. if i < n then 0 else pfn_order s i),
       pfn_refcount := (\<lambda>i. if i < n then 0 else pfn_refcount s i),
       pfn_next := (\<lambda>i. if i < n then NO_LINK else pfn_next s i),
       pfn_prev := (\<lambda>i. if i < n then NO_LINK else pfn_prev s i),
       pfn_count := n,
       free_list_head := (\<lambda>z order. if order < PMM_MAX_ORDER then NO_LINK else free_list_head s z order),
       stats := \<lparr>total_pages = 0, free_pages = 0, free_by_order = (\<lambda>_. 0), zone_total = (\<lambda>_. 0),
         zone_free = (\<lambda>_. 0)\<rparr>\<rparr>"

definition pmm_init :: "pmm_state \<Rightarrow> memmap_entry list option \<Rightarrow> pmm_state option" where
  "pmm_init s mm =
     (case mm of
        None \<Rightarrow> None
      | Some es \<Rightarrow>
          let stop = highest_end es 0 in
          if stop = 0 then None
          else
            let count = stop div PAGE_SIZE;
                (meta_pa, es) = carve_metadata (metadata_span count) es
            in if meta_pa = 0 then None
               else
                 let s = feed_ranges (pmm_reset s (unat count)) es;
                     s = s\<lparr>stats := (stats s)\<lparr>total_pages := free_pages (stats s)\<rparr>\<rparr>;
                     (pa, s) = pmm_alloc_zeroed_pages s 0
                 in if pa = 0 then None else Some (s\<lparr>mm_zero_page := pa\<rparr>))"

end
