(* ===== verification/Slab.thy ===== *)
theory Slab
  imports Pmm
begin

text \<open>
  The slab allocator and \<^verbatim>\<open>kmalloc\<close>, \<^verbatim>\<open>kernel/mm/slab.c\<close>, over the page allocator. This theory
  is the code. Kernel pointers are addresses in the direct map, \<open>hhdm\<close> above the physical
  address. The header at the start of a slab page and the one at the start of a large block are
  one function per field, by the address of the page; the \<open>kind\<close> byte that both start with is
  the first byte of the page in physical memory. The other fields are bytes of the page too, so
  giving a page back, which clears it, clears them (\<open>kmem_free_pages\<close>). A cache is its index in
  \<^verbatim>\<open>cache_pool\<close>. The caches' locks serialise the operations, so each is one step.
\<close>

section \<open>State\<close>

definition SLAB_BITMAP_WORDS :: nat where "SLAB_BITMAP_WORDS = 8"
definition PAGE_KIND_SLAB :: u8 where "PAGE_KIND_SLAB = 0xA1"
definition PAGE_KIND_LARGE :: u8 where "PAGE_KIND_LARGE = 0xA2"
definition MAX_CACHES :: nat where "MAX_CACHES = 32"
definition KMALLOC_MIN_SHIFT :: nat where "KMALLOC_MIN_SHIFT = 4"
definition KMALLOC_MAX_SHIFT :: nat where "KMALLOC_MAX_SHIFT = 11"
definition KMALLOC_NCLASSES :: nat where "KMALLOC_NCLASSES = KMALLOC_MAX_SHIFT - KMALLOC_MIN_SHIFT + 1"
definition LARGE_MAGIC :: u64 where "LARGE_MAGIC = 0x534C4142504B5350"

text \<open>
  \<^verbatim>\<open>sizeof(struct slab_page)\<close> and \<^verbatim>\<open>sizeof(struct large_hdr)\<close> under the x86-64 layout rules: a
  padded tag, three pointers, two counters and eight bitmap words; a padded tag, the magic
  number, the order and nine reserved words.
\<close>

definition sizeof_slab_page :: nat where "sizeof_slab_page = 8 + 8 + 8 + 8 + 4 + 4 + 8 * 8"
definition sizeof_large_hdr :: nat where "sizeof_large_hdr = 8 + 8 + 4 + 4 * 9"

record kmem_state =
  pmm :: pmm_state
  hhdm :: nat
  sp_next :: "ptr \<Rightarrow> ptr"
  sp_prev :: "ptr \<Rightarrow> ptr"
  sp_cache :: "ptr \<Rightarrow> nat option"
  sp_used :: "ptr \<Rightarrow> nat"
  sp_capacity :: "ptr \<Rightarrow> nat"
  sp_bitmap :: "ptr \<Rightarrow> nat \<Rightarrow> u64"
  lh_magic :: "ptr \<Rightarrow> u64"
  lh_order :: "ptr \<Rightarrow> nat"
  cache_count :: nat
  c_object_size :: "nat \<Rightarrow> nat"
  c_align :: "nat \<Rightarrow> nat"
  c_objects_per_slab :: "nat \<Rightarrow> nat"
  c_partial :: "nat \<Rightarrow> ptr"
  c_full :: "nat \<Rightarrow> ptr"
  c_alloc_count :: "nat \<Rightarrow> u64"
  c_free_count :: "nat \<Rightarrow> u64"
  kmalloc_caches :: "nat \<Rightarrow> nat option"

definition phys_to_virt :: "kmem_state \<Rightarrow> paddr_t \<Rightarrow> ptr" where
  "phys_to_virt s pa = hhdm s + unat pa"

definition virt_to_phys :: "kmem_state \<Rightarrow> ptr \<Rightarrow> paddr_t" where
  "virt_to_phys s v = of_nat (v - hhdm s)"

text \<open>The byte at a direct-map address.\<close>

definition read_byte :: "kmem_state \<Rightarrow> ptr \<Rightarrow> u8" where
  "read_byte s v = pmem (pmm s) (v - hhdm s)"

definition write_byte :: "kmem_state \<Rightarrow> ptr \<Rightarrow> u8 \<Rightarrow> kmem_state" where
  "write_byte s v b = s\<lparr>pmm := (pmm s)\<lparr>pmem := (pmem (pmm s))(v - hhdm s := b)\<rparr>\<rparr>"

text \<open>\<open>x & ~(a - 1)\<close>.\<close>

definition align_down :: "nat \<Rightarrow> nat \<Rightarrow> nat" where
  "align_down x a = nat (int x AND NOT (int a - 1))"

definition kmem_alloc_pages :: "kmem_state \<Rightarrow> nat \<Rightarrow> paddr_t \<times> kmem_state" where
  "kmem_alloc_pages s order =
     (let (pa, m) = pmm_alloc_pages (pmm s) (int order) in (pa, s\<lparr>pmm := m\<rparr>))"

definition kmem_free_pages :: "kmem_state \<Rightarrow> paddr_t \<Rightarrow> nat \<Rightarrow> kmem_state option" where
  "kmem_free_pages s pa order =
     do {
       m \<leftarrow> pmm_free_pages (pmm s) pa (int order);
       let gone = (\<lambda>v. phys_to_virt s pa \<le> v \<and> v < phys_to_virt s pa + PMM_ORDER_SIZE order);
       Some (s\<lparr>pmm := m,
         sp_next := (\<lambda>v. if gone v then NULL else sp_next s v),
         sp_prev := (\<lambda>v. if gone v then NULL else sp_prev s v),
         sp_cache := (\<lambda>v. if gone v then None else sp_cache s v),
         sp_used := (\<lambda>v. if gone v then 0 else sp_used s v),
         sp_capacity := (\<lambda>v. if gone v then 0 else sp_capacity s v),
         sp_bitmap := (\<lambda>v. if gone v then (\<lambda>_. 0) else sp_bitmap s v),
         lh_magic := (\<lambda>v. if gone v then 0 else lh_magic s v),
         lh_order := (\<lambda>v. if gone v then 0 else lh_order s v)\<rparr>)
     }"

section \<open>Slab lists\<close>

text \<open>\<^verbatim>\<open>list_remove\<close> and \<^verbatim>\<open>list_push\<close> of this file; the first result is the new list head.\<close>

definition slab_list_remove :: "kmem_state \<Rightarrow> ptr \<Rightarrow> ptr \<Rightarrow> ptr \<times> kmem_state" where
  "slab_list_remove s head p =
     (let (head, s) = (if sp_prev s p \<noteq> NULL
            then (head, s\<lparr>sp_next := (sp_next s)(sp_prev s p := sp_next s p)\<rparr>)
            else (sp_next s p, s));
          s = (if sp_next s p \<noteq> NULL then s\<lparr>sp_prev := (sp_prev s)(sp_next s p := sp_prev s p)\<rparr> else s);
          s = s\<lparr>sp_prev := (sp_prev s)(p := NULL)\<rparr>;
          s = s\<lparr>sp_next := (sp_next s)(p := NULL)\<rparr>
      in (head, s))"

definition slab_list_push :: "kmem_state \<Rightarrow> ptr \<Rightarrow> ptr \<Rightarrow> ptr \<times> kmem_state" where
  "slab_list_push s head p =
     (let s = s\<lparr>sp_prev := (sp_prev s)(p := NULL)\<rparr>;
          s = s\<lparr>sp_next := (sp_next s)(p := head)\<rparr>;
          s = (if head \<noteq> NULL then s\<lparr>sp_prev := (sp_prev s)(head := p)\<rparr> else s)
      in (p, s))"

definition push_partial :: "kmem_state \<Rightarrow> nat \<Rightarrow> ptr \<Rightarrow> kmem_state" where
  "push_partial s c p =
     (let (head, s) = slab_list_push s (c_partial s c) p in s\<lparr>c_partial := (c_partial s)(c := head)\<rparr>)"

definition push_full :: "kmem_state \<Rightarrow> nat \<Rightarrow> ptr \<Rightarrow> kmem_state" where
  "push_full s c p =
     (let (head, s) = slab_list_push s (c_full s c) p in s\<lparr>c_full := (c_full s)(c := head)\<rparr>)"

definition remove_partial :: "kmem_state \<Rightarrow> nat \<Rightarrow> ptr \<Rightarrow> kmem_state" where
  "remove_partial s c p =
     (let (head, s) = slab_list_remove s (c_partial s c) p in s\<lparr>c_partial := (c_partial s)(c := head)\<rparr>)"

definition remove_full :: "kmem_state \<Rightarrow> nat \<Rightarrow> ptr \<Rightarrow> kmem_state" where
  "remove_full s c p =
     (let (head, s) = slab_list_remove s (c_full s c) p in s\<lparr>c_full := (c_full s)(c := head)\<rparr>)"

section \<open>Slabs\<close>

text \<open>The first object of a slab of cache \<open>c\<close>: past the header, rounded up.\<close>

definition first_object :: "kmem_state \<Rightarrow> nat \<Rightarrow> ptr \<Rightarrow> ptr" where
  "first_object s c sp =
     (let obj0 = sp + sizeof_slab_page;
          align = (if c_align s c \<noteq> 0 then c_align s c else 8)
      in align_down (obj0 + align - 1) align)"

definition new_slab :: "kmem_state \<Rightarrow> nat \<Rightarrow> ptr \<times> kmem_state" where
  "new_slab s c =
     (let (pa, s) = kmem_alloc_pages s 0 in
      if pa = 0 then (NULL, s)
      else
        let sp = phys_to_virt s pa;
            s = s\<lparr>sp_next := (sp_next s)(sp := NULL), sp_prev := (sp_prev s)(sp := NULL),
              sp_used := (sp_used s)(sp := 0), sp_bitmap := (sp_bitmap s)(sp := (\<lambda>_. 0))\<rparr>;
            s = write_byte s sp PAGE_KIND_SLAB;
            s = s\<lparr>sp_cache := (sp_cache s)(sp := Some c)\<rparr>;
            obj0 = first_object s c sp - sp;
            avail = 4096 - obj0;
            cap = avail div c_object_size s c;
            cap = (if SLAB_BITMAP_WORDS * 64 < cap then SLAB_BITMAP_WORDS * 64 else cap);
            s = s\<lparr>sp_capacity := (sp_capacity s)(sp := cap)\<rparr>;
            s = s\<lparr>c_objects_per_slab := (c_objects_per_slab s)(c := cap)\<rparr>
        in (sp, s))"

text \<open>\<^verbatim>\<open>__builtin_ctzll\<close>: the number of zero bits below the lowest one.\<close>

definition ctz :: "u64 \<Rightarrow> nat" where
  "ctz b = length (takeWhile (\<lambda>n. \<not> bit b n) [0..<64])"

function alloc_scan :: "kmem_state \<Rightarrow> ptr \<Rightarrow> nat \<Rightarrow> (nat \<times> kmem_state) option" where
  "alloc_scan s sp w =
     (if w < SLAB_BITMAP_WORDS then
        let b = sp_bitmap s sp w in
        if b = - 1 then alloc_scan s sp (w + 1)
        else
          let bi = ctz (NOT b); idx = w * 64 + bi in
          if sp_capacity s sp \<le> idx then None
          else
            let s = s\<lparr>sp_bitmap := (sp_bitmap s)(sp := (sp_bitmap s sp)(w := b OR push_bit bi 1))\<rparr>;
                s = s\<lparr>sp_used := (sp_used s)(sp := sp_used s sp + 1)\<rparr>
            in Some (idx, s)
      else None)"
  by auto
termination by (relation "measure (\<lambda>(s, sp, w). SLAB_BITMAP_WORDS - w)") auto

declare alloc_scan.simps [simp del]

text \<open>\<open>None\<close> is the result \<^verbatim>\<open>-1\<close>.\<close>

definition alloc_in_slab :: "kmem_state \<Rightarrow> ptr \<Rightarrow> (nat \<times> kmem_state) option" where
  "alloc_in_slab s sp = alloc_scan s sp 0"

definition free_in_slab :: "kmem_state \<Rightarrow> ptr \<Rightarrow> nat \<Rightarrow> kmem_state option" where
  "free_in_slab s sp idx =
     (let w = idx div 64; bi = idx mod 64 in
      if sp_bitmap s sp w AND push_bit bi 1 = 0 then None
      else
        let s = s\<lparr>sp_bitmap := (sp_bitmap s)(sp := (sp_bitmap s sp)(w := sp_bitmap s sp w AND NOT (push_bit bi 1)))\<rparr>
        in Some (s\<lparr>sp_used := (sp_used s)(sp := sp_used s sp - 1)\<rparr>))"

section \<open>Caches\<close>

definition kmem_cache_create :: "kmem_state \<Rightarrow> nat \<Rightarrow> nat \<Rightarrow> nat option \<times> kmem_state" where
  "kmem_cache_create s sz align =
     (if MAX_CACHES \<le> cache_count s then (None, s)
      else
        let align = (if align = 0 then 8 else align);
            sz = align_down (sz + align - 1) align
        in if sz = 0 then (None, s)
           else
             let c = cache_count s in
             (Some c, s\<lparr>cache_count := c + 1, c_object_size := (c_object_size s)(c := sz),
               c_align := (c_align s)(c := align), c_partial := (c_partial s)(c := NULL),
               c_full := (c_full s)(c := NULL), c_alloc_count := (c_alloc_count s)(c := 0),
               c_free_count := (c_free_count s)(c := 0)\<rparr>))"

definition cache_slab :: "kmem_state \<Rightarrow> nat \<Rightarrow> ptr \<times> kmem_state" where
  "cache_slab s c =
     (if c_partial s c = NULL then
        let (sp, s) = new_slab s c in if sp = NULL then (NULL, s) else (sp, push_partial s c sp)
      else (c_partial s c, s))"

definition kmem_cache_alloc :: "kmem_state \<Rightarrow> nat \<Rightarrow> ptr \<times> kmem_state" where
  "kmem_cache_alloc s c =
     (let (sp, s) = cache_slab s c in
      if sp = NULL then (NULL, s)
      else
        case alloc_in_slab s sp of
          None \<Rightarrow> (NULL, s)
        | Some (idx, s) \<Rightarrow>
            let s = (if sp_used s sp = sp_capacity s sp then push_full (remove_partial s c sp) c sp else s);
                obj = first_object s c sp + idx * c_object_size s c
            in (obj, s\<lparr>c_alloc_count := (c_alloc_count s)(c := c_alloc_count s c + 1)\<rparr>))"

text \<open>
  A pointer into the header makes the unsigned offset wrap and the bitmap index leave the
  bitmap; that is \<open>None\<close> here, as the panics are.
\<close>

definition kmem_cache_free :: "kmem_state \<Rightarrow> nat \<Rightarrow> ptr \<Rightarrow> kmem_state option" where
  "kmem_cache_free s c obj =
     (if obj = NULL then Some s
      else
        let sp = align_down obj 4096 in
        if sp_cache s sp \<noteq> Some c then None
        else if obj < first_object s c sp then None
        else
          let off = obj - first_object s c sp;
              idx = off div c_object_size s c;
              was_full = (sp_used s sp = sp_capacity s sp)
          in do {
            s \<leftarrow> free_in_slab s sp idx;
            let s = s\<lparr>c_free_count := (c_free_count s)(c := c_free_count s c + 1)\<rparr>;
            let s = (if was_full then push_partial (remove_full s c sp) c sp else s);
            if sp_used s sp = 0
            then kmem_free_pages (remove_partial s c sp) (virt_to_phys s sp) 0
            else Some s
          })"

section \<open>kmalloc\<close>

function slab_init_loop :: "kmem_state \<Rightarrow> nat \<Rightarrow> kmem_state option" where
  "slab_init_loop s i =
     (if i < KMALLOC_NCLASSES then
        let sz = 2 ^ (i + KMALLOC_MIN_SHIFT);
            align = (if sz < 64 then sz else 64);
            (c, s) = kmem_cache_create s sz align;
            s = s\<lparr>kmalloc_caches := (kmalloc_caches s)(i := c)\<rparr>
        in if c = None then None else slab_init_loop s (i + 1)
      else Some s)"
  by auto
termination by (relation "measure (\<lambda>(s, i). KMALLOC_NCLASSES - i)") auto

declare slab_init_loop.simps [simp del]

definition slab_init :: "kmem_state \<Rightarrow> kmem_state option" where
  "slab_init s = slab_init_loop (s\<lparr>cache_count := 0\<rparr>) 0"

text \<open>The order of a large request: \<open>None\<close> where the loop gives up.\<close>

function large_order :: "nat \<Rightarrow> nat \<Rightarrow> nat option" where
  "large_order req order =
     (if 4096 * 2 ^ order < req then
        if PMM_MAX_ORDER \<le> order + 1 then None else large_order req (order + 1)
      else Some order)"
  by auto
termination by (relation "measure (\<lambda>(req, order). PMM_MAX_ORDER - order)") auto

declare large_order.simps [simp del]

definition large_alloc :: "kmem_state \<Rightarrow> nat \<Rightarrow> ptr \<times> kmem_state" where
  "large_alloc s sz =
     (if 2 ^ 64 \<le> sz + sizeof_large_hdr then (NULL, s)
      else
        case large_order (sz + sizeof_large_hdr) 0 of
          None \<Rightarrow> (NULL, s)
        | Some order \<Rightarrow>
            let (pa, s) = kmem_alloc_pages s order in
            if pa = 0 then (NULL, s)
            else
              let h = phys_to_virt s pa;
                  s = write_byte s h PAGE_KIND_LARGE;
                  s = s\<lparr>lh_magic := (lh_magic s)(h := LARGE_MAGIC)\<rparr>;
                  s = s\<lparr>lh_order := (lh_order s)(h := order)\<rparr>
              in (h + sizeof_large_hdr, s))"

definition large_free :: "kmem_state \<Rightarrow> ptr \<Rightarrow> kmem_state option" where
  "large_free s p =
     (let h = p - sizeof_large_hdr in
      if read_byte s h \<noteq> PAGE_KIND_LARGE \<or> lh_magic s h \<noteq> LARGE_MAGIC then None
      else
        let order = lh_order s h;
            pa = virt_to_phys s h;
            s = write_byte s h 0;
            s = s\<lparr>lh_magic := (lh_magic s)(h := 0)\<rparr>
        in kmem_free_pages s pa order)"

function size_shift :: "nat \<Rightarrow> nat \<Rightarrow> nat" where
  "size_shift sz shift = (if 2 ^ shift < sz then size_shift sz (shift + 1) else shift)"
  by auto
termination
proof (relation "measure (\<lambda>(sz, shift). sz - 2 ^ shift)")
  fix sz shift :: nat
  assume "2 ^ shift < sz"
  moreover have "(2 :: nat) ^ shift < 2 ^ (shift + 1)" by simp
  ultimately show "((sz, shift + 1), sz, shift) \<in> measure (\<lambda>(sz, shift). sz - 2 ^ shift)"
    by (simp add: diff_less_mono2)
qed auto

declare size_shift.simps [simp del]

text \<open>\<open>None\<close>: the cache of the size class was never created, a null dereference in the source.\<close>

definition kmalloc :: "kmem_state \<Rightarrow> nat \<Rightarrow> (ptr \<times> kmem_state) option" where
  "kmalloc s sz =
     (if sz = 0 then Some (NULL, s)
      else if 2 ^ KMALLOC_MAX_SHIFT < sz then Some (large_alloc s sz)
      else
        let idx = size_shift sz KMALLOC_MIN_SHIFT - KMALLOC_MIN_SHIFT in
        case kmalloc_caches s idx of None \<Rightarrow> None | Some c \<Rightarrow> Some (kmem_cache_alloc s c))"

definition kfree :: "kmem_state \<Rightarrow> ptr \<Rightarrow> kmem_state option" where
  "kfree s p =
     (if p = NULL then Some s
      else
        let page = align_down p 4096;
            kind = read_byte s page
        in if kind = PAGE_KIND_LARGE then
             if p \<noteq> page + sizeof_large_hdr then None else large_free s p
           else if kind = PAGE_KIND_SLAB then
             case sp_cache s page of None \<Rightarrow> None | Some c \<Rightarrow> kmem_cache_free s c p
           else None)"

definition kzalloc :: "kmem_state \<Rightarrow> nat \<Rightarrow> (ptr \<times> kmem_state) option" where
  "kzalloc s sz =
     do {
       (p, s) \<leftarrow> kmalloc s sz;
       if p \<noteq> NULL then
         Some (p, s\<lparr>pmm := pmem_zero (pmm s) (p - hhdm s) sz\<rparr>)
       else Some (p, s)
     }"

end
