(* ===== verification/Linked_List.thy ===== *)
theory Linked_List
  imports Jnu_Prelude
begin

text \<open>
  Doubly linked lists through two link fields, as the page allocator (\<^verbatim>\<open>kernel/mm/pmm.c\<close>,
  by page frame number) and the slab allocator (\<^verbatim>\<open>kernel/mm/slab.c\<close>, by address) keep them.
  \<open>nil\<close> is the value of the empty link: \<^verbatim>\<open>NO_LINK\<close> in the one and \<^verbatim>\<open>NULL\<close> in the other.
\<close>

fun dll :: "nat \<Rightarrow> (nat \<Rightarrow> nat) \<Rightarrow> (nat \<Rightarrow> nat) \<Rightarrow> nat \<Rightarrow> nat \<Rightarrow> nat list \<Rightarrow> bool" where
  "dll nil N P h pr [] = (h = nil)"
| "dll nil N P h pr (x # xs) = (h = x \<and> x \<noteq> nil \<and> P x = pr \<and> dll nil N P (N x) x xs)"

lemma dll_frame:
  "(\<And>x. x \<in> set xs \<Longrightarrow> N' x = N x \<and> P' x = P x) \<Longrightarrow> dll nil N' P' h pr xs = dll nil N P h pr xs"
  by (induction xs arbitrary: h pr) auto

lemma dll_tail: "dll nil N P h pr (as @ bs) \<Longrightarrow> \<exists>h'. dll nil N P h' (if as = [] then pr else last as) bs"
proof (induction as arbitrary: h pr)
  case (Cons a as)
  then have "dll nil N P (N a) a (as @ bs)" by simp
  from Cons.IH [OF this] have "\<exists>h'. dll nil N P h' (if as = [] then a else last as) bs" .
  then show ?case by (cases "as = []") simp_all
qed auto

lemma dll_head: "dll nil N P h pr xs \<Longrightarrow> h = (if xs = [] then nil else hd xs)"
  by (cases xs) simp_all

lemma dll_no_link: "dll nil N P h pr xs \<Longrightarrow> nil \<notin> set xs"
  by (induction xs arbitrary: h pr) auto

lemma dll_links:
  assumes "dll nil N P h pr (as @ x # bs)"
  shows "N x = (if bs = [] then nil else hd bs)" "P x = (if as = [] then pr else last as)"
proof -
  from dll_tail [OF assms] obtain h' where
    t: "dll nil N P h' (if as = [] then pr else last as) (x # bs)" by blast
  then show "P x = (if as = [] then pr else last as)" by simp
  from t have "dll nil N P (N x) x bs" by simp
  then show "N x = (if bs = [] then nil else hd bs)" by (rule dll_head)
qed

lemma dll_remove:
  assumes "dll nil N P h pr (as @ x # bs)" "distinct (as @ x # bs)"
  shows "dll nil (if as = [] then N else N(last as := N x)) (if bs = [] then P else P(hd bs := P x))
    (if as = [] then N x else h) pr (as @ bs)"
  using assms
proof (induction as arbitrary: h pr)
  case Nil
  show ?case
  proof (cases bs)
    case (Cons b bs')
    have "dll nil N (P(b := P x)) (N b) b bs' = dll nil N P (N b) b bs'"
      using Nil Cons by (intro dll_frame) auto
    with Nil Cons show ?thesis by (simp add: fun_upd_def)
  qed (use Nil in simp)
next
  case (Cons a as)
  have h: "h = a" "a \<noteq> nil" "P a = pr" "dll nil N P (N a) a (as @ x # bs)" "distinct (as @ x # bs)"
    "a \<notin> set (as @ x # bs)" using Cons.prems by auto
  note ih = Cons.IH [OF h(4,5)]
  have a: "bs \<noteq> [] \<Longrightarrow> a \<noteq> hd bs" using h(6) by (metis Un_iff hd_in_set list.set_intros(2) set_append)
  show ?case
  proof (cases as)
    case Nil
    have "dll nil (N(a := N x)) (if bs = [] then P else P(hd bs := P x)) (N x) a bs =
      dll nil N (if bs = [] then P else P(hd bs := P x)) (N x) a bs"
      using h(6) Nil by (intro dll_frame) auto
    with ih h(1-3) a Nil show ?thesis by (simp add: fun_upd_def)
  next
    case (Cons a' as')
    then have "last as \<noteq> a" using h(6) by (metis Un_iff last_in_set list.distinct(1) set_append)
    with ih h(1-3) a Cons show ?thesis by (simp add: fun_upd_def)
  qed
qed

lemma dll_push:
  assumes "dll nil N P h nil xs" "x \<notin> set xs" "x \<noteq> nil" "distinct xs"
  shows "dll nil (N(x := h)) (if h = nil then P(x := nil) else P(x := nil, h := x)) x nil (x # xs)"
proof (cases xs)
  case Nil
  with assms show ?thesis by simp
next
  case (Cons y ys)
  have "dll nil (N(x := h)) (P(x := nil, y := x)) (N y) y ys = dll nil N P (N y) y ys"
    using assms Cons by (intro dll_frame) auto
  with assms Cons show ?thesis by auto
qed

section \<open>Families of lists that share their links\<close>

text \<open>
  The lists with heads \<open>H k\<close>, for \<open>k\<close> in \<open>K\<close>, hold exactly the disjoint sets \<open>S k\<close>. Taking a
  node off its list and pushing one are stated with the stores the C code makes.
\<close>

definition dlls :: "nat \<Rightarrow> (nat \<Rightarrow> nat) \<Rightarrow> (nat \<Rightarrow> nat) \<Rightarrow> ('k \<Rightarrow> nat) \<Rightarrow> 'k set \<Rightarrow> ('k \<Rightarrow> nat set) \<Rightarrow> bool" where
  "dlls nil N P H K S \<longleftrightarrow>
     (\<forall>k\<in>K. \<exists>xs. dll nil N P (H k) nil xs \<and> distinct xs \<and> set xs = S k) \<and>
     (\<forall>k\<in>K. \<forall>k'\<in>K. k \<noteq> k' \<longrightarrow> S k \<inter> S k' = {})"

lemma dlls_obtain:
  assumes "dlls nil N P H K S" "k \<in> K" "x \<in> S k"
  obtains as bs where "dll nil N P (H k) nil (as @ x # bs)" "distinct (as @ x # bs)" "set (as @ x # bs) = S k"
proof -
  from assms obtain xs where xs: "dll nil N P (H k) nil xs" "distinct xs" "set xs = S k"
    by (auto simp: dlls_def)
  with assms(3) obtain as bs where "xs = as @ x # bs" by (metis split_list)
  with xs that show ?thesis by blast
qed

lemma dlls_head:
  assumes "dlls nil N P H K S" "k \<in> K"
  shows "H k = nil \<longleftrightarrow> S k = {}" "H k \<noteq> nil \<Longrightarrow> H k \<in> S k"
proof -
  from assms obtain xs where xs: "dll nil N P (H k) nil xs" "set xs = S k" by (auto simp: dlls_def)
  show "H k = nil \<longleftrightarrow> S k = {}" "H k \<noteq> nil \<Longrightarrow> H k \<in> S k" using xs by (cases xs; auto)+
qed

lemma dlls_no_link: "dlls nil N P H K S \<Longrightarrow> k \<in> K \<Longrightarrow> nil \<notin> S k"
  using dll_no_link by (fastforce simp: dlls_def)

text \<open>Every other list of the family is untouched by stores to the nodes of one.\<close>

lemma dlls_other:
  assumes fam: "dlls nil N P H K S" and k: "j \<in> K"
    and same: "\<And>x. x \<in> S j \<Longrightarrow> N' x = N x \<and> P' x = P x" and h: "H' j = H j" and S: "S' j = S j"
  shows "\<exists>xs. dll nil N' P' (H' j) nil xs \<and> distinct xs \<and> set xs = S' j"
proof -
  from fam k obtain xs where xs: "dll nil N P (H j) nil xs" "distinct xs" "set xs = S j"
    by (auto simp: dlls_def)
  then have "dll nil N' P' (H j) nil xs = dll nil N P (H j) nil xs"
    using same by (intro dll_frame) auto
  with xs h S show ?thesis by metis
qed

lemma dlls_remove:
  assumes fam: "dlls nil N P H K S" and k: "k \<in> K" "x \<in> S k"
  shows "dlls nil ((if P x = nil then N else N(P x := N x))(x := nil))
    ((if N x = nil then P else P(N x := P x))(x := nil)) (if P x = nil then H(k := N x) else H) K
    (S(k := S k - {x}))"
    (is "dlls nil ?N ?P ?H K ?S")
proof -
  obtain as bs where ab: "dll nil N P (H k) nil (as @ x # bs)" "distinct (as @ x # bs)" "set (as @ x # bs) = S k"
    using dlls_obtain [OF fam k] .
  note l = dll_links [OF ab(1)] and nl = dll_no_link [OF ab(1)]
  have P: "P x = nil \<longleftrightarrow> as = []" "as \<noteq> [] \<Longrightarrow> P x = last as"
    and N: "N x = nil \<longleftrightarrow> bs = []" "bs \<noteq> [] \<Longrightarrow> N x = hd bs"
    using l nl last_in_set [of as] hd_in_set [of bs] by (metis Un_iff list.set_intros(2) set_append)+
  let ?N' = "if as = [] then N else N(last as := N x)" and ?P' = "if bs = [] then P else P(hd bs := P x)"
  have eq: "?N = ?N'(x := nil)" "?P = ?P'(x := nil)" using P N by auto
  have mem: "as \<noteq> [] \<longrightarrow> last as \<in> S k" "bs \<noteq> [] \<longrightarrow> hd bs \<in> S k"
    unfolding ab(3) [symmetric] by simp_all
  have own: "\<exists>xs. dll nil ?N ?P (?H k) nil xs \<and> distinct xs \<and> set xs = ?S k"
  proof (intro exI conjI)
    have "dll nil ?N ?P (?H k) nil (as @ bs) = dll nil ?N' ?P' (?H k) nil (as @ bs)"
      unfolding eq using ab(2) by (intro dll_frame conjI fun_upd_other) auto
    moreover have "?H k = (if as = [] then N x else H k)" using P by auto
    ultimately show "dll nil ?N ?P (?H k) nil (as @ bs)" using dll_remove [OF ab(1,2)] by simp
    show "distinct (as @ bs)" using ab(2) by simp
    show "set (as @ bs) = ?S k" using ab(2,3) by auto
  qed
  have other: "\<exists>xs. dll nil ?N ?P (?H j) nil xs \<and> distinct xs \<and> set xs = ?S j" if j: "j \<in> K" "j \<noteq> k" for j
  proof (rule dlls_other [OF fam j(1)])
    have dis: "S j \<inter> S k = {}" using fam k(1) j by (auto simp: dlls_def)
    show "?N y = N y \<and> ?P y = P y" if y: "y \<in> S j" for y
    proof -
      have "y \<noteq> x" "as \<noteq> [] \<longrightarrow> y \<noteq> last as" "bs \<noteq> [] \<longrightarrow> y \<noteq> hd bs" using y dis k(2) mem by auto
      then show ?thesis unfolding eq by simp
    qed
  qed (use j in auto)
  show ?thesis
  proof (unfold dlls_def, intro conjI ballI impI)
    show "\<exists>xs. dll nil ?N ?P (?H j) nil xs \<and> distinct xs \<and> set xs = ?S j" if "j \<in> K" for j
      using own other that by (cases "j = k") blast+
    show "?S i \<inter> ?S j = {}" if "i \<in> K" "j \<in> K" "i \<noteq> j" for i j
    proof -
      have "S i \<inter> S j = {}" using fam that unfolding dlls_def by blast
      then show ?thesis using that by auto
    qed
  qed
qed

lemma dlls_push:
  assumes fam: "dlls nil N P H K S" and k: "k \<in> K" and x: "x \<noteq> nil" "\<forall>j\<in>K. x \<notin> S j"
  shows "dlls nil (N(x := H k)) (if H k = nil then P(x := nil) else P(x := nil, H k := x)) (H(k := x)) K
    (S(k := insert x (S k)))"
    (is "dlls nil ?N ?P ?H K ?S")
proof -
  from fam k obtain ys where ys: "dll nil N P (H k) nil ys" "distinct ys" "set ys = S k"
    by (auto simp: dlls_def)
  have own: "\<exists>xs. dll nil ?N ?P (?H k) nil xs \<and> distinct xs \<and> set xs = ?S k"
    using dll_push [OF ys(1) _ x(1) ys(2)] ys x(2) k by (intro exI [of _ "x # ys"]) auto
  have hk: "H k = nil \<or> H k \<in> S k" using dlls_head(2) [OF fam k] by blast
  have other: "\<exists>xs. dll nil ?N ?P (?H j) nil xs \<and> distinct xs \<and> set xs = ?S j" if j: "j \<in> K" "j \<noteq> k" for j
  proof (rule dlls_other [OF fam j(1)])
    have dis: "S j \<inter> S k = {}" using fam k j by (auto simp: dlls_def)
    show "?N y = N y \<and> ?P y = P y" if y: "y \<in> S j" for y
      using y dis hk x(2) j(1) by auto
  qed (use j in auto)
  show ?thesis
  proof (unfold dlls_def, intro conjI ballI impI)
    show "\<exists>xs. dll nil ?N ?P (?H j) nil xs \<and> distinct xs \<and> set xs = ?S j" if "j \<in> K" for j
      using own other that by (cases "j = k") blast+
    show "?S i \<inter> ?S j = {}" if "i \<in> K" "j \<in> K" "i \<noteq> j" for i j
    proof -
      have "S i \<inter> S j = {}" using fam that unfolding dlls_def by blast
      then show ?thesis using that x(2) by auto
    qed
  qed
qed

section \<open>Singly linked lists\<close>

text \<open>
  Lists through one link field that end in null: the run queue and the task list of
  \<^verbatim>\<open>kernel/kernel/sched.c\<close>, the children of a process, the waiters of a mutex and of a futex.
\<close>

fun sll :: "(ptr \<Rightarrow> ptr) \<Rightarrow> ptr \<Rightarrow> ptr list \<Rightarrow> bool" where
  "sll N h [] = (h = 0)"
| "sll N h (x # xs) = (h = x \<and> x \<noteq> 0 \<and> sll N (N x) xs)"

lemma sll_frame: "(\<And>x. x \<in> set xs \<Longrightarrow> N' x = N x) \<Longrightarrow> sll N' h xs = sll N h xs"
  by (induction xs arbitrary: h) auto

lemma sll_upd [simp]: "x \<notin> set xs \<Longrightarrow> sll (N(x := y)) h xs = sll N h xs"
  by (rule sll_frame) auto

lemma sll_no_null: "sll N h xs \<Longrightarrow> 0 \<notin> set xs"
  by (induction xs arbitrary: h) auto

lemma sll_head: "sll N h xs \<Longrightarrow> h = first_or_null xs"
  by (cases xs) auto

lemma sll_null: "sll N h xs \<Longrightarrow> h = 0 \<longleftrightarrow> xs = []"
  by (cases xs) auto

lemma sll_unique: "sll N h xs \<Longrightarrow> sll N h ys \<Longrightarrow> xs = ys"
proof (induction xs arbitrary: h ys)
  case Nil
  then show ?case by (cases ys) auto
next
  case (Cons x xs)
  then show ?case by (cases ys) auto
qed

lemma sll_suffix: "sll N h (xs @ ys) \<Longrightarrow> \<exists>h'. sll N h' ys \<and> (ys \<noteq> [] \<longrightarrow> h' = hd ys)"
  by (induction xs arbitrary: h) (cases ys; auto)+

lemma sll_distinct: "sll N h xs \<Longrightarrow> distinct xs"
proof (induction xs arbitrary: h)
  case (Cons x xs)
  have "x \<notin> set xs"
  proof
    assume "x \<in> set xs"
    then obtain as bs where ab: "xs = as @ x # bs" by (meson split_list)
    then have "sll N x (x # bs)" using Cons.prems sll_suffix [of N "N x" as "x # bs"] by auto
    moreover have "sll N x (x # xs)" using Cons.prems by simp
    ultimately have "x # xs = x # bs" by (rule sll_unique [rotated])
    then have "length xs = length bs" by simp
    then show False using ab by simp
  qed
  then show ?case using Cons by auto
qed simp

lemma sll_last: "sll N h xs \<Longrightarrow> xs \<noteq> [] \<Longrightarrow> N (last xs) = 0"
  by (induction xs arbitrary: h) auto

lemma sll_push: "sll N h xs \<Longrightarrow> x \<notin> set xs \<Longrightarrow> x \<noteq> 0 \<Longrightarrow> sll (N(x := h)) x (x # xs)"
  by simp

lemma sll_snoc:
  assumes "sll N h xs" "x \<notin> set xs" "x \<noteq> 0"
  shows "sll (if xs = [] then N(x := 0) else N(x := 0, last xs := x)) (if xs = [] then x else h) (xs @ [x])"
  using assms
proof (induction xs arbitrary: h)
  case (Cons y ys)
  have d: "y \<notin> set ys" using sll_distinct [OF Cons.prems(1)] by simp
  show ?case
  proof (cases "ys = []")
    case False
    then have "last ys \<noteq> y" using d by (metis last_in_set)
    then show ?thesis using Cons False by (auto simp: fun_upd_def)
  qed (use Cons.prems in auto)
qed simp

lemma sll_remove:
  assumes "sll N h (as @ x # bs)"
  shows "sll ((if as = [] then N else N(last as := N x))(x := 0)) (if as = [] then N x else h) (as @ bs)"
proof -
  have d: "distinct (as @ x # bs)" by (rule sll_distinct [OF assms])
  have "sll (if as = [] then N else N(last as := N x)) (if as = [] then N x else h) (as @ bs)"
    using assms d
  proof (induction as arbitrary: h)
    case (Cons a as)
    show ?case
    proof (cases "as = []")
      case True
      have "sll (N(a := N x)) (N x) bs" using Cons.prems True by simp
      then show ?thesis using Cons.prems True by (simp add: fun_upd_def)
    next
      case False
      then have "last as \<noteq> a" using Cons.prems(2) by (metis Un_iff append_Cons distinct.simps(2) last_in_set set_append)
      then show ?thesis using Cons False by (auto simp: fun_upd_def)
    qed
  qed simp
  then show ?thesis using d by (simp add: sll_upd)
qed

lemma sll_links:
  assumes "sll N h (as @ x # bs)"
  shows "N x = first_or_null bs" "x \<noteq> 0"
  using sll_suffix [OF assms] sll_head [of N "N x" bs] by auto

lemma sll_last_link: "sll N h (as @ ys) \<Longrightarrow> as \<noteq> [] \<Longrightarrow> N (last as) = first_or_null ys \<and> last as \<noteq> 0"
  by (induction as arbitrary: h) (auto dest: sll_head)

text \<open>
  The idiom by which the kernel takes a node out of such a list: a pointer \<^verbatim>\<open>link\<close> to the link field
  that holds the current node walks from the head to the end. It is named here by the node whose field
  it is, or null for the head. The result says whether the node was found, with the new head and links.
\<close>

partial_function (option) list_unlink :: "(ptr \<Rightarrow> ptr) \<Rightarrow> ptr \<Rightarrow> ptr \<Rightarrow> ptr \<Rightarrow> (bool \<times> ptr \<times> (ptr \<Rightarrow> ptr)) option" where
  "list_unlink N h link x =
     (let at = (if link = NULL then h else N link) in
      if at = NULL then Some (False, h, N)
      else if at = x then
        Some (True, if link = NULL then N x else h, (if link = NULL then N else N(link := N x))(x := NULL))
      else list_unlink N h at x)"

lemma list_unlink_from:
  assumes "sll N h (as @ bs @ x # cs)" "link = (if as = [] then 0 else last as)"
  shows "list_unlink N h link x =
    Some (True, if as @ bs = [] then N x else h, (if as @ bs = [] then N else N(last (as @ bs) := N x))(x := 0))"
  using assms
proof (induction bs arbitrary: as link)
  case Nil
  have x: "x \<noteq> 0" using sll_links(2) Nil by auto
  show ?case
  proof (cases "as = []")
    case True
    then show ?thesis using Nil x by (subst list_unlink.simps) simp
  next
    case False
    then show ?thesis using Nil x sll_last_link [of N h as "x # cs"] by (subst list_unlink.simps) simp
  qed
next
  case (Cons b bs)
  have d: "b \<noteq> x" "b \<noteq> 0" using sll_distinct [OF Cons.prems(1)] sll_no_null [OF Cons.prems(1)] by auto
  have b: "(if link = 0 then h else N link) = b"
    using Cons.prems sll_head [OF Cons.prems(1)] sll_last_link [of N h as "b # bs @ x # cs"] by (cases "as = []") auto
  have "list_unlink N h link x = list_unlink N h b x" using b d by (subst list_unlink.simps) (simp add: Let_def)
  then show ?case using Cons.IH [of "as @ [b]" b] Cons.prems(1) by simp
qed

lemma list_unlink_result:
  assumes "sll N h xs" "x \<in> set xs"
  obtains h' N' where "list_unlink N h 0 x = Some (True, h', N')" "sll N' h' (remove1 x xs)" "N' x = 0"
    "\<forall>y. y \<notin> set xs \<longrightarrow> N' y = N y"
proof -
  obtain as bs where A: "xs = as @ x # bs" "x \<notin> set as" using assms(2) by (metis split_list_first)
  have r: "remove1 x xs = as @ bs" using A by (simp add: remove1_append)
  let ?N = "(if as = [] then N else N(last as := N x))(x := 0)" and ?h = "if as = [] then N x else h"
  have "last as \<in> set xs" if "as \<noteq> []" using that A(1) by simp
  then have "\<forall>y. y \<notin> set xs \<longrightarrow> ?N y = N y" using A(1) by auto
  moreover have "list_unlink N h 0 x = Some (True, ?h, ?N)" using list_unlink_from [of N h "[]" as x bs 0] assms(1) A(1) by simp
  moreover have "sll ?N ?h (remove1 x xs)" using sll_remove [of N h as x bs] assms(1) A(1) r by simp
  moreover have "?N x = 0" by simp
  ultimately show ?thesis by (rule that [rotated 3])
qed

end
