(* ===== verification/Pmm_Inv.thy ===== *)
theory Pmm_Inv
  imports Pmm Linked_List
begin

text \<open>
  The invariant of the buddy allocator of \<^verbatim>\<open>kernel/mm/pmm.c\<close>: each doubly linked free list
  holds exactly the heads of the free blocks of its zone and order, blocks are aligned, in
  range and disjoint, the counters count, and every free page is zero. The two moves all
  operations are made of, taking a block off its list and putting one on, keep it.
\<close>

section \<open>Addresses and bits\<close>

lemma unat_push_bit_of_nat: "p < 2 ^ 52 \<Longrightarrow> unat (push_bit 12 (of_nat p :: u64)) = p * 4096"
proof -
  assume p: "p < 2 ^ 52"
  have "push_bit 12 (of_nat p :: u64) = of_nat (p * 4096)" by (simp add: push_bit_eq_mult)
  moreover have "p * 4096 < 2 ^ 64" using p by simp
  ultimately show ?thesis by (simp add: unsigned_of_nat take_bit_nat_eq_self del: of_nat_mult)
qed

lemma unat_pfn_to_pa: "p < 2 ^ 52 \<Longrightarrow> unat (pfn_to_pa p) = p * 4096"
  unfolding pfn_to_pa_def by (rule unat_push_bit_of_nat)

lemma pa_to_pfn_div: "pa_to_pfn pa = unat pa div 4096"
  by (simp add: pa_to_pfn_def drop_bit_eq_div unat_div)

lemma pa_to_pfn_to_pa [simp]: "p < 2 ^ 52 \<Longrightarrow> pa_to_pfn (pfn_to_pa p) = p"
  by (simp add: pa_to_pfn_div unat_pfn_to_pa)

lemma pfn_to_pa_eq_0: "p < 2 ^ 52 \<Longrightarrow> pfn_to_pa p = 0 \<longleftrightarrow> p = 0"
  using unat_pfn_to_pa [of p] by (metis mult_is_0 unat_eq_zero zero_neq_numeral)

lemma pfn_to_pa_to_pfn: "4096 dvd unat pa \<Longrightarrow> pfn_to_pa (pa_to_pfn pa) = pa"
proof -
  assume a: "4096 dvd unat pa"
  have "unat pa div 4096 < 2 ^ 52" using unat64_less [of pa] by simp
  then have "unat (pfn_to_pa (pa_to_pfn pa)) = unat pa"
    using a by (simp add: unat_pfn_to_pa pa_to_pfn_div)
  then show ?thesis by (simp add: word_unat_eq_iff)
qed

definition pzone :: "nat \<Rightarrow> pmm_zone" where
  "pzone p = (if p < 4096 then PMM_ZONE_DMA else PMM_ZONE_NORMAL)"

lemma zone_of_pa: "zone_of pa = pzone (pa_to_pfn pa)"
  by (auto simp: zone_of_def pzone_def pa_to_pfn_div word_less_nat_alt)

lemma zone_of_pfn [simp]: "p < 2 ^ 52 \<Longrightarrow> zone_of (pfn_to_pa p) = pzone p"
  by (simp add: zone_of_pa)

text \<open>An aligned block does not cross the border of the zones.\<close>

lemma pzone_block:
  assumes "2 ^ k dvd p" "k < 11" "p \<le> q" "q < p + 2 ^ k"
  shows "pzone q = pzone p"
proof -
  have "(2 :: nat) ^ k dvd 2 ^ 12" using assms(2) by (intro le_imp_power_dvd) simp
  then have b: "2 ^ k dvd (4096 :: nat)" by simp
  have "q < 4096" if "p < 4096"
  proof -
    have "2 ^ k dvd 4096 - p" using assms(1) b by (rule dvd_diff_nat [rotated])
    then have "2 ^ k \<le> 4096 - p" using that by (intro dvd_imp_le) simp_all
    with assms(4) that show ?thesis by linarith
  qed
  with assms(3) show ?thesis by (auto simp: pzone_def)
qed

definition isfree :: "pmm_state \<Rightarrow> nat \<Rightarrow> bool" where
  "isfree s p \<longleftrightarrow> pfn_flags s p AND PFN_FREE \<noteq> 0"

lemma free_bit [simp]:
  "(f OR PFN_FREE) AND PFN_FREE \<noteq> 0"
  "(f AND NOT PFN_FREE) AND PFN_FREE = 0"
  by (simp_all add: PFN_FREE_def and_one_eq mod_2_eq_odd even_or_iff even_and_iff even_not_iff)

lemma PFN_FREE_nonzero [simp]: "PFN_FREE \<noteq> 0"
  by (simp add: PFN_FREE_def)

section \<open>The invariant\<close>

definition blk :: "nat \<Rightarrow> nat \<Rightarrow> nat set" where
  "blk p k = {p..<p + 2 ^ k}"

definition block_heads :: "pmm_state \<Rightarrow> nat set" where
  "block_heads s = {p. p < pfn_count s \<and> isfree s p}"

text \<open>The pages of the free blocks: what the allocator has to give.\<close>

definition free_set :: "pmm_state \<Rightarrow> nat set" where
  "free_set s = (\<Union>p\<in>block_heads s. blk p (pfn_order s p))"

definition heads :: "pmm_state \<Rightarrow> pmm_zone \<Rightarrow> nat \<Rightarrow> nat set" where
  "heads s z k = {p \<in> block_heads s. pfn_order s p = k \<and> pzone p = z}"

text \<open>Each free list holds exactly the heads of its zone and order.\<close>

definition lists_ok :: "pmm_state \<Rightarrow> bool" where
  "lists_ok s \<longleftrightarrow> dlls NO_LINK (pfn_next s) (pfn_prev s) (\<lambda>(z, k). free_list_head s z k)
     (UNIV \<times> {..<11}) (\<lambda>(z, k). heads s z k)"

definition block_fits :: "nat \<Rightarrow> nat \<Rightarrow> nat \<Rightarrow> bool" where
  "block_fits n p k \<longleftrightarrow> k < 11 \<and> 2 ^ k dvd p \<and> 0 < p \<and> p + 2 ^ k \<le> n"

definition blocks_ok :: "pmm_state \<Rightarrow> bool" where
  "blocks_ok s \<longleftrightarrow> pfn_count s \<le> 2 ^ 52 \<and>
     (\<forall>p\<in>block_heads s. block_fits (pfn_count s) p (pfn_order s p)) \<and>
     (\<forall>p\<in>block_heads s. \<forall>q\<in>block_heads s. p \<noteq> q \<longrightarrow> blk p (pfn_order s p) \<inter> blk q (pfn_order s q) = {})"

definition stats_ok :: "pmm_state \<Rightarrow> bool" where
  "stats_ok s \<longleftrightarrow> free_pages (stats s) = of_nat (card (free_set s)) \<and>
     (\<forall>z. zone_free (stats s) z = of_nat (card {q \<in> free_set s. pzone q = z})) \<and>
     (\<forall>k. free_by_order (stats s) k = of_nat (card {p \<in> block_heads s. pfn_order s p = k}))"

text \<open>Every byte of a free page is zero.\<close>

definition zero_ok :: "pmm_state \<Rightarrow> bool" where
  "zero_ok s \<longleftrightarrow> (\<forall>q\<in>free_set s. \<forall>i<4096. pmem s (q * 4096 + i) = 0)"

definition pmm_inv :: "pmm_state \<Rightarrow> bool" where
  "pmm_inv s \<longleftrightarrow> lists_ok s \<and> blocks_ok s \<and> stats_ok s \<and> zero_ok s"

lemma finite_blk [simp]: "finite (blk p k)" and card_blk [simp]: "card (blk p k) = 2 ^ k"
  by (simp_all add: blk_def)

lemma finite_block_heads [simp]: "finite (block_heads s)"
  by (simp add: block_heads_def)

lemma finite_free_set [simp]: "finite (free_set s)"
  by (simp add: free_set_def)

lemma head_in_blk [simp]: "p \<in> blk p k"
  by (simp add: blk_def)

lemma blk_zone: "block_fits n p k \<Longrightarrow> q \<in> blk p k \<Longrightarrow> pzone q = pzone p"
  using pzone_block [of k p q] by (auto simp: block_fits_def blk_def)

lemma zone_count_union:
  assumes "block_fits n p k" "finite A" "blk p k \<inter> A = {}"
  shows "card {q \<in> A \<union> blk p k. pzone q = z} = card {q \<in> A. pzone q = z} + (if z = pzone p then 2 ^ k else 0)"
proof -
  have zb: "\<forall>q\<in>blk p k. pzone q = pzone p" using blk_zone [OF assms(1)] by blast
  show ?thesis
  proof (cases "z = pzone p")
    case True
    then have "{q \<in> A \<union> blk p k. pzone q = z} = {q \<in> A. pzone q = z} \<union> blk p k" using zb by blast
    moreover have "card ({q \<in> A. pzone q = z} \<union> blk p k) = card {q \<in> A. pzone q = z} + card (blk p k)"
      using assms(2,3) by (intro card_Un_disjoint) auto
    ultimately show ?thesis using True by simp
  next
    case False
    then have "{q \<in> A \<union> blk p k. pzone q = z} = {q \<in> A. pzone q = z}" using zb by blast
    then show ?thesis using False by simp
  qed
qed

section \<open>Taking a block off its list\<close>

lemma list_remove_sel [simp]:
  "pfn_flags (list_remove s p) = pfn_flags s" "pfn_order (list_remove s p) = pfn_order s"
  "pfn_refcount (list_remove s p) = pfn_refcount s" "pfn_count (list_remove s p) = pfn_count s"
  "stats (list_remove s p) = stats s" "mm_zero_page (list_remove s p) = mm_zero_page s"
  "pmem (list_remove s p) = pmem s"
  by (simp_all add: list_remove_def Let_def)

lemma list_remove_links:
  "pfn_next (list_remove s p) =
     (if pfn_prev s p = NO_LINK then pfn_next s else (pfn_next s)(pfn_prev s p := pfn_next s p))(p := NO_LINK)"
  "pfn_prev (list_remove s p) =
     (if pfn_next s p = NO_LINK then pfn_prev s else (pfn_prev s)(pfn_next s p := pfn_prev s p))(p := NO_LINK)"
  "free_list_head (list_remove s p) =
     (if pfn_prev s p = NO_LINK then (free_list_head s)(zone_of (pfn_to_pa p) :=
        (free_list_head s (zone_of (pfn_to_pa p)))(pfn_order s p := pfn_next s p)) else free_list_head s)"
  by (simp_all add: list_remove_def Let_def)

lemma clear_free_sel [simp]:
  "pfn_next (clear_free s p) = pfn_next s" "pfn_prev (clear_free s p) = pfn_prev s"
  "free_list_head (clear_free s p) = free_list_head s" "pfn_order (clear_free s p) = pfn_order s"
  "pfn_refcount (clear_free s p) = pfn_refcount s" "pfn_count (clear_free s p) = pfn_count s"
  "stats (clear_free s p) = stats s" "mm_zero_page (clear_free s p) = mm_zero_page s"
  "pmem (clear_free s p) = pmem s"
  by (simp_all add: clear_free_def)

lemma isfree_clear_free [simp]: "isfree (clear_free s p) q \<longleftrightarrow> q \<noteq> p \<and> isfree s q"
  by (simp add: isfree_def clear_free_def)

lemma stats_lose_sel [simp]:
  "pfn_next (stats_lose s z k) = pfn_next s" "pfn_prev (stats_lose s z k) = pfn_prev s"
  "free_list_head (stats_lose s z k) = free_list_head s" "pfn_order (stats_lose s z k) = pfn_order s"
  "pfn_refcount (stats_lose s z k) = pfn_refcount s" "pfn_count (stats_lose s z k) = pfn_count s"
  "pfn_flags (stats_lose s z k) = pfn_flags s" "mm_zero_page (stats_lose s z k) = mm_zero_page s"
  "pmem (stats_lose s z k) = pmem s"
  "free_pages (stats (stats_lose s z k)) = free_pages (stats s) - 2 ^ k"
  "free_by_order (stats (stats_lose s z k)) = (free_by_order (stats s))(k := free_by_order (stats s) k - 1)"
  "zone_free (stats (stats_lose s z k)) = (zone_free (stats s))(z := zone_free (stats s) z - 2 ^ k)"
  by (simp_all add: stats_lose_def Let_def)

lemma stats_gain_sel [simp]:
  "pfn_next (stats_gain s z k) = pfn_next s" "pfn_prev (stats_gain s z k) = pfn_prev s"
  "free_list_head (stats_gain s z k) = free_list_head s" "pfn_order (stats_gain s z k) = pfn_order s"
  "pfn_refcount (stats_gain s z k) = pfn_refcount s" "pfn_count (stats_gain s z k) = pfn_count s"
  "pfn_flags (stats_gain s z k) = pfn_flags s" "mm_zero_page (stats_gain s z k) = mm_zero_page s"
  "pmem (stats_gain s z k) = pmem s"
  "free_pages (stats (stats_gain s z k)) = free_pages (stats s) + 2 ^ k"
  "free_by_order (stats (stats_gain s z k)) = (free_by_order (stats s))(k := free_by_order (stats s) k + 1)"
  "zone_free (stats (stats_gain s z k)) = (zone_free (stats s))(z := zone_free (stats s) z + 2 ^ k)"
  by (simp_all add: stats_gain_def Let_def)

lemma isfree_sel [simp]:
  "isfree (list_remove s p) = isfree s" "isfree (stats_lose s z k) = isfree s"
  "isfree (stats_gain s z k) = isfree s"
  by (simp_all add: isfree_def fun_eq_iff)

definition take_block :: "pmm_state \<Rightarrow> nat \<Rightarrow> pmm_state" where
  "take_block s p = clear_free (stats_lose (list_remove s p) (pzone p) (pfn_order s p)) p"

lemma take_block_sel [simp]:
  "pfn_order (take_block s p) = pfn_order s" "pfn_refcount (take_block s p) = pfn_refcount s"
  "pfn_count (take_block s p) = pfn_count s" "mm_zero_page (take_block s p) = mm_zero_page s"
  "pmem (take_block s p) = pmem s" "isfree (take_block s p) q \<longleftrightarrow> q \<noteq> p \<and> isfree s q"
  "block_heads (take_block s p) = block_heads s - {p}"
  by (auto simp: take_block_def block_heads_def)

lemma take_block_free_set:
  assumes "blocks_ok s" "p \<in> block_heads s"
  shows "free_set (take_block s p) = free_set s - blk p (pfn_order s p)"
  using assms by (auto simp: free_set_def blocks_ok_def)

lemma lists_remove:
  assumes ok: "lists_ok s" "blocks_ok s" and p: "p \<in> block_heads s"
  shows "lists_ok (take_block s p)"
proof -
  let ?s = "take_block s p" and ?k = "(pzone p, pfn_order s p)"
  have k: "?k \<in> UNIV \<times> {..<11}" "p < 2 ^ 52"
    using p ok by (auto simp: block_heads_def blocks_ok_def block_fits_def)
  have "p \<in> (case ?k of (z, k) \<Rightarrow> heads s z k)" using p by (simp add: heads_def)
  note r = dlls_remove [OF ok(1) [unfolded lists_ok_def] k(1) this]
  have "(\<lambda>(z, k). heads ?s z k) = (\<lambda>(z, k). heads s z k)(?k := (case ?k of (z, k) \<Rightarrow> heads s z k) - {p})"
    by (auto simp: fun_eq_iff heads_def)
  moreover have "(\<lambda>(z, k). free_list_head ?s z k) =
      (if pfn_prev s p = NO_LINK then (\<lambda>(z, k). free_list_head s z k)(?k := pfn_next s p)
       else (\<lambda>(z, k). free_list_head s z k))"
    using k(2) by (auto simp: fun_eq_iff take_block_def list_remove_links)
  moreover have "pfn_next ?s =
      (if pfn_prev s p = NO_LINK then pfn_next s else (pfn_next s)(pfn_prev s p := pfn_next s p))(p := NO_LINK)"
    "pfn_prev ?s =
      (if pfn_next s p = NO_LINK then pfn_prev s else (pfn_prev s)(pfn_next s p := pfn_prev s p))(p := NO_LINK)"
    by (simp_all only: take_block_def clear_free_sel stats_lose_sel list_remove_links)
  ultimately show ?thesis using r unfolding lists_ok_def by (simp only:)
qed

lemma block_fits_less: "block_fits n p k \<Longrightarrow> p < n"
proof -
  assume "block_fits n p k"
  moreover have "0 < (2 :: nat) ^ k" by simp
  ultimately show "p < n" unfolding block_fits_def by linarith
qed

lemma blk_in_free_set: "p \<in> block_heads s \<Longrightarrow> blk p (pfn_order s p) \<subseteq> free_set s"
  by (auto simp: free_set_def)

lemma take_block_inv:
  assumes inv: "pmm_inv s" and p: "p \<in> block_heads s"
  shows "pmm_inv (take_block s p)"
proof -
  let ?s = "take_block s p" and ?k = "pfn_order s p"
  have ok: "lists_ok s" "blocks_ok s" "stats_ok s" "zero_ok s" using inv by (simp_all add: pmm_inv_def)
  have fits: "block_fits (pfn_count s) p ?k" using ok(2) p by (simp add: blocks_ok_def)
  have fs: "free_set ?s = free_set s - blk p ?k" using take_block_free_set [OF ok(2) p] .
  then have un: "free_set s = free_set ?s \<union> blk p ?k" "blk p ?k \<inter> free_set ?s = {}"
    using blk_in_free_set [OF p] by auto
  have c1: "card (free_set s) = card (free_set ?s) + 2 ^ ?k"
    using un by (simp add: card_Un_disjoint Int_commute)
  have c2: "card {q \<in> free_set s. pzone q = z} =
      card {q \<in> free_set ?s. pzone q = z} + (if z = pzone p then 2 ^ ?k else 0)" for z
    using zone_count_union [OF fits _ un(2)] un(1) by simp
  have "{q \<in> block_heads s. pfn_order s q = ?k} = insert p {q \<in> block_heads ?s. pfn_order s q = ?k}"
    using p by auto
  then have c3: "card {q \<in> block_heads s. pfn_order s q = ?k} = card {q \<in> block_heads ?s. pfn_order s q = ?k} + 1"
    by (simp add: card_insert_if)
  have c4: "{q \<in> block_heads s. pfn_order s q = k} = {q \<in> block_heads ?s. pfn_order s q = k}" if "k \<noteq> ?k" for k
    using that by auto
  have st: "free_pages (stats ?s) = free_pages (stats s) - 2 ^ ?k"
    "free_by_order (stats ?s) = (free_by_order (stats s))(?k := free_by_order (stats s) ?k - 1)"
    "zone_free (stats ?s) = (zone_free (stats s))(pzone p := zone_free (stats s) (pzone p) - 2 ^ ?k)"
    by (simp_all add: take_block_def)
  have "stats_ok ?s"
    using ok(3) c1 c2 c3 c4 unfolding stats_ok_def st by simp
  moreover have "blocks_ok ?s" using ok(2) by (simp add: blocks_ok_def)
  moreover have "zero_ok ?s" using ok(4) fs by (simp add: zero_ok_def)
  ultimately show ?thesis using lists_remove [OF ok(1,2) p] by (simp add: pmm_inv_def)
qed

section \<open>Putting a block on its list\<close>

lemma list_push_sel [simp]:
  "pfn_order (list_push s z k p) = (pfn_order s)(p := k)"
  "pfn_refcount (list_push s z k p) = pfn_refcount s" "pfn_count (list_push s z k p) = pfn_count s"
  "stats (list_push s z k p) = stats s" "mm_zero_page (list_push s z k p) = mm_zero_page s"
  "pmem (list_push s z k p) = pmem s"
  "isfree (list_push s z k p) q \<longleftrightarrow> q = p \<or> isfree s q"
  by (simp_all add: list_push_def Let_def isfree_def)

lemma list_push_links:
  "pfn_next (list_push s z k p) = (pfn_next s)(p := free_list_head s z k)"
  "pfn_prev (list_push s z k p) =
     (if free_list_head s z k = NO_LINK then (pfn_prev s)(p := NO_LINK)
      else (pfn_prev s)(p := NO_LINK, free_list_head s z k := p))"
  "free_list_head (list_push s z k p) = (free_list_head s)(z := (free_list_head s z)(k := p))"
  by (simp_all add: list_push_def Let_def)

definition give_block :: "pmm_state \<Rightarrow> nat \<Rightarrow> nat \<Rightarrow> pmm_state" where
  "give_block s p k = stats_gain (list_push s (pzone p) k p) (pzone p) k"

lemma give_block_sel [simp]:
  "pfn_order (give_block s p k) = (pfn_order s)(p := k)"
  "pfn_refcount (give_block s p k) = pfn_refcount s" "pfn_count (give_block s p k) = pfn_count s"
  "mm_zero_page (give_block s p k) = mm_zero_page s" "pmem (give_block s p k) = pmem s"
  "isfree (give_block s p k) q \<longleftrightarrow> q = p \<or> isfree s q"
  "p < pfn_count s \<Longrightarrow> block_heads (give_block s p k) = insert p (block_heads s)"
  by (auto simp: give_block_def block_heads_def)

lemma not_head: "blk p k \<inter> free_set s = {} \<Longrightarrow> p \<notin> block_heads s"
  using blk_in_free_set [of p s] head_in_blk by blast

lemma give_block_free_set:
  assumes "p < pfn_count s" "p \<notin> block_heads s"
  shows "free_set (give_block s p k) = free_set s \<union> blk p k"
proof -
  have "(\<Union>q\<in>block_heads s. blk q (((pfn_order s)(p := k)) q)) = free_set s"
    unfolding free_set_def using assms(2) by (intro SUP_cong) auto
  then show ?thesis using assms by (simp add: free_set_def Un_commute)
qed

lemma lists_push:
  assumes ok: "lists_ok s" and p: "block_fits (pfn_count s) p k" "pfn_count s \<le> 2 ^ 52" "p \<notin> block_heads s"
  shows "lists_ok (give_block s p k)"
proof -
  let ?s = "give_block s p k" and ?k = "(pzone p, k)"
  have pn: "p < pfn_count s" "p \<noteq> NO_LINK"
    using block_fits_less [OF p(1)] p(2) by (auto simp: NO_LINK_def)
  have k: "?k \<in> UNIV \<times> {..<11}" using p(1) by (simp add: block_fits_def)
  have "\<forall>j\<in>UNIV \<times> {..<11}. p \<notin> (case j of (z, k) \<Rightarrow> heads s z k)"
    using p(3) by (auto simp: heads_def)
  note r = dlls_push [OF ok [unfolded lists_ok_def] k pn(2) this]
  have "(\<lambda>(z, k). heads ?s z k) = (\<lambda>(z, k). heads s z k)(?k := insert p (case ?k of (z, k) \<Rightarrow> heads s z k))"
    using pn p(3) by (auto simp: fun_eq_iff heads_def)
  moreover have "(\<lambda>(z, k). free_list_head ?s z k) = (\<lambda>(z, k). free_list_head s z k)(?k := p)"
    by (auto simp: fun_eq_iff give_block_def list_push_links)
  moreover have "pfn_next ?s = (pfn_next s)(p := (case ?k of (z, k) \<Rightarrow> free_list_head s z k))"
    "pfn_prev ?s = (if (case ?k of (z, k) \<Rightarrow> free_list_head s z k) = NO_LINK then (pfn_prev s)(p := NO_LINK)
      else (pfn_prev s)(p := NO_LINK, (case ?k of (z, k) \<Rightarrow> free_list_head s z k) := p))"
    by (simp_all add: give_block_def list_push_links)
  ultimately show ?thesis using r unfolding lists_ok_def by (simp only:)
qed

lemma give_block_inv:
  assumes inv: "pmm_inv s" and fits: "block_fits (pfn_count s) p k"
    and dis: "blk p k \<inter> free_set s = {}" and z: "\<forall>q\<in>blk p k. \<forall>i<4096. pmem s (q * 4096 + i) = 0"
  shows "pmm_inv (give_block s p k)"
proof -
  let ?s = "give_block s p k"
  have ok: "lists_ok s" "blocks_ok s" "stats_ok s" "zero_ok s" using inv by (simp_all add: pmm_inv_def)
  have pn: "p < pfn_count s" using block_fits_less [OF fits] .
  have nh: "p \<notin> block_heads s" using not_head [OF dis] .
  have fs: "free_set ?s = free_set s \<union> blk p k" using give_block_free_set [OF pn nh] .
  have c1: "card (free_set ?s) = card (free_set s) + 2 ^ k"
    using fs dis by (simp add: card_Un_disjoint Int_commute)
  have c2: "card {q \<in> free_set ?s. pzone q = z} =
      card {q \<in> free_set s. pzone q = z} + (if z = pzone p then 2 ^ k else 0)" for z
    using zone_count_union [OF fits _ dis] fs by simp
  have "{q \<in> block_heads ?s. pfn_order ?s q = j} =
      (if j = k then insert p {q \<in> block_heads s. pfn_order s q = j} else {q \<in> block_heads s. pfn_order s q = j})" for j
    using nh pn by auto
  then have c3: "card {q \<in> block_heads ?s. pfn_order ?s q = j} =
      card {q \<in> block_heads s. pfn_order s q = j} + (if j = k then 1 else 0)" for j
    using nh by simp
  have st: "free_pages (stats ?s) = free_pages (stats s) + 2 ^ k"
    "free_by_order (stats ?s) = (free_by_order (stats s))(k := free_by_order (stats s) k + 1)"
    "zone_free (stats ?s) = (zone_free (stats s))(pzone p := zone_free (stats s) (pzone p) + 2 ^ k)"
    by (simp_all add: give_block_def)
  have "stats_ok ?s"
    using ok(3) unfolding stats_ok_def st c1 c2 c3 by simp
  moreover have "blocks_ok ?s"
  proof -
    have "blk q (pfn_order s q) \<inter> blk p k = {}" if "q \<in> block_heads s" for q
      using dis blk_in_free_set [OF that] by auto
    then show ?thesis using ok(2) fits pn nh unfolding blocks_ok_def by (auto simp: Int_commute)
  qed
  moreover have "zero_ok ?s" using ok(4) z fs by (auto simp: zero_ok_def)
  moreover have "lists_ok ?s" using lists_push [OF ok(1) fits _ nh] ok(2) by (simp add: blocks_ok_def)
  ultimately show ?thesis by (simp add: pmm_inv_def)
qed

end
