(* ===== verification/Pmm_Ops.thy ===== *)
theory Pmm_Ops
  imports Pmm_Inv
begin

text \<open>
  Allocation, release and the reference counts of \<^verbatim>\<open>kernel/mm/pmm.c\<close> as operations on the
  set of free pages, over the invariant of the preceding theory.
\<close>

section \<open>Merged buddies\<close>

text \<open>
  A block can be merged if its buddy is a free block of the same order. The lists are coalesced if
  no free block can be merged. The invariant does not ask for it, because the boot code does not
  merge blocks of adjacent spans of the memory map; every other operation keeps it.
\<close>

definition mergeable :: "pmm_state \<Rightarrow> nat \<Rightarrow> nat \<Rightarrow> bool" where
  "mergeable s p k \<longleftrightarrow> Suc k < 11 \<and> buddy_pfn p k \<in> block_heads s \<and> pfn_order s (buddy_pfn p k) = k"

definition coalesced :: "pmm_state \<Rightarrow> bool" where
  "coalesced s \<longleftrightarrow> (\<forall>p\<in>block_heads s. \<not> mergeable s p (pfn_order s p))"

text \<open>The pages are in one free block, and that block cannot be merged.\<close>

definition merged_at :: "pmm_state \<Rightarrow> nat \<Rightarrow> nat \<Rightarrow> bool" where
  "merged_at s p k \<longleftrightarrow>
     (\<exists>b\<in>block_heads s. blk p k \<subseteq> blk b (pfn_order s b) \<and> \<not> mergeable s b (pfn_order s b))"

lemma buddy_buddy [simp]: "buddy_pfn (buddy_pfn p k) k = p"
  by (simp add: buddy_pfn_def xor.assoc)

lemma buddy_neq [simp]: "buddy_pfn p k \<noteq> p"
proof
  assume "buddy_pfn p k = p"
  then have "p XOR buddy_pfn p k = 0" by simp
  then show False by (simp add: buddy_pfn_def xor.assoc [symmetric])
qed

text \<open>A block and its buddy are the two halves of the block of the next order.\<close>

lemma buddy_halves:
  assumes "2 ^ k dvd p"
  shows "buddy_pfn p k = p + 2 ^ k \<and> 2 ^ Suc k dvd p \<or>
    p = buddy_pfn p k + 2 ^ k \<and> 2 ^ Suc k dvd buddy_pfn p k"
proof -
  obtain m where m: "p = 2 ^ k * m" using assms by (auto elim: dvdE)
  have "buddy_pfn p k = push_bit k m XOR push_bit k 1"
    by (simp add: buddy_pfn_def m push_bit_eq_mult mult.commute)
  also have "\<dots> = push_bit k (m XOR 1)" by (simp only: push_bit_xor)
  finally have b: "buddy_pfn p k = 2 ^ k * (m XOR 1)" by (simp add: push_bit_eq_mult mult.commute)
  show ?thesis
  proof (cases "even m")
    case True
    then obtain n where n: "m = 2 * n" by (auto elim: evenE)
    have "m XOR 1 = m + 1" using True nat_xor_one by simp
    then show ?thesis using b m n by simp
  next
    case False
    then obtain n where n: "m = 2 * n + 1" by (auto elim: oddE)
    have "m XOR 1 = 2 * n" using False nat_xor_one n by simp
    then show ?thesis using b m n by simp
  qed
qed

lemma buddy_upper: "2 ^ Suc k dvd p \<Longrightarrow> buddy_pfn (p + 2 ^ k) k = p"
proof -
  assume d: "2 ^ Suc k dvd p"
  then have "2 ^ k dvd p" "\<not> 2 ^ Suc k dvd p + 2 ^ k"
    by (auto intro: power_le_dvd [of 2 "Suc k"] simp: dvd_add_right_iff)
  then show ?thesis using buddy_halves [of k "p + 2 ^ k"] by auto
qed

lemma coalesced_subset:
  assumes "coalesced s" "block_heads s' \<subseteq> block_heads s" "pfn_order s' = pfn_order s"
  shows "coalesced s'"
  using assms by (auto simp: coalesced_def mergeable_def)

lemma coalesced_give:
  assumes "coalesced s" "p < pfn_count s" "p \<notin> block_heads s" "\<not> mergeable s p k"
  shows "coalesced (give_block s p k)"
  unfolding coalesced_def
proof
  fix q assume "q \<in> block_heads (give_block s p k)"
  then consider "q = p" | "q \<noteq> p" "q \<in> block_heads s" using assms(2) by auto
  then show "\<not> mergeable (give_block s p k) q (pfn_order (give_block s p k) q)"
  proof cases
    case 1
    then show ?thesis using assms by (simp add: mergeable_def)
  next
    case 2
    then have "\<not> mergeable s q (pfn_order s q)" using assms(1) by (simp add: coalesced_def)
    moreover have "pfn_order s q \<noteq> k" if "buddy_pfn q (pfn_order s q) = p" "Suc k < 11"
    proof
      assume "pfn_order s q = k"
      then have "buddy_pfn p k = q" using that by (metis buddy_buddy)
      then show False using assms(4) that(2) 2 \<open>pfn_order s q = k\<close> by (simp add: mergeable_def)
    qed
    ultimately show ?thesis using assms(2) 2 by (auto simp: mergeable_def)
  qed
qed

section \<open>Allocation\<close>

text \<open>What an operation on the free lists leaves alone.\<close>

definition pmm_frame :: "pmm_state \<Rightarrow> pmm_state \<Rightarrow> bool" where
  "pmm_frame s s' \<longleftrightarrow> pfn_refcount s' = pfn_refcount s \<and> pfn_count s' = pfn_count s \<and>
     mm_zero_page s' = mm_zero_page s \<and> pmem s' = pmem s"

lemma pmm_frame_refl [simp]: "pmm_frame s s"
  by (simp add: pmm_frame_def)

lemma pmm_frame_trans: "pmm_frame s s' \<Longrightarrow> pmm_frame s' s'' \<Longrightarrow> pmm_frame s s''"
  by (simp add: pmm_frame_def)

lemma frame_take_give [simp]: "pmm_frame s (take_block s p)" "pmm_frame s (give_block s p k)"
  by (simp_all add: pmm_frame_def)

definition zero_blk :: "pmm_state \<Rightarrow> nat \<Rightarrow> nat \<Rightarrow> bool" where
  "zero_blk s p k \<longleftrightarrow> (\<forall>q\<in>blk p k. \<forall>i<4096. pmem s (q * 4096 + i) = 0)"

lemma blk_split: "blk p (Suc k) = blk p k \<union> blk (p + 2 ^ k) k" "blk p k \<inter> blk (p + 2 ^ k) k = {}"
  by (auto simp: blk_def)

lemma block_fits_halves:
  assumes "block_fits n p (Suc k)"
  shows "block_fits n p k" "block_fits n (p + 2 ^ k) k" "pzone (p + 2 ^ k) = pzone p"
proof -
  have d: "2 ^ k dvd p" using assms power_le_dvd [of 2 "Suc k" p k] by (simp add: block_fits_def)
  show "block_fits n p k" "block_fits n (p + 2 ^ k) k"
    using assms d by (auto simp: block_fits_def)
  show "pzone (p + 2 ^ k) = pzone p"
    by (rule blk_zone [OF assms]) (simp add: blk_def)
qed

lemma split_down_inv:
  assumes "pmm_inv s" "block_fits (pfn_count s) p k" "blk p k \<inter> free_set s = {}" "zero_blk s p k" "j \<le> k"
  shows "pmm_inv (split_down s (pzone p) p j k) \<and>
    free_set (split_down s (pzone p) p j k) = free_set s \<union> (blk p k - blk p j) \<and>
    pmm_frame s (split_down s (pzone p) p j k)"
  using assms
proof (induction k arbitrary: s)
  case 0
  then show ?case by simp
next
  case (Suc k)
  show ?case
  proof (cases "j = Suc k")
    case True
    then show ?thesis using Suc.prems by simp
  next
    case False
    let ?b = "p + 2 ^ k"
    let ?s = "give_block s ?b k"
    note h = block_fits_halves [OF Suc.prems(2)]
    have dis: "blk ?b k \<inter> free_set s = {}" and z: "zero_blk s p k" "zero_blk s ?b k"
      using Suc.prems(3,4) by (auto simp: blk_split zero_blk_def)
    have inv: "pmm_inv ?s"
      using give_block_inv [OF Suc.prems(1) h(2) dis] z by (simp add: zero_blk_def)
    have fs: "free_set ?s = free_set s \<union> blk ?b k"
      by (rule give_block_free_set [OF block_fits_less [OF h(2)] not_head [OF dis]])
    have "blk p k \<inter> free_set ?s = {}" using Suc.prems(3) fs blk_split [of p k] by blast
    moreover have "zero_blk ?s p k" using z by (simp add: zero_blk_def)
    ultimately have ih: "pmm_inv (split_down ?s (pzone p) p j k)"
      "free_set (split_down ?s (pzone p) p j k) = free_set ?s \<union> (blk p k - blk p j)"
      "pmm_frame ?s (split_down ?s (pzone p) p j k)"
      using Suc.IH [of ?s] inv h(1) False Suc.prems(5) by auto
    have "blk p j \<subseteq> blk p k"
      using False Suc.prems(5) by (auto simp: blk_def intro: order.strict_trans2 [OF _ add_left_mono])
    then have "blk p (Suc k) - blk p j = blk ?b k \<union> (blk p k - blk p j)"
      using blk_split [of p k] by blast
    moreover have "split_down s (pzone p) p j (Suc k) = split_down ?s (pzone p) p j k"
      using False Suc.prems(5) h(3) by (simp add: give_block_def)
    ultimately show ?thesis
      using ih fs pmm_frame_trans [OF frame_take_give(2) ih(3)] by auto
  qed
qed

lemma lists_ok_head:
  assumes "lists_ok s" "k < 11"
  shows "free_list_head s z k = NO_LINK \<longleftrightarrow> heads s z k = {}"
    "free_list_head s z k \<noteq> NO_LINK \<Longrightarrow> free_list_head s z k \<in> heads s z k"
  using dlls_head [OF assms(1) [unfolded lists_ok_def], of "(z, k)"] assms(2) by auto

lemma find_order_correct:
  assumes "lists_ok s" "k \<le> 11"
  shows "k \<le> find_order s z k \<and> find_order s z k \<le> 11 \<and>
    (\<forall>j. k \<le> j \<and> j < find_order s z k \<longrightarrow> heads s z j = {}) \<and>
    (find_order s z k < 11 \<longrightarrow> free_list_head s z (find_order s z k) \<noteq> NO_LINK)"
  using assms
proof (induction s z k rule: find_order.induct)
  case (1 s z k)
  show ?case
  proof (cases "k < 11 \<and> free_list_head s z k = NO_LINK")
    case True
    then have eq: "find_order s z k = find_order s z (k + 1)"
      by (subst find_order.simps) (simp add: PMM_MAX_ORDER_def)
    have "heads s z k = {}" using True lists_ok_head [OF 1(2)] by blast
    moreover have "j = k \<or> k + 1 \<le> j" if "k \<le> j" for j using that by auto
    ultimately show ?thesis
      unfolding eq using 1 True by (auto simp: PMM_MAX_ORDER_def)
  next
    case False
    then have eq: "find_order s z k = k"
      by (subst find_order.simps) (auto simp: PMM_MAX_ORDER_def)
    show ?thesis unfolding eq using False 1 by auto
  qed
qed

lemma stats_lose_clear_free: "stats_lose (clear_free s p) z k = clear_free (stats_lose s z k) p"
  by (simp add: stats_lose_def clear_free_def Let_def)

text \<open>The final stores of an allocation, on a page that heads no free block.\<close>

definition retag :: "pmm_state \<Rightarrow> nat \<Rightarrow> nat \<Rightarrow> pmm_state" where
  "retag s p k = (clear_free s p)\<lparr>pfn_order := (pfn_order (clear_free s p))(p := k)\<rparr>"

lemma retag_inv:
  assumes inv: "pmm_inv s" and nh: "p \<notin> block_heads s"
  shows "pmm_inv (retag s p k)" "free_set (retag s p k) = free_set s"
proof -
  let ?s = "retag s p k"
  have ne: "q \<noteq> p" if "q \<in> block_heads s" for q using nh that by auto
  have bh: "block_heads ?s = block_heads s"
    using nh by (auto simp: block_heads_def isfree_def clear_free_def retag_def)
  have ord: "pfn_order ?s = (pfn_order s)(p := k)" by (simp add: retag_def)
  have hd: "heads ?s z j = heads s z j" for z j
    unfolding heads_def bh ord using ne by (intro Collect_cong conj_cong refl) auto
  have bo: "{q \<in> block_heads ?s. pfn_order ?s q = i} = {q \<in> block_heads s. pfn_order s q = i}" for i
    unfolding bh ord using ne by (intro Collect_cong conj_cong refl) auto
  show fs: "free_set ?s = free_set s"
    unfolding free_set_def bh ord using ne by (intro SUP_cong) auto
  have sel: "pfn_next ?s = pfn_next s" "pfn_prev ?s = pfn_prev s" "free_list_head ?s = free_list_head s"
    "pfn_count ?s = pfn_count s" "stats ?s = stats s" "pmem ?s = pmem s" by (simp_all add: retag_def)
  have "lists_ok ?s" using inv unfolding pmm_inv_def lists_ok_def hd sel by simp
  moreover have "blocks_ok ?s"
    using inv ne unfolding pmm_inv_def blocks_ok_def bh ord sel by simp
  moreover have "stats_ok ?s" using inv unfolding pmm_inv_def stats_ok_def fs bo sel by blast
  moreover have "zero_ok ?s" using inv unfolding pmm_inv_def zero_ok_def fs sel by blast
  ultimately show "pmm_inv ?s" by (simp add: pmm_inv_def)
qed

lemma pmm_take_correct:
  assumes inv: "pmm_inv s" and k: "k < 11" "free_list_head s z k \<noteq> NO_LINK" "j \<le> k"
  shows "\<exists>p s'. pmm_take s z j k = (pfn_to_pa p, s') \<and> pmm_inv s' \<and> block_fits (pfn_count s) p j \<and>
    pzone p = z \<and> blk p j \<subseteq> free_set s \<and> free_set s' = free_set s - blk p j \<and> zero_blk s p j \<and> pmm_frame s s'"
proof -
  let ?p = "free_list_head s z k"
  have ok: "lists_ok s" "blocks_ok s" "zero_ok s" using inv by (simp_all add: pmm_inv_def)
  have p: "?p \<in> block_heads s" "pfn_order s ?p = k" "pzone ?p = z"
    using lists_ok_head(2) [OF ok(1) k(1,2)] by (simp_all add: heads_def)
  let ?s1 = "take_block s ?p"
  have inv1: "pmm_inv ?s1" by (rule take_block_inv [OF inv p(1)])
  have fs1: "free_set ?s1 = free_set s - blk ?p k"
    using take_block_free_set [OF ok(2) p(1)] p(2) by simp
  have sub: "blk ?p k \<subseteq> free_set s" using blk_in_free_set [OF p(1)] p(2) by simp
  have fits: "block_fits (pfn_count s) ?p k" using ok(2) p by (auto simp: blocks_ok_def)
  have z: "zero_blk s ?p k" using ok(3) sub by (auto simp: zero_ok_def zero_blk_def)
  let ?s2 = "split_down ?s1 z ?p j k"
  have s2: "pmm_inv ?s2" "free_set ?s2 = free_set ?s1 \<union> (blk ?p k - blk ?p j)" "pmm_frame ?s1 ?s2"
    using split_down_inv [OF inv1, of ?p k j] fits fs1 z k(3) p(3) by (auto simp: zero_blk_def)
  have jk: "blk ?p j \<subseteq> blk ?p k"
    using k(3) by (auto simp: blk_def intro: order.strict_trans2 [OF _ add_left_mono])
  then have fs2: "free_set ?s2 = free_set s - blk ?p j" using s2(2) fs1 sub by auto
  have nh: "?p \<notin> block_heads ?s2" using fs2 not_head [of ?p j ?s2] by auto
  let ?s3 = "retag ?s2 ?p j"
  note s3 = retag_inv [OF s2(1) nh]
  have "pmm_take s z j k = (pfn_to_pa ?p, ?s3)"
    using k(2) p by (simp add: pmm_take_def list_pop_def Let_def take_block_def stats_lose_clear_free retag_def)
  moreover have "pmm_frame s ?s3"
    using s2(3) by (simp add: pmm_frame_def retag_def)
  moreover have "block_fits (pfn_count s) ?p j"
    using fits k(3) power_le_dvd [of 2 k ?p j] unfolding block_fits_def
    by (meson add_left_mono le_trans less_le_trans order_le_less_trans power_increasing one_le_numeral)
  moreover have "zero_blk s ?p j" using z jk by (auto simp: zero_blk_def)
  ultimately show ?thesis using s3 fs2 p(3) jk sub by (intro exI conjI) auto
qed

text \<open>Splitting makes no block that can be merged: the buddy of each upper half is being split.\<close>

lemma split_down_coalesced:
  assumes "coalesced s" "block_fits (pfn_count s) p k" "blk p k \<inter> free_set s = {}"
  shows "coalesced (split_down s (pzone p) p j k)"
  using assms
proof (induction k arbitrary: s)
  case (Suc k)
  let ?b = "p + 2 ^ k"
  let ?s = "give_block s ?b k"
  note h = block_fits_halves [OF Suc.prems(2)]
  have dis: "blk ?b k \<inter> free_set s = {}" "blk p k \<inter> free_set s = {}" using Suc.prems(3) by (auto simp: blk_split)
  have "buddy_pfn ?b k = p" using Suc.prems(2) by (intro buddy_upper) (simp add: block_fits_def)
  then have "\<not> mergeable s ?b k" using not_head [OF dis(2)] by (simp add: mergeable_def)
  then have "coalesced ?s" using Suc.prems(1) block_fits_less [OF h(2)] not_head [OF dis(1)] by (intro coalesced_give)
  moreover have "free_set ?s = free_set s \<union> blk ?b k"
    by (rule give_block_free_set [OF block_fits_less [OF h(2)] not_head [OF dis(1)]])
  then have "blk p k \<inter> free_set ?s = {}" using dis(2) blk_split(2) [of p k] by blast
  ultimately have "coalesced (split_down ?s (pzone p) p j k)" using Suc.IH [of ?s] h(1) by simp
  then show ?case using h(3) Suc.prems(1) by (simp add: give_block_def)
qed simp

lemma pmm_take_coalesced:
  assumes inv: "pmm_inv s" and k: "k < 11" "free_list_head s z k \<noteq> NO_LINK" and c: "coalesced s"
  shows "coalesced (snd (pmm_take s z j k))"
proof -
  let ?p = "free_list_head s z k"
  let ?s1 = "take_block s ?p"
  let ?s2 = "split_down ?s1 z ?p j k"
  have ok: "lists_ok s" "blocks_ok s" using inv by (simp_all add: pmm_inv_def)
  have p: "?p \<in> block_heads s" "pfn_order s ?p = k" "pzone ?p = z"
    using lists_ok_head(2) [OF ok(1) k] by (simp_all add: heads_def)
  have fits: "block_fits (pfn_count s) ?p k" using ok(2) p by (auto simp: blocks_ok_def)
  have "coalesced ?s1" by (rule coalesced_subset [OF c]) auto
  moreover have "blk ?p k \<inter> free_set ?s1 = {}" using take_block_free_set [OF ok(2) p(1)] p(2) by auto
  ultimately have "coalesced ?s2" using split_down_coalesced [of ?s1 ?p k j] fits p(3) by simp
  then have "coalesced (retag ?s2 ?p j)"
    unfolding coalesced_def mergeable_def
    by (auto simp: retag_def block_heads_def isfree_def clear_free_def)
  moreover have "snd (pmm_take s z j k) = retag ?s2 ?p j"
    using k(2) p by (simp add: pmm_take_def list_pop_def Let_def take_block_def stats_lose_clear_free retag_def)
  ultimately show ?thesis by simp
qed

lemma pmm_alloc_coalesced:
  assumes inv: "pmm_inv s" and k: "k < 11" and c: "coalesced s"
  shows "coalesced (snd (pmm_alloc_pages s (int k)))"
proof -
  have ok: "lists_ok s" using inv by (simp add: pmm_inv_def)
  have "coalesced (snd (pmm_take s z k (find_order s z k)))" if "find_order s z k < 11" for z
    using pmm_take_coalesced [OF inv that _ c] find_order_correct [OF ok, of k z] that k by simp
  then show ?thesis using c by (simp add: pmm_alloc_pages_def pmm_alloc_pages_locked_def PMM_MAX_ORDER_def Let_def)
qed

text \<open>The outcomes of a request for a block of order \<open>k\<close> in the zones \<open>Z\<close>.\<close>

definition alloc_result :: "pmm_state \<Rightarrow> pmm_zone set \<Rightarrow> nat \<Rightarrow> paddr_t \<Rightarrow> pmm_state \<Rightarrow> bool" where
  "alloc_result s Z k pa s' \<longleftrightarrow>
     pa = 0 \<and> s' = s \<and> (\<forall>z\<in>Z. \<forall>j. k \<le> j \<and> j < 11 \<longrightarrow> heads s z j = {}) \<or>
     pa \<noteq> 0 \<and> pfn_to_pa (pa_to_pfn pa) = pa \<and> pzone (pa_to_pfn pa) \<in> Z \<and>
       block_fits (pfn_count s) (pa_to_pfn pa) k \<and> blk (pa_to_pfn pa) k \<subseteq> free_set s \<and>
       free_set s' = free_set s - blk (pa_to_pfn pa) k \<and> zero_blk s (pa_to_pfn pa) k \<and>
       pmm_inv s' \<and> pmm_frame s s'"

lemma pmm_take_result:
  assumes "pmm_inv s" "k < 11" "free_list_head s z k \<noteq> NO_LINK" "j \<le> k" "z \<in> Z"
  shows "alloc_result s Z j (fst (pmm_take s z j k)) (snd (pmm_take s z j k))"
proof -
  obtain p s' where p: "pmm_take s z j k = (pfn_to_pa p, s')" "pmm_inv s'" "block_fits (pfn_count s) p j"
    "pzone p = z" "blk p j \<subseteq> free_set s" "free_set s' = free_set s - blk p j" "zero_blk s p j" "pmm_frame s s'"
    using pmm_take_correct [OF assms(1-4)] by blast
  have "p < 2 ^ 52" "p \<noteq> 0"
    using block_fits_less [OF p(3)] assms(1) p(3) by (auto simp: pmm_inv_def blocks_ok_def block_fits_def)
  then show ?thesis using p assms(5) by (simp add: alloc_result_def pfn_to_pa_eq_0)
qed

lemma pmm_alloc_result:
  assumes inv: "pmm_inv s" and k: "k < 11"
  shows "alloc_result s UNIV k (fst (pmm_alloc_pages s (int k))) (snd (pmm_alloc_pages s (int k)))"
proof -
  have ok: "lists_ok s" using inv by (simp add: pmm_inv_def)
  note f = find_order_correct [OF ok, of k]
  have guard: "\<not> (int k < 0 \<or> int PMM_MAX_ORDER \<le> int k)" using k by (simp add: PMM_MAX_ORDER_def)
  let ?n = "find_order s PMM_ZONE_NORMAL k" and ?d = "find_order s PMM_ZONE_DMA k"
  consider (n) "?n < 11" | (d) "\<not> ?n < 11" "?d < 11" | (none) "\<not> ?n < 11" "\<not> ?d < 11" by blast
  then show ?thesis
  proof cases
    case n
    then have "pmm_alloc_pages s (int k) = pmm_take s PMM_ZONE_NORMAL k ?n"
      using guard by (simp add: pmm_alloc_pages_def pmm_alloc_pages_locked_def PMM_MAX_ORDER_def)
    then show ?thesis using pmm_take_result [OF inv n] f k n by simp
  next
    case d
    then have "pmm_alloc_pages s (int k) = pmm_take s PMM_ZONE_DMA k ?d"
      using guard by (simp add: pmm_alloc_pages_def pmm_alloc_pages_locked_def PMM_MAX_ORDER_def)
    then show ?thesis using pmm_take_result [OF inv d(2)] f k d by simp
  next
    case none
    have "heads s z j = {}" if "k \<le> j" "j < 11" for z j
      using f [of z] that none k by (cases z) auto
    moreover have "pmm_alloc_pages s (int k) = (0, s)"
      using none guard by (simp add: pmm_alloc_pages_def pmm_alloc_pages_locked_def PMM_MAX_ORDER_def)
    ultimately show ?thesis by (simp add: alloc_result_def)
  qed
qed

lemma pmm_alloc_dma_result:
  assumes inv: "pmm_inv s" and k: "k < 11"
  shows "\<exists>pa s'. pmm_alloc_dma s (int k) = Some (pa, s') \<and> alloc_result s {PMM_ZONE_DMA} k pa s'"
proof -
  have ok: "lists_ok s" using inv by (simp add: pmm_inv_def)
  note f = find_order_correct [OF ok, of k PMM_ZONE_DMA]
  let ?d = "find_order s PMM_ZONE_DMA k"
  show ?thesis
  proof (cases "?d < 11")
    case True
    then show ?thesis
      using pmm_take_result [OF inv True] f k
      by (intro exI [of _ "fst (pmm_take s PMM_ZONE_DMA k ?d)"] exI [of _ "snd (pmm_take s PMM_ZONE_DMA k ?d)"])
        (simp add: pmm_alloc_dma_def PMM_MAX_ORDER_def)
  next
    case False
    then show ?thesis using f k by (auto simp: pmm_alloc_dma_def PMM_MAX_ORDER_def alloc_result_def)
  qed
qed

section \<open>Release\<close>

lemma block_fits_join:
  assumes p: "block_fits n p k" and b: "block_fits n (buddy_pfn p k) k" and k: "Suc k < 11"
  shows "block_fits n (min p (buddy_pfn p k)) (Suc k)"
    "blk (min p (buddy_pfn p k)) (Suc k) = blk p k \<union> blk (buddy_pfn p k) k"
    "pzone (min p (buddy_pfn p k)) = pzone p"
proof -
  have "2 ^ k dvd p" using p by (simp add: block_fits_def)
  from buddy_halves [OF this] show "block_fits n (min p (buddy_pfn p k)) (Suc k)"
    "blk (min p (buddy_pfn p k)) (Suc k) = blk p k \<union> blk (buddy_pfn p k) k"
    using p b k blk_split(1) [of p k] blk_split(1) [of "buddy_pfn p k" k]
    by (auto simp: block_fits_def min_def)
  then show "pzone (min p (buddy_pfn p k)) = pzone p"
    using blk_zone [of n "min p (buddy_pfn p k)" "Suc k" p] by auto
qed

lemma coalesce_inv:
  assumes "pmm_inv s" "block_fits (pfn_count s) p k" "blk p k \<inter> free_set s = {}" "zero_blk s p k"
  shows "\<exists>s' p' k'. coalesce s (pzone p) p k = (s', p', k') \<and> pmm_inv s' \<and> block_fits (pfn_count s') p' k' \<and>
    blk p' k' \<inter> free_set s' = {} \<and> zero_blk s' p' k' \<and> pzone p' = pzone p \<and>
    free_set s' \<union> blk p' k' = free_set s \<union> blk p k \<and> pmm_frame s s' \<and>
    blk p k \<subseteq> blk p' k' \<and> \<not> mergeable s' p' k' \<and> block_heads s' \<subseteq> block_heads s \<and> pfn_order s' = pfn_order s"
  using assms
proof (induction "11 - k" arbitrary: s p k rule: less_induct)
  case less
  let ?b = "buddy_pfn p k"
  show ?case
  proof (cases "Suc k < 11 \<and> ?b < pfn_count s \<and> isfree s ?b \<and> pfn_order s ?b = k \<and> zone_of (pfn_to_pa ?b) = pzone p")
    case False
    then have "coalesce s (pzone p) p k = (s, p, k)"
      by (subst coalesce.simps) (auto simp: PMM_MAX_ORDER_def isfree_def Let_def)
    moreover have "\<not> mergeable s p k"
    proof
      assume m: "mergeable s p k"
      then have "block_fits (pfn_count s) ?b k" "Suc k < 11" "?b < 2 ^ 52"
        using less.prems(1) by (auto simp: mergeable_def pmm_inv_def blocks_ok_def block_heads_def)
      note join = block_fits_join [OF less.prems(2) this(1,2)]
      have "pzone ?b = pzone p" using join(2,3) blk_zone [OF join(1), of ?b] by simp
      then show False using False m \<open>?b < 2 ^ 52\<close> by (simp add: mergeable_def block_heads_def)
    qed
    ultimately show ?thesis using less.prems by auto
  next
    case True
    have ok: "blocks_ok s" "zero_ok s" using less.prems(1) by (simp_all add: pmm_inv_def)
    have b: "?b \<in> block_heads s" "pfn_order s ?b = k" using True by (simp_all add: block_heads_def)
    have fits: "block_fits (pfn_count s) ?b k" using ok(1) b by (auto simp: blocks_ok_def)
    have b52: "?b < 2 ^ 52" using True ok(1) by (simp add: blocks_ok_def)
    note join = block_fits_join [OF less.prems(2) fits]
    let ?s = "take_block s ?b" and ?m = "min p ?b"
    have fs: "free_set ?s = free_set s - blk ?b k" using take_block_free_set [OF ok(1) b(1)] b(2) by simp
    have sub: "blk ?b k \<subseteq> free_set s" using blk_in_free_set [OF b(1)] b(2) by simp
    have z: "zero_blk s ?b k" using ok(2) sub by (auto simp: zero_ok_def zero_blk_def)
    have pz: "pzone ?b = pzone p" using True b52 by simp
    have "coalesce s (pzone p) p k = coalesce ?s (pzone p) ?m (Suc k)"
      using True pz by (subst coalesce.simps)
        (auto simp: PMM_MAX_ORDER_def isfree_def Let_def take_block_def min_def)
    moreover have "\<exists>s' p' k'. coalesce ?s (pzone ?m) ?m (Suc k) = (s', p', k') \<and> pmm_inv s' \<and>
        block_fits (pfn_count s') p' k' \<and> blk p' k' \<inter> free_set s' = {} \<and> zero_blk s' p' k' \<and>
        pzone p' = pzone ?m \<and> free_set s' \<union> blk p' k' = free_set ?s \<union> blk ?m (Suc k) \<and> pmm_frame ?s s' \<and>
        blk ?m (Suc k) \<subseteq> blk p' k' \<and> \<not> mergeable s' p' k' \<and> block_heads s' \<subseteq> block_heads ?s \<and> pfn_order s' = pfn_order ?s"
    proof (rule less.hyps)
      show "11 - Suc k < 11 - k" using True by auto
      show "pmm_inv ?s" using take_block_inv [OF less.prems(1) b(1)] .
      show "block_fits (pfn_count ?s) ?m (Suc k)" using join True by simp
      show "blk ?m (Suc k) \<inter> free_set ?s = {}" using join True fs less.prems(3) by auto
      show "zero_blk ?s ?m (Suc k)" using join True z less.prems(4) by (auto simp: zero_blk_def)
    qed
    moreover have "free_set ?s \<union> blk ?m (Suc k) = free_set s \<union> blk p k" using join True fs sub by auto
    ultimately show ?thesis
      using join(2,3) True pmm_frame_trans [OF frame_take_give(1) [of s ?b]] by auto
  qed
qed

lemma pmm_free_locked_correct:
  assumes "pmm_inv s" "block_fits (pfn_count s) (pa_to_pfn pa) k" "blk (pa_to_pfn pa) k \<inter> free_set s = {}"
    "zero_blk s (pa_to_pfn pa) k"
  shows "pmm_inv (pmm_free_pages_locked s pa k) \<and>
    free_set (pmm_free_pages_locked s pa k) = free_set s \<union> blk (pa_to_pfn pa) k \<and>
    pmm_frame s (pmm_free_pages_locked s pa k) \<and>
    merged_at (pmm_free_pages_locked s pa k) (pa_to_pfn pa) k \<and>
    (coalesced s \<longrightarrow> coalesced (pmm_free_pages_locked s pa k))"
proof -
  obtain s' p' k' where c: "coalesce s (pzone (pa_to_pfn pa)) (pa_to_pfn pa) k = (s', p', k')" "pmm_inv s'"
    "block_fits (pfn_count s') p' k'" "blk p' k' \<inter> free_set s' = {}" "zero_blk s' p' k'"
    "pzone p' = pzone (pa_to_pfn pa)" "free_set s' \<union> blk p' k' = free_set s \<union> blk (pa_to_pfn pa) k" "pmm_frame s s'"
    "blk (pa_to_pfn pa) k \<subseteq> blk p' k'" "\<not> mergeable s' p' k'" "block_heads s' \<subseteq> block_heads s" "pfn_order s' = pfn_order s"
    using coalesce_inv [OF assms] by blast
  have "pmm_free_pages_locked s pa k = give_block s' p' k'"
    using c(1,6) by (simp add: pmm_free_pages_locked_def zone_of_pa give_block_def Let_def)
  moreover have "pmm_inv (give_block s' p' k')"
    using give_block_inv [OF c(2-4)] c(5) by (simp add: zero_blk_def)
  moreover have "free_set (give_block s' p' k') = free_set s' \<union> blk p' k'"
    by (rule give_block_free_set [OF block_fits_less [OF c(3)] not_head [OF c(4)]])
  moreover have "p' \<in> block_heads (give_block s' p' k')" "\<not> mergeable (give_block s' p' k') p' k'"
    using c(10) block_fits_less [OF c(3)] by (auto simp: mergeable_def)
  moreover have "coalesced (give_block s' p' k')" if "coalesced s"
    using coalesced_give [OF coalesced_subset [OF that c(11,12)] block_fits_less [OF c(3)] not_head [OF c(4)] c(10)] .
  ultimately show ?thesis using c(7,8,9) pmm_frame_trans [OF c(8) frame_take_give(2)]
    by (auto simp: merged_at_def intro!: bexI [of _ p'])
qed

lemma pmem_zero_sel [simp]:
  "pfn_flags (pmem_zero s a n) = pfn_flags s" "pfn_order (pmem_zero s a n) = pfn_order s"
  "pfn_refcount (pmem_zero s a n) = pfn_refcount s" "pfn_next (pmem_zero s a n) = pfn_next s"
  "pfn_prev (pmem_zero s a n) = pfn_prev s" "pfn_count (pmem_zero s a n) = pfn_count s"
  "free_list_head (pmem_zero s a n) = free_list_head s" "stats (pmem_zero s a n) = stats s"
  "mm_zero_page (pmem_zero s a n) = mm_zero_page s"
  "pmem (pmem_zero s a n) x = (if a \<le> x \<and> x < a + n then 0 else pmem s x)"
  by (simp_all add: pmem_zero_def)

text \<open>The invariant depends on the metadata, and on the memory only through the free pages.\<close>

lemma pmm_inv_mem:
  assumes "pfn_flags s' = pfn_flags s" "pfn_order s' = pfn_order s" "pfn_next s' = pfn_next s"
    "pfn_prev s' = pfn_prev s" "pfn_count s' = pfn_count s" "free_list_head s' = free_list_head s"
    "stats s' = stats s" "\<And>q i. q \<in> free_set s \<Longrightarrow> i < 4096 \<Longrightarrow> pmem s (q * 4096 + i) = 0 \<Longrightarrow> pmem s' (q * 4096 + i) = 0"
  shows "free_set s' = free_set s" "pmm_inv s \<Longrightarrow> pmm_inv s'"
proof -
  have f: "isfree s' = isfree s" using assms(1) by (simp add: isfree_def fun_eq_iff)
  have bh: "block_heads s' = block_heads s" using f assms(5) by (simp add: block_heads_def)
  show fs: "free_set s' = free_set s" using bh assms(2) by (simp add: free_set_def)
  have hd: "heads s' = heads s" using bh assms(2) by (simp add: heads_def fun_eq_iff)
  assume inv: "pmm_inv s"
  have "lists_ok s'" using inv unfolding pmm_inv_def lists_ok_def hd assms(3,4,6) by simp
  moreover have "blocks_ok s'" using inv unfolding pmm_inv_def blocks_ok_def bh assms(2,5) by blast
  moreover have "stats_ok s'" using inv unfolding pmm_inv_def stats_ok_def fs bh assms(2,7) by blast
  moreover have "zero_ok s'" using inv assms(8) unfolding pmm_inv_def zero_ok_def fs by blast
  ultimately show "pmm_inv s'" by (simp add: pmm_inv_def)
qed

lemma blk_bytes: "q \<in> blk p k \<Longrightarrow> i < 4096 \<Longrightarrow> p * 4096 \<le> q * 4096 + i \<and> q * 4096 + i < p * 4096 + 2 ^ (12 + k)"
proof -
  assume q: "q \<in> blk p k" and i: "i < 4096"
  then have "p \<le> q" "q + 1 \<le> p + 2 ^ k" by (auto simp: blk_def)
  then have "p * 4096 \<le> q * 4096" "(q + 1) * 4096 \<le> (p + 2 ^ k) * 4096" by (simp_all only: mult_le_mono1)
  then show ?thesis using i by (simp add: power_add algebra_simps)
qed

lemma isfree_in_free_set: "p < pfn_count s \<Longrightarrow> isfree s p \<Longrightarrow> p \<in> free_set s"
  using blk_in_free_set [of p s] by (auto simp: block_heads_def)

lemma pmm_free_result:
  assumes inv: "pmm_inv s" and fits: "block_fits (pfn_count s) p k" and dis: "blk p k \<inter> free_set s = {}"
  shows "\<exists>s'. pmm_free_pages s (pfn_to_pa p) (int k) = Some s' \<and> pmm_inv s' \<and>
    free_set s' = free_set s \<union> blk p k \<and> pfn_refcount s' = pfn_refcount s \<and>
    pfn_count s' = pfn_count s \<and> mm_zero_page s' = mm_zero_page s \<and>
    (\<forall>x. pmem s' x = (if p * 4096 \<le> x \<and> x < p * 4096 + 2 ^ (12 + k) then 0 else pmem s x))"
proof -
  let ?pa = "pfn_to_pa p"
  let ?s = "pmem_zero s (unat ?pa) (PMM_ORDER_SIZE k)"
  have p: "p < pfn_count s" "p < 2 ^ 52" "k < 11" "2 ^ k dvd p"
    using block_fits_less [OF fits] inv fits by (auto simp: pmm_inv_def blocks_ok_def block_fits_def)
  have "2 ^ k * 2 ^ 12 dvd p * 2 ^ 12" using p(4) by (intro mult_dvd_mono) auto
  then have al: "?pa AND (2 ^ (12 + k) - 1) = 0"
    using p by (subst word_and_mask_eq_0) (simp_all add: unat_pfn_to_pa power_add mult.commute)
  have nf: "\<not> isfree s p" using dis isfree_in_free_set [OF p(1)] head_in_blk by blast
  have pm: "pmem ?s x = (if p * 4096 \<le> x \<and> x < p * 4096 + 2 ^ (12 + k) then 0 else pmem s x)" for x
    using p by (simp add: unat_pfn_to_pa PMM_ORDER_SIZE_def)
  have fs: "free_set ?s = free_set s" and inv': "pmm_inv ?s"
    using pmm_inv_mem [of ?s s] inv by simp_all
  have "zero_blk ?s p k" using blk_bytes pm by (simp add: zero_blk_def)
  then have r: "pmm_inv (pmm_free_pages_locked ?s ?pa k)"
    "free_set (pmm_free_pages_locked ?s ?pa k) = free_set s \<union> blk p k"
    "pmm_frame ?s (pmm_free_pages_locked ?s ?pa k)"
    using pmm_free_locked_correct [of ?s ?pa k] inv' fits dis fs p by auto
  have "pmm_free_pages s ?pa (int k) = Some (pmm_free_pages_locked ?s ?pa k)"
    using p al nf by (simp add: pmm_free_pages_def pmm_free_validate_locked_def PMM_MAX_ORDER_def isfree_def)
  then show ?thesis using r pm by (simp add: pmm_frame_def)
qed

lemma pmm_free_merged:
  assumes inv: "pmm_inv s" and fits: "block_fits (pfn_count s) p k" and dis: "blk p k \<inter> free_set s = {}"
    and run: "pmm_free_pages s (pfn_to_pa p) (int k) = Some s'"
  shows "merged_at s' p k" "coalesced s \<Longrightarrow> coalesced s'"
proof -
  let ?s = "pmem_zero s (unat (pfn_to_pa p)) (PMM_ORDER_SIZE k)"
  have p: "p < 2 ^ 52" using block_fits_less [OF fits] inv by (simp add: pmm_inv_def blocks_ok_def)
  have s': "s' = pmm_free_pages_locked ?s (pfn_to_pa p) k" using run by (simp add: pmm_free_pages_def bind_eq_Some_conv)
  have fs: "free_set ?s = free_set s" and inv': "pmm_inv ?s" using pmm_inv_mem [of ?s s] inv by simp_all
  have "zero_blk ?s p k" using blk_bytes p by (simp add: zero_blk_def unat_pfn_to_pa PMM_ORDER_SIZE_def)
  then have "merged_at s' p k \<and> (coalesced ?s \<longrightarrow> coalesced s')"
    using pmm_free_locked_correct [of ?s "pfn_to_pa p" k] inv' fits dis fs p unfolding s' by auto
  moreover have "coalesced ?s = coalesced s" by (simp add: coalesced_def mergeable_def block_heads_def isfree_def)
  ultimately show "merged_at s' p k" "coalesced s \<Longrightarrow> coalesced s'" by simp_all
qed

subsection \<open>The coalesced lists are determined by the free pages\<close>

text \<open>In coalesced lists, every aligned block of free pages lies inside one free block.\<close>

lemma aligned_blk_subset:
  assumes "2 ^ i dvd r" "2 ^ j dvd q" "j \<le> i" "q \<in> blk r i"
  shows "blk q j \<subseteq> blk r i"
proof -
  have "2 ^ j dvd (2 :: nat) ^ i" using assms(3) by (rule le_imp_power_dvd)
  then have "2 ^ j dvd r + 2 ^ i - q" using assms(1,2) by (intro dvd_diff_nat dvd_add) (auto intro: dvd_trans)
  moreover have "0 < r + 2 ^ i - q" using assms(4) by (simp add: blk_def)
  ultimately have "2 ^ j \<le> r + 2 ^ i - q" by (intro dvd_imp_le)
  then show ?thesis using assms(4) by (auto simp: blk_def)
qed

lemma coalesced_block:
  assumes ok: "blocks_ok s" "coalesced s" and b: "2 ^ j dvd q" "j < 11" "blk q j \<subseteq> free_set s"
  shows "\<exists>r\<in>block_heads s. j \<le> pfn_order s r \<and> blk q j \<subseteq> blk r (pfn_order s r)"
  using b
proof (induction j arbitrary: q)
  case 0
  have "blk q 0 = {q}" by (auto simp: blk_def)
  then show ?case using 0 by (auto simp: free_set_def)
next
  case (Suc j)
  have al: "2 ^ pfn_order s r dvd r" if "r \<in> block_heads s" for r using ok(1) that by (auto simp: blocks_ok_def block_fits_def)
  have half: "\<exists>r\<in>block_heads s. Suc j \<le> pfn_order s r \<and> blk q (Suc j) \<subseteq> blk r (pfn_order s r) \<or> x \<in> block_heads s \<and> pfn_order s x = j"
    if x: "2 ^ j dvd x" "blk x j \<subseteq> blk q (Suc j)" for x
  proof -
    obtain r where r: "r \<in> block_heads s" "j \<le> pfn_order s r" "blk x j \<subseteq> blk r (pfn_order s r)"
      using Suc.IH [OF x(1)] Suc.prems(2,3) x(2) by auto
    show ?thesis
    proof (cases "pfn_order s r = j")
      case True
      then have "r = x" using r(3) by (auto simp: blk_def)
      then show ?thesis using r True by blast
    next
      case False
      have "q \<in> blk r (pfn_order s r)"
      proof -
        have "2 ^ Suc j dvd (2 :: nat) ^ pfn_order s r" using False r(2) by (intro le_imp_power_dvd) simp
        then have "2 ^ Suc j dvd r" using al [OF r(1)] by (rule dvd_trans)
        moreover have "x \<in> blk r (pfn_order s r)" "x \<in> blk q (Suc j)" using r(3) x(2) head_in_blk by blast+
        ultimately have "r \<le> q"
        proof -
          assume d: "2 ^ Suc j dvd r"
          show ?thesis
          proof (rule ccontr)
            assume "\<not> r \<le> q"
            then have "2 ^ Suc j \<le> r - q" using d Suc.prems(1) by (intro dvd_imp_le dvd_diff_nat) auto
            then show False using \<open>x \<in> blk r (pfn_order s r)\<close> \<open>x \<in> blk q (Suc j)\<close> by (auto simp: blk_def)
          qed
        qed
        moreover have "q \<le> x" using \<open>x \<in> blk q (Suc j)\<close> by (simp add: blk_def)
        ultimately show ?thesis using \<open>x \<in> blk r (pfn_order s r)\<close> by (auto simp: blk_def)
      qed
      then have "blk q (Suc j) \<subseteq> blk r (pfn_order s r)"
        using aligned_blk_subset [OF al [OF r(1)] Suc.prems(1)] False r(2) by simp
      then show ?thesis using r False by (intro bexI [of _ r]) auto
    qed
  qed
  have d: "2 ^ j dvd q" using Suc.prems(1) power_le_dvd [of 2 "Suc j" q j] by simp
  have up: "buddy_pfn (q + 2 ^ j) j = q" by (rule buddy_upper [OF Suc.prems(1)])
  have "\<not> (q \<in> block_heads s \<and> pfn_order s q = j \<and> q + 2 ^ j \<in> block_heads s \<and> pfn_order s (q + 2 ^ j) = j)"
    using ok(2) up Suc.prems(2) by (auto simp: coalesced_def mergeable_def)
  then show ?case using half [of q] half [of "q + 2 ^ j"] d blk_split(1) [of q j] by (auto simp: dvd_add_right_iff)
qed

lemma coalesced_unique:
  assumes s: "blocks_ok s" "coalesced s" and s': "blocks_ok s'" "coalesced s'" and fs: "free_set s' = free_set s"
    and p: "p \<in> block_heads s"
  shows "p \<in> block_heads s' \<and> pfn_order s' p = pfn_order s p"
proof -
  have al: "2 ^ pfn_order u r dvd r \<and> pfn_order u r < 11" if "r \<in> block_heads u" "blocks_ok u" for r u
    using that by (auto simp: blocks_ok_def block_fits_def)
  let ?k = "pfn_order s p"
  obtain r where r: "r \<in> block_heads s'" "?k \<le> pfn_order s' r" "blk p ?k \<subseteq> blk r (pfn_order s' r)"
    using coalesced_block [OF s', of ?k p] al [OF p s(1)] blk_in_free_set [OF p] fs by auto
  obtain q where q: "q \<in> block_heads s" "pfn_order s' r \<le> pfn_order s q" "blk r (pfn_order s' r) \<subseteq> blk q (pfn_order s q)"
    using coalesced_block [OF s, of "pfn_order s' r" r] al [OF r(1) s'(1)] blk_in_free_set [OF r(1)] fs by auto
  have "p \<in> blk p ?k" "p \<in> blk q (pfn_order s q)" using r(3) q(3) head_in_blk by blast+
  then have "q = p" using s(1) p q(1) unfolding blocks_ok_def by blast
  then have k: "pfn_order s' r = ?k" using r(2) q(2) by simp
  then have "r = p" using r(3) q(3) \<open>q = p\<close> by (auto simp: blk_def)
  then show ?thesis using r(1) k by simp
qed

lemma coalesced_stats:
  assumes "pmm_inv s" "coalesced s" "pmm_inv s'" "coalesced s'" "free_set s' = free_set s"
  shows "block_heads s' = block_heads s" "p \<in> block_heads s \<Longrightarrow> pfn_order s' p = pfn_order s p" "free_by_order (stats s') = free_by_order (stats s)"
proof -
  have ok: "blocks_ok s" "blocks_ok s'" using assms by (simp_all add: pmm_inv_def)
  note u = coalesced_unique [OF ok(1) assms(2) ok(2) assms(4,5)] coalesced_unique [OF ok(2) assms(4) ok(1) assms(2) assms(5) [symmetric]]
  show bh: "block_heads s' = block_heads s" using u by blast
  show "p \<in> block_heads s \<Longrightarrow> pfn_order s' p = pfn_order s p" for p using u by blast
  have "{p \<in> block_heads s'. pfn_order s' p = k} = {p \<in> block_heads s. pfn_order s p = k}" for k using u by auto
  then show "free_by_order (stats s') = free_by_order (stats s)"
    using assms(1,3) by (simp add: pmm_inv_def stats_ok_def fun_eq_iff)
qed

text \<open>The panics of the release path.\<close>

lemma pmm_free_panics:
  "\<not> (0 \<le> k \<and> k < 11) \<Longrightarrow> pmm_free_pages s pa k = None"
  "0 \<le> k \<Longrightarrow> k < 11 \<Longrightarrow> \<not> 2 ^ (12 + nat k) dvd unat pa \<Longrightarrow> pmm_free_pages s pa k = None"
  "pfn_count s \<le> pa_to_pfn pa \<Longrightarrow> pmm_free_pages s pa k = None"
  "isfree s (pa_to_pfn pa) \<Longrightarrow> pmm_free_pages s pa k = None"
proof -
  show "\<not> (0 \<le> k \<and> k < 11) \<Longrightarrow> pmm_free_pages s pa k = None"
    by (auto simp: pmm_free_pages_def pmm_free_validate_locked_def PMM_MAX_ORDER_def)
  show "0 \<le> k \<Longrightarrow> k < 11 \<Longrightarrow> \<not> 2 ^ (12 + nat k) dvd unat pa \<Longrightarrow> pmm_free_pages s pa k = None"
    using word_and_mask_eq_0 [of "12 + nat k" pa]
    by (auto simp: pmm_free_pages_def pmm_free_validate_locked_def)
  show "pfn_count s \<le> pa_to_pfn pa \<Longrightarrow> pmm_free_pages s pa k = None"
    by (simp add: pmm_free_pages_def pmm_free_validate_locked_def)
  show "isfree s (pa_to_pfn pa) \<Longrightarrow> pmm_free_pages s pa k = None"
    by (simp add: pmm_free_pages_def pmm_free_validate_locked_def isfree_def)
qed

section \<open>User pages\<close>

lemma pmm_inv_refcount [simp]:
  "pmm_inv (s\<lparr>pfn_refcount := f\<rparr>) = pmm_inv s" "free_set (s\<lparr>pfn_refcount := f\<rparr>) = free_set s"
  by (simp_all add: pmm_inv_def lists_ok_def blocks_ok_def stats_ok_def zero_ok_def heads_def
      block_heads_def free_set_def isfree_def)

text \<open>A user page is in use: it is in range, not free, not the zero page, and counted.\<close>

definition user_page :: "pmm_state \<Rightarrow> nat \<Rightarrow> bool" where
  "user_page s p \<longleftrightarrow> 0 < p \<and> p < pfn_count s \<and> p \<notin> free_set s \<and> pfn_to_pa p \<noteq> mm_zero_page s \<and>
     pfn_refcount s p \<noteq> 0"

lemma user_page_not_free: "user_page s p \<Longrightarrow> \<not> isfree s p"
  using isfree_in_free_set by (auto simp: user_page_def)

lemma pmm_get_result:
  assumes inv: "pmm_inv s" and u: "user_page s p" and r: "pfn_refcount s p \<noteq> 0xFFFF"
  shows "pmm_get_user_page s (pfn_to_pa p) =
    Some (s\<lparr>pfn_refcount := (pfn_refcount s)(p := pfn_refcount s p + 1)\<rparr>)"
proof -
  have "p < 2 ^ 52" using inv u by (auto simp: pmm_inv_def blocks_ok_def user_page_def)
  then show ?thesis
    using u r user_page_not_free [OF u] by (simp add: pmm_get_user_page_def user_page_def isfree_def)
qed

lemma pmm_put_result:
  assumes inv: "pmm_inv s" and u: "user_page s p"
  shows "\<exists>s'. pmm_put_user_page s (pfn_to_pa p) = Some s' \<and> pmm_inv s' \<and>
    pfn_refcount s' = (pfn_refcount s)(p := pfn_refcount s p - 1) \<and>
    free_set s' = free_set s \<union> (if pfn_refcount s p = 1 then {p} else {}) \<and>
    pfn_count s' = pfn_count s \<and> mm_zero_page s' = mm_zero_page s \<and>
    (\<forall>x. pmem s' x = (if pfn_refcount s p = 1 \<and> x div 4096 = p then 0 else pmem s x))"
proof -
  have p: "p < 2 ^ 52" using inv u by (auto simp: pmm_inv_def blocks_ok_def user_page_def)
  let ?s = "s\<lparr>pfn_refcount := (pfn_refcount s)(p := pfn_refcount s p - 1)\<rparr>"
  show ?thesis
  proof (cases "pfn_refcount s p = 1")
    case False
    then have "pmm_put_user_page s (pfn_to_pa p) = Some ?s"
      using u p user_page_not_free [OF u] by (simp add: pmm_put_user_page_def user_page_def isfree_def)
    then show ?thesis using False inv by simp
  next
    case True
    then have "pmm_put_user_page s (pfn_to_pa p) = pmm_free_pages ?s (pfn_to_pa p) (int 0)"
      using u p user_page_not_free [OF u] by (simp add: pmm_put_user_page_def user_page_def isfree_def)
    moreover have "block_fits (pfn_count ?s) p 0" "blk p 0 \<inter> free_set ?s = {}" "blk p 0 = {p}"
      using u by (auto simp: user_page_def block_fits_def blk_def)
    moreover note page_bytes [of p]
    ultimately show ?thesis
      using pmm_free_result [of ?s p 0] inv True by auto
  qed
qed

end
