(* ===== verification/Pmm_Boot.thy ===== *)
theory Pmm_Boot
  imports Pmm_Ops
begin

text \<open>
  The boot path of \<^verbatim>\<open>kernel/mm/pmm.c\<close>: on a memory map as the bootloader documents it,
  \<^verbatim>\<open>pmm_init\<close> establishes the invariant of the allocator, with the usable pages that the
  metadata array leaves as the free pages.
\<close>

lemma nat_and_mask_eq_0: "(a :: nat) AND (2 ^ n - 1) = 0 \<longleftrightarrow> 2 ^ n dvd a"
proof -
  have "a AND (2 ^ n - 1) = take_bit n a" by (simp add: take_bit_eq_mask mask_eq_exp_minus_1)
  then show ?thesis by (simp add: take_bit_eq_mod dvd_eq_mod_eq_0)
qed

lemma natural_order_fits:
  assumes "k < 11" "2 ^ k dvd start" "start + 2 ^ k \<le> stop"
  shows "natural_order start stop k < 11 \<and> 2 ^ natural_order start stop k dvd start \<and>
    start + 2 ^ natural_order start stop k \<le> stop"
  using assms
proof (induction start stop k rule: natural_order.induct)
  case (1 start stop k)
  show ?case
  proof (cases "k + 1 < 11 \<and> 2 ^ (k + 1) dvd start \<and> start + 2 ^ (k + 1) \<le> stop")
    case True
    have "natural_order start stop k = natural_order start stop (k + 1)"
      by (subst natural_order.simps) (simp only: True nat_and_mask_eq_0 PMM_MAX_ORDER_def simp_thms if_True)
    then show ?thesis using 1(1) True by (simp only: PMM_MAX_ORDER_def nat_and_mask_eq_0 simp_thms)
  next
    case False
    have "natural_order start stop k = k"
      using False by (subst natural_order.simps) (simp only: nat_and_mask_eq_0 PMM_MAX_ORDER_def if_False simp_thms)
    then show ?thesis using 1 by simp
  qed
qed

lemma pmm_register_block_correct:
  assumes inv: "pmm_inv s" and fits: "block_fits (pfn_count s) p k" and dis: "blk p k \<inter> free_set s = {}"
  shows "pmm_inv (pmm_register_block s p k)" "free_set (pmm_register_block s p k) = free_set s \<union> blk p k"
    "pfn_count (pmm_register_block s p k) = pfn_count s" 
proof -
  let ?s = "pmem_zero s (unat (pfn_to_pa p)) (PMM_ORDER_SIZE k)"
  have p: "p < 2 ^ 52" "k < 11"
    using block_fits_less [OF fits] inv fits by (auto simp: pmm_inv_def blocks_ok_def block_fits_def)
  have fs: "free_set ?s = free_set s" and inv': "pmm_inv ?s"
    using pmm_inv_mem [of ?s s] inv by simp_all
  have "\<forall>q\<in>blk p k. \<forall>i<4096. pmem ?s (q * 4096 + i) = 0"
    using blk_bytes [of _ p k] p by (simp add: unat_pfn_to_pa PMM_ORDER_SIZE_def)
  then have g: "pmm_inv (give_block ?s p k)" using give_block_inv [OF inv'] fits dis fs by simp
  have gs: "free_set (give_block ?s p k) = free_set s \<union> blk p k"
    using give_block_free_set [of p ?s] block_fits_less [OF fits] not_head [of p k ?s] dis fs by simp
  let ?r = "pmm_register_block s p k" and ?g = "give_block ?s p k"
  have r: "?r = ?g\<lparr>stats := (stats ?g)\<lparr>zone_total := (zone_total (stats ?g))(pzone p :=
      zone_total (stats ?g) (pzone p) + 2 ^ k)\<rparr>\<rparr>"
    using p by (simp add: pmm_register_block_def give_block_def Let_def)
  show "pfn_count ?r = pfn_count s" unfolding r by simp
  show "free_set ?r = free_set s \<union> blk p k"
    using gs unfolding r by (simp add: free_set_def block_heads_def isfree_def)
  show "pmm_inv ?r" using g unfolding r
    by (simp add: pmm_inv_def lists_ok_def blocks_ok_def stats_ok_def zero_ok_def heads_def
      block_heads_def free_set_def isfree_def)
qed

lemma register_loop_correct:
  assumes "pmm_inv s" "0 < start" "stop \<le> pfn_count s" "{start..<stop} \<inter> free_set s = {}"
  shows "pmm_inv (register_loop s start stop) \<and>
    free_set (register_loop s start stop) = free_set s \<union> {start..<stop} \<and>
    pfn_count (register_loop s start stop) = pfn_count s"
  using assms
proof (induction s start stop rule: register_loop.induct)
  case (1 s start stop)
  show ?case
  proof (cases "start < stop")
    case False
    then show ?thesis using 1 by (subst (1 2 3) register_loop.simps) auto
  next
    case True
    let ?k = "natural_order start stop 0"
    have k: "?k < 11" "2 ^ ?k dvd start" "start + 2 ^ ?k \<le> stop"
      using natural_order_fits [of 0 start stop] True by simp_all
    have fits: "block_fits (pfn_count s) start ?k" using k 1(3,4) by (simp add: block_fits_def)
    have sub: "blk start ?k \<subseteq> {start..<stop}" using k(3) by (auto simp: blk_def)
    then have dis: "blk start ?k \<inter> free_set s = {}" using 1(5) by blast
    let ?s = "pmm_register_block s start ?k"
    note r = pmm_register_block_correct [OF 1(2) fits dis]
    have split: "{start..<stop} = blk start ?k \<union> {start + 2 ^ ?k..<stop}" using k(3) by (auto simp: blk_def)
    have "{start + 2 ^ ?k..<stop} \<inter> free_set ?s = {}" using r(2) 1(5) split by (auto simp: blk_def)
    then have ih: "pmm_inv (register_loop ?s (start + 2 ^ ?k) stop) \<and>
        free_set (register_loop ?s (start + 2 ^ ?k) stop) = free_set ?s \<union> {start + 2 ^ ?k..<stop} \<and>
        pfn_count (register_loop ?s (start + 2 ^ ?k) stop) = pfn_count ?s"
      using 1(1) [OF True refl] r 1(3,4) by simp
    have "register_loop s start stop = register_loop ?s (start + 2 ^ ?k) stop"
      using True by (subst register_loop.simps) (simp add: Let_def)
    then show ?thesis using ih r split by auto
  qed
qed

section \<open>The memory map\<close>

text \<open>
  What the bootloader's documentation says of usable entries: page-aligned, not overlapping,
  not wrapping, and never the first page.
\<close>

definition entry_ok :: "memmap_entry \<Rightarrow> bool" where
  "entry_ok e \<longleftrightarrow> (me_usable e \<longrightarrow> 4096 dvd unat (me_base e) \<and> 4096 dvd unat (me_length e) \<and>
     0 < unat (me_base e) \<and> unat (me_base e) + unat (me_length e) < 2 ^ 64)"

definition entry_pages :: "memmap_entry \<Rightarrow> nat set" where
  "entry_pages e =
     (if me_usable e then {unat (me_base e) div 4096..<(unat (me_base e) + unat (me_length e)) div 4096} else {})"

definition map_ok :: "memmap_entry list \<Rightarrow> bool" where
  "map_ok es \<longleftrightarrow> (\<forall>e\<in>set es. entry_ok e) \<and> sorted_wrt (\<lambda>a b. entry_pages a \<inter> entry_pages b = {}) es"

definition map_pages :: "memmap_entry list \<Rightarrow> nat set" where
  "map_pages es = (\<Union>e\<in>set es. entry_pages e)"

lemma map_ok_Cons: "map_ok (e # es) \<longleftrightarrow> entry_ok e \<and> map_ok es \<and> entry_pages e \<inter> map_pages es = {}"
  by (auto simp: map_ok_def map_pages_def)

lemma map_pages_Cons: "map_pages (e # es) = entry_pages e \<union> map_pages es"
  by (simp add: map_pages_def)

lemma pa_to_pfn_mask: "pa_to_pfn (a AND NOT (PAGE_SIZE - 1)) = unat a div 4096"
proof -
  have "drop_bit 12 (a AND NOT (mask 12)) = drop_bit 12 a"
    by (rule bit_word_eqI) (auto simp: bit_simps dest: bit_imp_le_length)
  then show ?thesis
    by (simp add: pa_to_pfn_def page_consts mask_eq_exp_minus_1 flip: pa_to_pfn_div [unfolded pa_to_pfn_def])
qed

lemma entry_end: "entry_ok e \<Longrightarrow> me_usable e \<Longrightarrow> unat (me_base e + me_length e) = unat (me_base e) + unat (me_length e)"
  by (simp add: entry_ok_def unat_add_lem [THEN iffD1])

lemma pmm_register_range_correct:
  assumes inv: "pmm_inv s" and e: "entry_ok e" "me_usable e"
    and r: "unat (me_base e + me_length e) div 4096 \<le> pfn_count s" "entry_pages e \<inter> free_set s = {}"
  shows "pmm_inv (pmm_register_range s (me_base e) (me_base e + me_length e)) \<and>
    free_set (pmm_register_range s (me_base e) (me_base e + me_length e)) = free_set s \<union> entry_pages e \<and>
    pfn_count (pmm_register_range s (me_base e) (me_base e + me_length e)) = pfn_count s"
proof -
  let ?b = "unat (me_base e)"
  have b: "4096 dvd ?b" "0 < ?b" using e by (auto simp: entry_ok_def)
  then obtain m where m: "?b = 4096 * m" by (auto elim: dvdE)
  have "?b + 4095 < 2 ^ 64" using m unat64_less [of "me_base e"] by simp
  then have "unat (me_base e + 4095) = ?b + 4095"
    by (subst unat_add_lem [THEN iffD1]) simp_all
  then have start: "pa_to_pfn ((me_base e + PAGE_SIZE - 1) AND NOT (PAGE_SIZE - 1)) = ?b div 4096"
    unfolding pa_to_pfn_mask using m by (simp add: page_consts add_diff_eq [symmetric])
  have stop: "pa_to_pfn ((me_base e + me_length e) AND NOT (PAGE_SIZE - 1)) = (?b + unat (me_length e)) div 4096"
    unfolding pa_to_pfn_mask entry_end [OF e] ..
  have "0 < ?b div 4096" using m b by simp
  then show ?thesis
    unfolding pmm_register_range_def start stop
    using register_loop_correct [OF inv, of "?b div 4096"] r e entry_end [OF e] by (simp add: entry_pages_def)
qed

lemma feed_ranges_correct:
  assumes "pmm_inv s" "map_ok es" "map_pages es \<inter> free_set s = {}"
    "\<forall>e\<in>set es. me_usable e \<longrightarrow> unat (me_base e + me_length e) div 4096 \<le> pfn_count s"
  shows "pmm_inv (feed_ranges s es) \<and> free_set (feed_ranges s es) = free_set s \<union> map_pages es \<and>
    pfn_count (feed_ranges s es) = pfn_count s"
  using assms
proof (induction es arbitrary: s)
  case Nil
  then show ?case by (simp add: map_pages_def)
next
  case (Cons e es)
  let ?s = "if me_usable e then pmm_register_range s (me_base e) (me_base e + me_length e) else s"
  have ok: "entry_ok e" "map_ok es" "entry_pages e \<inter> map_pages es = {}"
    using Cons.prems(2) by (simp_all add: map_ok_Cons)
  have s: "pmm_inv ?s \<and> free_set ?s = free_set s \<union> entry_pages e \<and> pfn_count ?s = pfn_count s"
    using pmm_register_range_correct [OF Cons.prems(1) ok(1)] Cons.prems
    by (cases "me_usable e") (auto simp: map_pages_Cons entry_pages_def)
  have "map_pages es \<inter> free_set ?s = {}"
    using s ok(3) Cons.prems(3) unfolding map_pages_Cons by blast
  then have "pmm_inv (feed_ranges ?s es) \<and> free_set (feed_ranges ?s es) = free_set ?s \<union> map_pages es \<and>
      pfn_count (feed_ranges ?s es) = pfn_count ?s"
    using Cons.IH [of ?s] s ok(2) Cons.prems(4) by simp
  moreover have "feed_ranges s (e # es) = feed_ranges ?s es" by simp
  ultimately show ?case using s unfolding map_pages_Cons by (simp only: Un_assoc)
qed

lemma highest_end_ge: "h \<le> highest_end es h" and
  highest_end_entry: "e \<in> set es \<Longrightarrow> me_usable e \<Longrightarrow> me_base e + me_length e \<le> highest_end es h"
proof -
  show ge: "h \<le> highest_end es h" for h es
  proof (induction es arbitrary: h)
    case (Cons a es)
    then show ?case by (auto simp: Let_def intro: order.trans [OF less_imp_le])
  qed simp
  show "e \<in> set es \<Longrightarrow> me_usable e \<Longrightarrow> me_base e + me_length e \<le> highest_end es h"
  proof (induction es arbitrary: h)
    case (Cons a es)
    show ?case
    proof (cases "e = a")
      case True
      have "me_base a + me_length a \<le> highest_end es (me_base a + me_length a)" using ge .
      moreover have "\<not> h < me_base a + me_length a \<Longrightarrow> me_base a + me_length a \<le> highest_end es h"
        using ge [of h es] by (simp add: not_less)
      ultimately show ?thesis using True Cons.prems by (simp add: Let_def)
    next
      case False
      then show ?thesis using Cons by (simp add: Let_def)
    qed
  qed simp
qed

lemma carve_metadata_correct:
  assumes "map_ok es" "4096 dvd unat n"
  shows "map_ok (snd (carve_metadata n es)) \<and> map_pages (snd (carve_metadata n es)) \<subseteq> map_pages es \<and>
    (\<forall>e\<in>set (snd (carve_metadata n es)). me_usable e \<longrightarrow>
       (\<exists>e'\<in>set es. me_usable e' \<and> me_base e + me_length e = me_base e' + me_length e'))"
  using assms(1)
proof (induction es)
  case Nil
  then show ?case by simp
next
  case (Cons e es)
  have ok: "entry_ok e" "map_ok es" "entry_pages e \<inter> map_pages es = {}"
    using Cons.prems by (simp_all add: map_ok_Cons)
  show ?case
  proof (cases "me_usable e \<and> n \<le> me_length e")
    case False
    then show ?thesis
      using Cons.IH ok by (auto simp: map_ok_Cons map_pages_Cons split: prod.splits)
  next
    case True
    let ?e = "e\<lparr>me_base := me_base e + n, me_length := me_length e - n\<rparr>"
    have n: "unat n \<le> unat (me_length e)" using True by (simp add: word_le_nat_alt)
    have l: "unat (me_length e - n) = unat (me_length e) - unat n" using True by (simp add: unat_sub)
    have b: "unat (me_base e + n) = unat (me_base e) + unat n"
      using ok(1) True n by (subst unat_add_lem [THEN iffD1]) (auto simp: entry_ok_def)
    have "entry_ok ?e" using ok(1) True n l b assms(2) by (auto simp: entry_ok_def)
    moreover have "entry_pages ?e \<subseteq> entry_pages e"
      using True n l b by (auto simp: entry_pages_def)
    ultimately show ?thesis
      using True ok by (auto simp: map_ok_Cons map_pages_Cons)
  qed
qed

lemma metadata_span_aligned: "4096 dvd unat (metadata_span c)"
proof -
  have "take_bit 12 (push_bit 12 (drop_bit 12 x)) = 0" for x :: u64
    by (rule bit_word_eqI) (simp add: bit_simps)
  then have "x div 4096 * 4096 AND PAGE_MASK = 0" for x :: u64
    by (simp add: push_bit_eq_mult drop_bit_eq_div take_bit_eq_mod page_consts and_4095)
  then show ?thesis by (simp add: metadata_span_def page_consts(1) Let_def flip: page_aligned_iff)
qed

lemma pmm_reset_inv:
  assumes "n \<le> 2 ^ 52"
  shows "pmm_inv (pmm_reset s n)" "free_set (pmm_reset s n) = {}" "pfn_count (pmm_reset s n) = n"
proof -
  let ?s = "pmm_reset s n"
  have bh: "block_heads ?s = {}" by (auto simp: block_heads_def isfree_def pmm_reset_def)
  show fs: "free_set ?s = {}" by (simp add: free_set_def bh)
  have "lists_ok ?s" unfolding lists_ok_def heads_def bh dlls_def
    by (auto simp: pmm_reset_def PMM_MAX_ORDER_def intro!: exI [of _ "[]"])
  moreover have "blocks_ok ?s" unfolding blocks_ok_def bh using assms by (simp add: pmm_reset_def)
  moreover have "stats_ok ?s" unfolding stats_ok_def fs bh by (simp add: pmm_reset_def)
  moreover have "zero_ok ?s" by (simp add: zero_ok_def fs)
  ultimately show "pmm_inv ?s" by (simp add: pmm_inv_def)
  show "pfn_count ?s = n" by (simp add: pmm_reset_def)
qed

lemma pmm_inv_total [simp]:
  "pmm_inv (s\<lparr>stats := (stats s)\<lparr>total_pages := x\<rparr>\<rparr>) = pmm_inv s"
  "free_set (s\<lparr>stats := (stats s)\<lparr>total_pages := x\<rparr>\<rparr>) = free_set s"
  "pmm_inv (s\<lparr>mm_zero_page := y\<rparr>) = pmm_inv s" "free_set (s\<lparr>mm_zero_page := y\<rparr>) = free_set s"
  by (simp_all add: pmm_inv_def lists_ok_def blocks_ok_def stats_ok_def zero_ok_def heads_def
      block_heads_def free_set_def isfree_def)

text \<open>A single page can be had whenever some page is free.\<close>

lemma free_set_heads:
  assumes "pmm_inv s" "free_set s \<noteq> {}"
  shows "\<exists>z k. k < 11 \<and> heads s z k \<noteq> {}"
proof -
  from assms(2) obtain p where p: "p \<in> block_heads s" by (auto simp: free_set_def)
  then have "pfn_order s p < 11" using assms(1) by (simp add: pmm_inv_def blocks_ok_def block_fits_def)
  moreover have "p \<in> heads s (pzone p) (pfn_order s p)" using p by (simp add: heads_def)
  ultimately show ?thesis by blast
qed

lemma pmm_init_result:
  assumes ok: "map_ok es" and pa: "fst (carve_metadata (metadata_span (highest_end es 0 div PAGE_SIZE)) es) \<noteq> 0"
    and U: "U = map_pages (snd (carve_metadata (metadata_span (highest_end es 0 div PAGE_SIZE)) es))"
    and ne: "U \<noteq> {}"
  shows "\<exists>s'. pmm_init s (Some es) = Some s' \<and> pmm_inv s' \<and> mm_zero_page s' \<noteq> 0 \<and>
    pa_to_pfn (mm_zero_page s') \<in> U \<and> free_set s' = U - {pa_to_pfn (mm_zero_page s')} \<and> U \<subseteq> map_pages es"
proof -
  let ?h = "highest_end es 0"
  let ?c = "?h div PAGE_SIZE"
  let ?cm = "carve_metadata (metadata_span ?c) es"
  note carve = carve_metadata_correct [OF ok metadata_span_aligned, of ?c]
  have c: "unat ?c = unat ?h div 4096" by (simp add: page_consts unat_div)
  have c52: "unat ?c \<le> 2 ^ 52" using unat64_less [of ?h] by (simp add: c)
  have ends: "unat (me_base e + me_length e) div 4096 \<le> unat ?c" if "e \<in> set (snd ?cm)" "me_usable e" for e
  proof -
    from that carve obtain e' where "e' \<in> set es" "me_usable e'" "me_base e + me_length e = me_base e' + me_length e'"
      by blast
    then have "me_base e + me_length e \<le> ?h" using highest_end_entry by metis
    then show ?thesis unfolding c by (simp add: word_le_nat_alt div_le_mono)
  qed
  let ?s1 = "feed_ranges (pmm_reset s (unat ?c)) (snd ?cm)"
  note reset = pmm_reset_inv [OF c52, of s]
  have s1: "pmm_inv ?s1" "free_set ?s1 = U"
    using feed_ranges_correct [OF reset(1), of "snd ?cm"] carve ends reset(2,3) U by auto
  let ?s2 = "?s1\<lparr>stats := (stats ?s1)\<lparr>total_pages := free_pages (stats ?s1)\<rparr>\<rparr>"
  let ?al = "pmm_alloc_zeroed_pages ?s2 0"
  have al: "alloc_result ?s2 UNIV 0 (fst ?al) (snd ?al)"
    using pmm_alloc_result [of ?s2 0] s1 by (simp add: pmm_alloc_zeroed_pages_def)
  have "fst ?al \<noteq> 0"
    using al free_set_heads [of ?s2] s1 ne by (auto simp: alloc_result_def)
  with al s1 have r: "blk (pa_to_pfn (fst ?al)) 0 \<subseteq> U" "pmm_inv (snd ?al)"
    "free_set (snd ?al) = U - blk (pa_to_pfn (fst ?al)) 0" by (auto simp: alloc_result_def)
  have b: "blk p 0 = {p}" for p by (auto simp: blk_def)
  have h0: "?h \<noteq> 0"
  proof
    assume "?h = 0"
    then have "unat (me_base e + me_length e) = 0" if "e \<in> set es" "me_usable e" for e
      using highest_end_entry [OF that, of 0] by (simp add: word_le_nat_alt)
    then have "entry_pages e = {}" if "e \<in> set es" for e
      using that ok entry_end [of e] by (auto simp: entry_pages_def map_ok_def)
    then show False using ne U carve by (auto simp: map_pages_def)
  qed
  have "pmm_init s (Some es) = Some ((snd ?al)\<lparr>mm_zero_page := fst ?al\<rparr>)"
    using h0 pa \<open>fst ?al \<noteq> 0\<close> by (simp add: pmm_init_def Let_def case_prod_unfold)
  then show ?thesis using r b \<open>fst ?al \<noteq> 0\<close> carve U by simp
qed

section \<open>Properties of the page allocator\<close>

text \<open>A machine of 64 page frames whose frames 16 to 31 are one free block.\<close>

definition pmm_blank :: pmm_state where
  "pmm_blank = \<lparr>pfn_flags = (\<lambda>_. 0), pfn_order = (\<lambda>_. 0), pfn_refcount = (\<lambda>_. 0), pfn_next = (\<lambda>_. 0),
     pfn_prev = (\<lambda>_. 0), pfn_count = 0, free_list_head = (\<lambda>_ _. 0),
     stats = \<lparr>total_pages = 0, free_pages = 0, free_by_order = (\<lambda>_. 0), zone_total = (\<lambda>_. 0),
       zone_free = (\<lambda>_. 0)\<rparr>, mm_zero_page = 0, pmem = (\<lambda>_. 0)\<rparr>"

definition pmm_sample :: pmm_state where
  "pmm_sample = pmm_register_block (pmm_reset pmm_blank 64) 16 4"

lemma pmm_sample_inv:
  "pmm_inv pmm_sample" "free_set pmm_sample = {16..<32}" "pfn_count pmm_sample = 64"
  "pfn_refcount pmm_sample = (\<lambda>_. 0)" "mm_zero_page pmm_sample = 0"
proof -
  have "block_fits (pfn_count (pmm_reset pmm_blank 64)) 16 4"
    by (simp add: block_fits_def pmm_reset_def)
  note r = pmm_register_block_correct [OF pmm_reset_inv(1) this] pmm_reset_inv(2,3) [of 64 pmm_blank]
  show "pmm_inv pmm_sample" "free_set pmm_sample = {16..<32}" "pfn_count pmm_sample = 64"
    using r by (auto simp: pmm_sample_def blk_def)
  show "pfn_refcount pmm_sample = (\<lambda>_. 0)" "mm_zero_page pmm_sample = 0"
    by (simp_all add: pmm_sample_def pmm_register_block_def pmm_reset_def pmm_blank_def Let_def fun_eq_iff)
qed

lemma pmm_sample_head: "isfree pmm_sample 16" "pfn_order pmm_sample 16 = 4"
  by (simp_all add: pmm_sample_def pmm_register_block_def Let_def isfree_def list_push_def)

text \<open>Two free blocks with an allocated one between them: 16 to 31 and 48 to 63.\<close>

lemma register_flags:
  "isfree (pmm_register_block s p k) q \<longleftrightarrow> q = p \<or> isfree s q" "pfn_order (pmm_register_block s p k) = (pfn_order s)(p := k)"
  by (simp_all add: pmm_register_block_def Let_def isfree_def list_push_def)

definition pmm_sample2 :: pmm_state where
  "pmm_sample2 = pmm_register_block pmm_sample 48 4"

lemma pmm_sample2_inv:
  "pmm_inv pmm_sample2" "free_set pmm_sample2 = {16..<32} \<union> {48..<64}" "pfn_count pmm_sample2 = 64" "coalesced pmm_sample2"
proof -
  have "block_fits (pfn_count pmm_sample) 48 4" "blk 48 4 \<inter> free_set pmm_sample = {}"
    by (auto simp: block_fits_def pmm_sample_inv blk_def)
  note r = pmm_register_block_correct [OF pmm_sample_inv(1) this]
  show "pmm_inv pmm_sample2" "free_set pmm_sample2 = {16..<32} \<union> {48..<64}" "pfn_count pmm_sample2 = 64"
    using r by (auto simp: pmm_sample2_def pmm_sample_inv blk_def)
  have "isfree pmm_sample2 q \<longleftrightarrow> q = 16 \<or> q = 48" for q
    by (simp add: pmm_sample2_def pmm_sample_def register_flags) (auto simp: isfree_def pmm_reset_def pmm_blank_def)
  then have h: "block_heads pmm_sample2 = {16, 48}" using \<open>pfn_count pmm_sample2 = 64\<close> by (auto simp: block_heads_def)
  have o: "pfn_order pmm_sample2 16 = 4" "pfn_order pmm_sample2 48 = 4"
    using pmm_sample_head(2) by (simp_all add: pmm_sample2_def register_flags)
  show "coalesced pmm_sample2" unfolding coalesced_def mergeable_def h by (simp add: o buddy_pfn_def)
qed

text \<open>
  C5. A request for a block of a valid order either fails, and then no free list from that
  order up holds a block and nothing changed, or returns the address of an aligned block of
  free pages, every byte of which is zero, takes exactly those pages from the free set, and
  keeps the invariant of the lists, the blocks and the counters.
\<close>

theorem pmm_alloc_pages_correct:
  assumes "pmm_inv s" "k < 11"
  shows "alloc_result s UNIV k (fst (pmm_alloc_pages s (int k))) (snd (pmm_alloc_pages s (int k)))"
  using assms by (rule pmm_alloc_result)

theorem pmm_alloc_pages_correct_witness:
  "alloc_result pmm_sample UNIV 1 (fst (pmm_alloc_pages pmm_sample 1)) (snd (pmm_alloc_pages pmm_sample 1))"
  using pmm_alloc_pages_correct [OF pmm_sample_inv(1), of 1] by simp

text \<open>
  C6. Releasing an aligned block that is in range and shares no page with the free set never
  panics; it adds exactly those pages to the free set, clears their bytes and no others, keeps
  the invariant, and touches no reference count. The released pages end up in one free block whose
  buddy is not a free block of the same order, and if no block could be merged before, none can be
  merged after.
\<close>

theorem pmm_free_pages_correct:
  assumes "pmm_inv s" "block_fits (pfn_count s) p k" "blk p k \<inter> free_set s = {}"
  shows "\<exists>s'. pmm_free_pages s (pfn_to_pa p) (int k) = Some s' \<and> pmm_inv s' \<and>
    free_set s' = free_set s \<union> blk p k \<and> pfn_refcount s' = pfn_refcount s \<and>
    pfn_count s' = pfn_count s \<and> mm_zero_page s' = mm_zero_page s \<and>
    (\<forall>x. pmem s' x = (if p * 4096 \<le> x \<and> x < p * 4096 + 2 ^ (12 + k) then 0 else pmem s x)) \<and>
    merged_at s' p k \<and> (coalesced s \<longrightarrow> coalesced s')"
  using pmm_free_result [OF assms] pmm_free_merged [OF assms] by blast

theorem pmm_free_pages_correct_witness:
  "\<exists>s'. pmm_free_pages pmm_sample2 (pfn_to_pa 32) (int 4) = Some s' \<and> pmm_inv s' \<and> free_set s' = {16..<64} \<and>
    coalesced s' \<and> (\<exists>b\<in>block_heads s'. 5 \<le> pfn_order s' b \<and> {32..<64} \<subseteq> blk b (pfn_order s' b))"
proof -
  have "block_fits (pfn_count pmm_sample2) 32 4" "blk 32 4 \<inter> free_set pmm_sample2 = {}"
    by (auto simp: pmm_sample2_inv block_fits_def blk_def)
  then obtain s' where s': "pmm_free_pages pmm_sample2 (pfn_to_pa 32) (int 4) = Some s'" "pmm_inv s'"
    "free_set s' = free_set pmm_sample2 \<union> blk 32 4" "coalesced s'"
    using pmm_free_pages_correct [OF pmm_sample2_inv(1), of 32 4] pmm_sample2_inv(4) by auto
  have "({16..<32} \<union> {48..<64}) \<union> {32..<48} = ({16..<32} \<union> {32..<48}) \<union> {48..<(64 :: nat)}" by (simp only: Un_ac)
  also have "\<dots> = {16..<64}" by (simp add: ivl_disj_un_two)
  finally have fs: "free_set s' = {16..<64}" using s'(3) by (simp add: pmm_sample2_inv blk_def)
  have "blk 32 5 = {32..<64}" by (simp add: blk_def)
  then have "\<exists>b\<in>block_heads s'. 5 \<le> pfn_order s' b \<and> {32..<64} \<subseteq> blk b (pfn_order s' b)"
    using coalesced_block [of s' 5 32] s'(2,4) fs by (auto simp: pmm_inv_def)
  then show ?thesis using s' fs by blast
qed

text \<open>
  C25. Allocating a block and releasing it at once restores the set of free pages, the number of
  free pages, and the number of free pages of each zone. If no block could be merged before, it
  restores the free blocks as well, with their orders, and so the number of free blocks of each
  order.
\<close>

theorem pmm_alloc_free_roundtrip:
  assumes inv: "pmm_inv s" and k: "k < 11" and al: "pmm_alloc_pages s (int k) = (pa, s1)" "pa \<noteq> 0"
  shows "\<exists>s2. pmm_free_pages s1 pa (int k) = Some s2 \<and> pmm_inv s2 \<and> free_set s2 = free_set s \<and>
    free_pages (stats s2) = free_pages (stats s) \<and> zone_free (stats s2) = zone_free (stats s) \<and>
    (coalesced s \<longrightarrow> block_heads s2 = block_heads s \<and> (\<forall>b\<in>block_heads s. pfn_order s2 b = pfn_order s b) \<and>
       free_by_order (stats s2) = free_by_order (stats s))"
proof -
  let ?p = "pa_to_pfn pa"
  have r: "pfn_to_pa ?p = pa" "block_fits (pfn_count s) ?p k" "blk ?p k \<subseteq> free_set s"
    "free_set s1 = free_set s - blk ?p k" "pmm_inv s1" "pmm_frame s s1"
    using pmm_alloc_result [OF inv k] al by (auto simp: alloc_result_def)
  have "\<exists>s2. pmm_free_pages s1 pa (int k) = Some s2 \<and> pmm_inv s2 \<and> free_set s2 = free_set s1 \<union> blk ?p k"
    using pmm_free_result [OF r(5), of ?p k] r by (auto simp: pmm_frame_def)
  then obtain s2 where s2: "pmm_free_pages s1 pa (int k) = Some s2" "pmm_inv s2" "free_set s2 = free_set s"
    using r(3,4) by auto
  have "coalesced s2" if "coalesced s"
    using pmm_free_merged(2) [OF r(5), of ?p k s2] pmm_alloc_coalesced [OF inv k that] r s2(1) al(1) by (auto simp: pmm_frame_def)
  then have co: "coalesced s \<longrightarrow> block_heads s2 = block_heads s \<and> (\<forall>b\<in>block_heads s. pfn_order s2 b = pfn_order s b) \<and>
      free_by_order (stats s2) = free_by_order (stats s)"
    using coalesced_stats [OF inv _ s2(2) _ s2(3)] by blast
  have "free_pages (stats s2) = free_pages (stats s)" "zone_free (stats s2) = zone_free (stats s)"
    using s2(2,3) inv by (simp_all add: pmm_inv_def stats_ok_def fun_eq_iff)
  then show ?thesis using s2 co by blast
qed

theorem pmm_alloc_free_roundtrip_witness:
  "\<exists>pa s1 s2. pmm_alloc_pages pmm_sample (int 2) = (pa, s1) \<and> pa \<noteq> 0 \<and>
    pmm_free_pages s1 pa (int 2) = Some s2 \<and> pmm_inv s2 \<and> free_set s2 = {16..<32}"
proof -
  obtain pa s1 where al: "pmm_alloc_pages pmm_sample (int 2) = (pa, s1)" by (cases "pmm_alloc_pages pmm_sample (int 2)")
  have "16 \<in> heads pmm_sample PMM_ZONE_DMA 4"
    by (simp add: heads_def block_heads_def pmm_sample_inv pmm_sample_head pzone_def)
  then have "heads pmm_sample PMM_ZONE_DMA 4 \<noteq> {}" by blast
  then have "pa \<noteq> 0"
    using pmm_alloc_result [OF pmm_sample_inv(1), of 2] al by (auto simp: alloc_result_def)
  then show ?thesis
    using pmm_alloc_free_roundtrip [OF pmm_sample_inv(1) _ al] al pmm_sample_inv(2) by auto
qed

text \<open>
  C30. A DMA request never returns a page at or above 16 MiB: the block it returns, when it does
  not fail, lies below that address as a whole.
\<close>

theorem pmm_alloc_dma_below_16M:
  assumes "pmm_inv s" "k < 11"
  shows "\<exists>pa s'. pmm_alloc_dma s (int k) = Some (pa, s') \<and>
    (pa = 0 \<and> s' = s \<or> pmm_inv s' \<and> free_set s' = free_set s - blk (pa_to_pfn pa) k \<and>
       blk (pa_to_pfn pa) k \<subseteq> free_set s \<and> (\<forall>q\<in>blk (pa_to_pfn pa) k. q < 4096))"
proof -
  obtain pa s' where r: "pmm_alloc_dma s (int k) = Some (pa, s')" "alloc_result s {PMM_ZONE_DMA} k pa s'"
    using pmm_alloc_dma_result [OF assms] by blast
  have "q < 4096" if "alloc_result s {PMM_ZONE_DMA} k pa s'" "pa \<noteq> 0" "q \<in> blk (pa_to_pfn pa) k" for q
    using that blk_zone [of "pfn_count s" "pa_to_pfn pa" k q]
    by (auto simp: alloc_result_def pzone_def split: if_splits)
  with r show ?thesis by (fastforce simp: alloc_result_def)
qed

theorem pmm_alloc_dma_below_16M_witness:
  "\<exists>pa s'. pmm_alloc_dma pmm_sample (int 3) = Some (pa, s') \<and>
    (pa = 0 \<and> s' = pmm_sample \<or> pmm_inv s' \<and> free_set s' = {16..<32} - blk (pa_to_pfn pa) 3 \<and>
       blk (pa_to_pfn pa) 3 \<subseteq> {16..<32} \<and> (\<forall>q\<in>blk (pa_to_pfn pa) 3. q < 4096))"
  using pmm_alloc_dma_below_16M [OF pmm_sample_inv(1), of 3] pmm_sample_inv(2) by simp

text \<open>
  C31. Dropping a reference to a user page in use never panics. It lowers the count by one; with
  the last reference the page, and only it, joins the free set with its bytes cleared. Taking a
  reference undoes a drop of a shared page.
\<close>

theorem pmm_put_user_page_correct:
  assumes inv: "pmm_inv s" and u: "user_page s p"
  shows "\<exists>s'. pmm_put_user_page s (pfn_to_pa p) = Some s' \<and> pmm_inv s' \<and>
    pfn_refcount s' = (pfn_refcount s)(p := pfn_refcount s p - 1) \<and>
    free_set s' = free_set s \<union> (if pfn_refcount s p = 1 then {p} else {}) \<and>
    (\<forall>x. pmem s' x = (if pfn_refcount s p = 1 \<and> x div 4096 = p then 0 else pmem s x)) \<and>
    (pfn_refcount s p \<noteq> 1 \<longrightarrow> pmm_get_user_page s' (pfn_to_pa p) = Some s)"
proof -
  obtain s' where s': "pmm_put_user_page s (pfn_to_pa p) = Some s'" "pmm_inv s'"
    "pfn_refcount s' = (pfn_refcount s)(p := pfn_refcount s p - 1)"
    "free_set s' = free_set s \<union> (if pfn_refcount s p = 1 then {p} else {})"
    "\<forall>x. pmem s' x = (if pfn_refcount s p = 1 \<and> x div 4096 = p then 0 else pmem s x)"
    using pmm_put_result [OF inv u] by blast
  have "pmm_get_user_page s' (pfn_to_pa p) = Some s" if ne: "pfn_refcount s p \<noteq> 1"
  proof -
    have "p < 2 ^ 52" using inv u by (auto simp: pmm_inv_def blocks_ok_def user_page_def)
    then have "s' = s\<lparr>pfn_refcount := (pfn_refcount s)(p := pfn_refcount s p - 1)\<rparr>"
      using s'(1) ne u user_page_not_free [OF u] by (simp add: pmm_put_user_page_def user_page_def isfree_def)
    moreover have "pfn_refcount s p - 1 \<noteq> 0xFFFF"
      using u ne by (auto simp: user_page_def diff_eq_eq)
    ultimately show ?thesis
      using pmm_get_result [of s' p] s'(2) u ne by (simp add: user_page_def)
  qed
  with s' show ?thesis by blast
qed

theorem pmm_put_user_page_correct_witness:
  "\<exists>s'. pmm_put_user_page (pmm_sample\<lparr>pfn_refcount := (\<lambda>_. 0)(40 := 1)\<rparr>) (pfn_to_pa 40) = Some s' \<and>
     free_set s' = {16..<32} \<union> {40}"
proof -
  let ?s = "pmm_sample\<lparr>pfn_refcount := (\<lambda>_. 0)(40 := 1)\<rparr>"
  have "pmm_inv ?s" "user_page ?s 40"
    using pmm_sample_inv by (simp_all add: user_page_def pfn_to_pa_eq_0)
  from pmm_put_user_page_correct [OF this] show ?thesis using pmm_sample_inv by auto
qed



end
