(* ===== verification/Slab_Inv.thy ===== *)
theory Slab_Inv
  imports Slab Pmm_Boot
begin

text \<open>
  The invariant of the slab allocator of \<^verbatim>\<open>kernel/mm/slab.c\<close> and what its operations do to the
  set of live objects.
\<close>

section \<open>Geometry\<close>

lemma align_down_power: "align_down x (2 ^ k) = x div 2 ^ k * 2 ^ k"
proof -
  have "a AND NOT (mask k) = push_bit k (drop_bit k a)" for a :: int
    by (rule bit_eqI) (auto simp: bit_simps)
  then have "int x AND NOT (2 ^ k - 1) = int x div 2 ^ k * 2 ^ k"
    by (simp add: push_bit_eq_mult drop_bit_eq_div mask_eq_exp_minus_1)
  also have "\<dots> = int (x div 2 ^ k * 2 ^ k)" by (simp add: zdiv_int)
  finally have "int x AND NOT (int (2 ^ k) - 1) = int (x div 2 ^ k * 2 ^ k)" by simp
  then show ?thesis unfolding align_down_def by (simp only: nat_int)
qed

lemma align_down_page: "align_down x 4096 = x div 4096 * 4096"
  using align_down_power [of x 12] by simp

text \<open>A cache that can hold an object: a power-of-two alignment and room for one object in a page.\<close>

definition slab_off :: "kmem_state \<Rightarrow> nat \<Rightarrow> nat" where
  "slab_off s c = (sizeof_slab_page + c_align s c - 1) div c_align s c * c_align s c"

definition slab_cap :: "kmem_state \<Rightarrow> nat \<Rightarrow> nat" where
  "slab_cap s c = min 512 ((4096 - slab_off s c) div c_object_size s c)"

definition cache_ok :: "kmem_state \<Rightarrow> nat \<Rightarrow> bool" where
  "cache_ok s c \<longleftrightarrow> (\<exists>k\<le>12. c_align s c = 2 ^ k) \<and> 0 < c_object_size s c \<and>
     slab_off s c + c_object_size s c \<le> 4096"

definition obj_addr :: "kmem_state \<Rightarrow> nat \<Rightarrow> ptr \<Rightarrow> nat \<Rightarrow> ptr" where
  "obj_addr s c sp i = sp + slab_off s c + i * c_object_size s c"

lemma first_object_eq:
  assumes "cache_ok s c" "4096 dvd sp"
  shows "first_object s c sp = sp + slab_off s c"
proof -
  from assms obtain k where k: "k \<le> 12" "c_align s c = 2 ^ k" by (auto simp: cache_ok_def)
  have "(2 :: nat) ^ k dvd 2 ^ 12" using k(1) by (rule le_imp_power_dvd)
  then have "2 ^ k dvd (4096 :: nat)" by simp
  then have "2 ^ k dvd sp" using assms(2) by (rule dvd_trans)
  then obtain m where m: "sp = 2 ^ k * m" by (auto elim: dvdE)
  have "2 ^ k * m + sizeof_slab_page + 2 ^ k - 1 = (sizeof_slab_page + 2 ^ k - 1) + m * 2 ^ k"
    by (simp add: sizeof_slab_page_def)
  then have "(2 ^ k * m + sizeof_slab_page + 2 ^ k - 1) div 2 ^ k = m + (sizeof_slab_page + 2 ^ k - 1) div 2 ^ k"
    by (simp only: div_mult_self1 power_not_zero zero_neq_numeral simp_thms)
  then show ?thesis
    unfolding first_object_def slab_off_def Let_def k(2) m
    by (simp add: align_down_power algebra_simps)
qed

lemma slab_cap_pos: "cache_ok s c \<Longrightarrow> 0 < slab_cap s c"
  by (auto simp: slab_cap_def cache_ok_def div_greater_zero_iff)

lemma obj_in_page:
  assumes "cache_ok s c" "i < slab_cap s c"
  shows "slab_off s c + i * c_object_size s c + c_object_size s c \<le> 4096"
proof -
  have "i + 1 \<le> (4096 - slab_off s c) div c_object_size s c" using assms(2) by (simp add: slab_cap_def)
  then have "(i + 1) * c_object_size s c \<le> 4096 - slab_off s c"
    by (meson div_times_less_eq_dividend le_trans mult_le_mono1)
  moreover have "slab_off s c \<le> 4096" using assms(1) by (simp add: cache_ok_def)
  ultimately show ?thesis by simp
qed

lemma obj_addr_page:
  assumes "cache_ok s c" "i < slab_cap s c" "4096 dvd sp"
  shows "align_down (obj_addr s c sp i) 4096 = sp"
proof -
  from assms(3) obtain m where m: "sp = 4096 * m" by (auto elim: dvdE)
  have "slab_off s c + i * c_object_size s c < 4096"
    using obj_in_page [OF assms(1,2)] assms(1) by (auto simp: cache_ok_def)
  then show ?thesis by (simp add: align_down_page obj_addr_def m add.assoc)
qed

lemma obj_addr_index:
  assumes "cache_ok s c"
  shows "(obj_addr s c sp i - (sp + slab_off s c)) div c_object_size s c = i"
  using assms by (simp add: obj_addr_def cache_ok_def)

lemma slab_off_ge: "cache_ok s c \<Longrightarrow> sizeof_slab_page \<le> slab_off s c"
proof -
  assume "cache_ok s c"
  then have a: "0 < c_align s c" by (auto simp: cache_ok_def)
  have "sizeof_slab_page + c_align s c - 1 < slab_off s c + c_align s c"
    unfolding slab_off_def using a by (metis add.commute dividend_less_div_times mult.commute)
  then show ?thesis by linarith
qed

section \<open>The bitmap of a slab\<close>

definition slab_bit :: "kmem_state \<Rightarrow> ptr \<Rightarrow> nat \<Rightarrow> bool" where
  "slab_bit s sp i \<longleftrightarrow> i < 512 \<and> bit (sp_bitmap s sp (i div 64)) (i mod 64)"

lemma takeWhile_short: "\<exists>x\<in>set xs. \<not> P x \<Longrightarrow> length (takeWhile P xs) < length xs"
  by (induction xs) auto

lemma ctz_correct:
  assumes "b \<noteq> 0"
  shows "ctz b < 64" "bit b (ctz b)" "\<And>n. n < ctz b \<Longrightarrow> \<not> bit b n"
proof -
  let ?P = "\<lambda>n. \<not> bit b n"
  obtain n where n: "bit b n" using assms by (metis bit_eq_iff bit_0_eq bot_apply bot_bool_def)
  then have "n < 64" using bit_imp_le_length by force
  then have ex: "\<exists>n\<in>set [0..<64]. \<not> ?P n" using n by auto
  then have "length (takeWhile ?P [0..<64]) < length [0..<64]" by (rule takeWhile_short)
  then show l: "ctz b < 64" by (simp add: ctz_def)
  have "\<not> ?P ([0..<64] ! length (takeWhile ?P [0..<64]))"
    using nth_length_takeWhile [of ?P "[0..<64]"] l by (simp add: ctz_def)
  then show "bit b (ctz b)" using l by (simp add: ctz_def)
  fix n assume "n < ctz b"
  then show "\<not> bit b n"
    using takeWhile_nth [of n ?P "[0..<64]"] nth_mem [of n "takeWhile ?P [0..<64]"] l
      set_takeWhileD [of n ?P "[0..<64]"] by (simp add: ctz_def)
qed

definition mark :: "kmem_state \<Rightarrow> ptr \<Rightarrow> nat \<Rightarrow> kmem_state" where
  "mark s sp i = s\<lparr>sp_bitmap := (sp_bitmap s)(sp := (sp_bitmap s sp)(i div 64 :=
       sp_bitmap s sp (i div 64) OR push_bit (i mod 64) 1)), sp_used := (sp_used s)(sp := sp_used s sp + 1)\<rparr>"

definition unmark :: "kmem_state \<Rightarrow> ptr \<Rightarrow> nat \<Rightarrow> kmem_state" where
  "unmark s sp i = s\<lparr>sp_bitmap := (sp_bitmap s)(sp := (sp_bitmap s sp)(i div 64 :=
       sp_bitmap s sp (i div 64) AND NOT (push_bit (i mod 64) 1))), sp_used := (sp_used s)(sp := sp_used s sp - 1)\<rparr>"

lemma slab_bit_mark: "i < 512 \<Longrightarrow> slab_bit (mark s sp i) q j \<longleftrightarrow> slab_bit s q j \<or> q = sp \<and> j = i"
proof -
  assume i: "i < 512"
  have "j div 64 = i div 64 \<and> j mod 64 = i mod 64 \<longleftrightarrow> j = i" by (metis div_mult_mod_eq)
  then show ?thesis using i
    by (auto simp: slab_bit_def mark_def bit_simps)
qed

lemma slab_bit_unmark: "slab_bit (unmark s sp i) q j \<longleftrightarrow> slab_bit s q j \<and> \<not> (q = sp \<and> j = i)"
proof -
  have "j div 64 = i div 64 \<and> j mod 64 = i mod 64 \<longleftrightarrow> j = i" by (metis div_mult_mod_eq)
  then show ?thesis by (auto simp: slab_bit_def unmark_def bit_simps)
qed

lemma free_in_slab_eq: "slab_bit s sp i \<Longrightarrow> free_in_slab s sp i = Some (unmark s sp i)"
  by (simp add: free_in_slab_def slab_bit_def unmark_def Let_def push_bit_of_1 and_exp_eq_0_iff_not_bit)

lemma free_in_slab_panics: "i < 512 \<Longrightarrow> \<not> slab_bit s sp i \<Longrightarrow> free_in_slab s sp i = None"
  by (simp add: free_in_slab_def slab_bit_def Let_def push_bit_of_1 and_exp_eq_0_iff_not_bit)

lemma alloc_scan_correct:
  assumes "sp_capacity s sp \<le> 512" "\<forall>i<w * 64. slab_bit s sp i" "\<exists>i < sp_capacity s sp. \<not> slab_bit s sp i"
  shows "\<exists>i < sp_capacity s sp. \<not> slab_bit s sp i \<and> alloc_scan s sp w = Some (i, mark s sp i)"
  using assms
proof (induction s sp w rule: alloc_scan.induct)
  case (1 s sp w)
  let ?b = "sp_bitmap s sp w"
  have w: "w < 8"
  proof (rule ccontr)
    assume "\<not> w < 8"
    then have "512 \<le> w * 64" by simp
    then show False using 1(2-4) by (meson less_le_trans)
  qed
  have word: "slab_bit s sp (w * 64 + n) \<longleftrightarrow> bit ?b n" if "n < 64" for n
    using that w by (simp add: slab_bit_def)
  show ?case
  proof (cases "?b = - 1")
    case True
    have "slab_bit s sp i" if "i < (w + 1) * 64" for i
    proof (cases "i < w * 64")
      case False
      then have "i = w * 64 + (i - w * 64)" "i - w * 64 < 64" using that by auto
      then show ?thesis using word [of "i - w * 64"] True by simp
    qed (use 1(3) in blast)
    then show ?thesis
      using 1(1) [OF _ refl True] 1(2,4) w True by (subst alloc_scan.simps) (simp add: SLAB_BITMAP_WORDS_def)
  next
    case False
    let ?n = "ctz (NOT ?b)"
    have nz: "NOT ?b \<noteq> 0" using False by (metis bit.compl_eq_compl_iff bit.compl_one bit.compl_zero bit.double_compl)
    note z = ctz_correct [OF nz]
    have nb: "\<not> bit ?b ?n" using z(1,2) by (simp add: bit_simps)
    have lower: "slab_bit s sp i" if "i < w * 64 + ?n" for i
    proof (cases "i < w * 64")
      case False
      let ?m = "i - w * 64"
      have m: "i = w * 64 + ?m" "?m < ?n" "?m < 64" using that False z(1) by auto
      then have "bit ?b ?m" using z(3) [OF m(2)] by (simp add: bit_simps)
      then show ?thesis using word [OF m(3)] m(1) by simp
    qed (use 1(3) in blast)
    then have cap: "w * 64 + ?n < sp_capacity s sp" using 1(4) by (meson le_less_trans not_le)
    have "alloc_scan s sp w = Some (w * 64 + ?n, mark s sp (w * 64 + ?n))"
      using w False cap z(1) by (subst alloc_scan.simps) (simp add: SLAB_BITMAP_WORDS_def Let_def mark_def)
    moreover have "\<not> slab_bit s sp (w * 64 + ?n)" using word [OF z(1)] nb by simp
    ultimately show ?thesis using cap by blast
  qed
qed

section \<open>The invariant\<close>

definition pg :: "kmem_state \<Rightarrow> ptr \<Rightarrow> nat" where
  "pg s v = (v - hhdm s) div 4096"

definition at_page :: "kmem_state \<Rightarrow> ptr \<Rightarrow> bool" where
  "at_page s v \<longleftrightarrow> v = hhdm s + pg s v * 4096 \<and> 0 < pg s v \<and> pg s v < pfn_count (pmm s)"

definition owned :: "kmem_state \<Rightarrow> ptr \<Rightarrow> bool" where
  "owned s h \<longleftrightarrow> sp_cache s h \<noteq> None \<or> lh_magic s h = LARGE_MAGIC"

text \<open>The page frames behind a header.\<close>

definition kpages :: "kmem_state \<Rightarrow> ptr \<Rightarrow> nat set" where
  "kpages s h = (if sp_cache s h \<noteq> None then {pg s h}
     else if lh_magic s h = LARGE_MAGIC then blk (pg s h) (lh_order s h) else {})"

definition slab_ok :: "kmem_state \<Rightarrow> ptr \<Rightarrow> nat \<Rightarrow> bool" where
  "slab_ok s sp c \<longleftrightarrow> c < cache_count s \<and> pmem (pmm s) (pg s sp * 4096) = PAGE_KIND_SLAB \<and>
     sp_capacity s sp = slab_cap s c \<and> (\<forall>i. slab_bit s sp i \<longrightarrow> i < slab_cap s c) \<and>
     sp_used s sp = card {i. slab_bit s sp i}"

definition large_ok :: "kmem_state \<Rightarrow> ptr \<Rightarrow> bool" where
  "large_ok s h \<longleftrightarrow> sp_cache s h = None \<and> block_fits (pfn_count (pmm s)) (pg s h) (lh_order s h) \<and>
     pmem (pmm s) (pg s h * 4096) = PAGE_KIND_LARGE"

definition kmem_core :: "kmem_state \<Rightarrow> bool" where
  "kmem_core s \<longleftrightarrow> pmm_inv (pmm s) \<and> 4096 dvd hhdm s \<and> (\<forall>c<cache_count s. cache_ok s c) \<and>
     (\<forall>h. owned s h \<longrightarrow> at_page s h \<and> kpages s h \<inter> free_set (pmm s) = {}) \<and>
     (\<forall>sp c. sp_cache s sp = Some c \<longrightarrow> slab_ok s sp c) \<and>
     (\<forall>h. lh_magic s h = LARGE_MAGIC \<longrightarrow> large_ok s h) \<and>
     (\<forall>h h'. h \<noteq> h' \<longrightarrow> kpages s h \<inter> kpages s h' = {})"

text \<open>The two lists of each cache: its slabs with room, and its full slabs.\<close>

definition kmem_lists :: "kmem_state \<Rightarrow> (nat \<times> bool \<Rightarrow> ptr set) \<Rightarrow> bool" where
  "kmem_lists s S \<longleftrightarrow> dlls 0 (sp_next s) (sp_prev s) (\<lambda>(c, full). if full then c_full s c else c_partial s c)
     ({..<cache_count s} \<times> UNIV) S"

definition slab_sets :: "kmem_state \<Rightarrow> nat \<times> bool \<Rightarrow> ptr set" where
  "slab_sets s = (\<lambda>(c, full). {sp. sp_cache s sp = Some c \<and> (sp_used s sp = sp_capacity s sp \<longleftrightarrow> full)})"

text \<open>The ladder of size classes behind \<^verbatim>\<open>kmalloc\<close>.\<close>

definition classes_ok :: "kmem_state \<Rightarrow> bool" where
  "classes_ok s \<longleftrightarrow> (\<forall>i<8. \<exists>c<cache_count s. kmalloc_caches s i = Some c \<and> c_object_size s c = 2 ^ (i + 4) \<and>
     c_align s c = min (2 ^ (i + 4)) 64)"

definition kmem_inv :: "kmem_state \<Rightarrow> bool" where
  "kmem_inv s \<longleftrightarrow> kmem_core s \<and> kmem_lists s (slab_sets s) \<and>
     (\<forall>sp. sp_cache s sp \<noteq> None \<longrightarrow> 0 < sp_used s sp) \<and> classes_ok s"

text \<open>The objects handed out and not yet freed.\<close>

definition live :: "kmem_state \<Rightarrow> ptr set" where
  "live s = {a. \<exists>sp c i. sp_cache s sp = Some c \<and> slab_bit s sp i \<and> a = obj_addr s c sp i} \<union>
     {a. \<exists>h. lh_magic s h = LARGE_MAGIC \<and> a = h + sizeof_large_hdr}"

lemma owned_kpages: "owned s h \<longleftrightarrow> kpages s h \<noteq> {}"
  by (auto simp: owned_def kpages_def blk_def)

lemma kmem_core_transfer:
  assumes core: "kmem_core s" and inv: "pmm_inv (pmm s')" and same: "hhdm s' = hhdm s" "cache_count s' = cache_count s"
    "c_object_size s' = c_object_size s" "c_align s' = c_align s" "pfn_count (pmm s') = pfn_count (pmm s)"
    and cache: "\<And>h. sp_cache s' h = sp_cache s h"
    and magic: "\<And>h. lh_magic s' h = LARGE_MAGIC \<longleftrightarrow> lh_magic s h = LARGE_MAGIC"
    and hdr: "\<And>h. owned s h \<Longrightarrow> sp_capacity s' h = sp_capacity s h \<and> sp_used s' h = sp_used s h \<and>
      sp_bitmap s' h = sp_bitmap s h \<and> lh_order s' h = lh_order s h \<and>
      pmem (pmm s') (pg s h * 4096) = pmem (pmm s) (pg s h * 4096) \<and> kpages s h \<inter> free_set (pmm s') = {}"
  shows "kmem_core s'"
proof -
  have pg: "pg s' = pg s" using same by (simp add: pg_def fun_eq_iff)
  have at: "at_page s' = at_page s" using same pg by (simp add: at_page_def fun_eq_iff)
  have own: "owned s' = owned s" using cache magic by (simp add: owned_def fun_eq_iff)
  have kp: "kpages s' h = kpages s h" for h
    using cache magic hdr [of h] pg by (auto simp: kpages_def owned_def)
  have geo: "slab_off s' = slab_off s" "slab_cap s' = slab_cap s" "cache_ok s' = cache_ok s"
    using same by (simp_all add: slab_off_def slab_cap_def cache_ok_def fun_eq_iff)
  have "slab_ok s' sp c" if "sp_cache s sp = Some c" for sp c
  proof -
    have "owned s sp" using that by (simp add: owned_def)
    note h = hdr [OF this]
    have "slab_bit s' sp = slab_bit s sp" using h by (simp add: slab_bit_def fun_eq_iff)
    then show ?thesis using core that h same geo pg by (simp add: kmem_core_def slab_ok_def)
  qed
  moreover have "large_ok s' h" if "lh_magic s h = LARGE_MAGIC" for h
  proof -
    have "owned s h" using that by (simp add: owned_def)
    then show ?thesis using core that hdr [of h] same cache pg by (simp add: kmem_core_def large_ok_def)
  qed
  ultimately show ?thesis
    using core inv same geo hdr cache magic unfolding kmem_core_def own at kp by metis
qed

section \<open>Moving a slab between lists\<close>

text \<open>States that differ in links, list heads and statistics only.\<close>

definition same_core :: "kmem_state \<Rightarrow> kmem_state \<Rightarrow> bool" where
  "same_core s s' \<longleftrightarrow> pmm s' = pmm s \<and> hhdm s' = hhdm s \<and> sp_cache s' = sp_cache s \<and> sp_used s' = sp_used s \<and>
     sp_capacity s' = sp_capacity s \<and> sp_bitmap s' = sp_bitmap s \<and> lh_magic s' = lh_magic s \<and>
     lh_order s' = lh_order s \<and> cache_count s' = cache_count s \<and> c_object_size s' = c_object_size s \<and>
     c_align s' = c_align s \<and> kmalloc_caches s' = kmalloc_caches s"

lemma same_core_refl [simp]: "same_core s s"
  by (simp add: same_core_def)

lemma same_core_trans: "same_core s s' \<Longrightarrow> same_core s' s'' \<Longrightarrow> same_core s s''"
  by (simp add: same_core_def)

lemma same_core_facts:
  assumes "same_core s s'"
  shows "kmem_core s' = kmem_core s" "live s' = live s" "slab_sets s' = slab_sets s" "classes_ok s' = classes_ok s"
    "obj_addr s' = obj_addr s" "slab_bit s' = slab_bit s" "owned s' = owned s" "slab_off s' = slab_off s"
    "cache_ok s' = cache_ok s"
proof -
  have e: "pmm s' = pmm s" "hhdm s' = hhdm s" "sp_cache s' = sp_cache s" "sp_used s' = sp_used s"
    "sp_capacity s' = sp_capacity s" "sp_bitmap s' = sp_bitmap s" "lh_magic s' = lh_magic s"
    "lh_order s' = lh_order s" "cache_count s' = cache_count s" "c_object_size s' = c_object_size s"
    "c_align s' = c_align s" "kmalloc_caches s' = kmalloc_caches s"
    using assms by (simp_all add: same_core_def)
  show off: "slab_off s' = slab_off s" by (simp add: slab_off_def e fun_eq_iff)
  have cap: "slab_cap s' = slab_cap s" by (simp add: slab_cap_def off e fun_eq_iff)
  show ca: "cache_ok s' = cache_ok s" by (simp add: cache_ok_def off e fun_eq_iff)
  show ob: "obj_addr s' = obj_addr s" by (simp add: obj_addr_def off e fun_eq_iff)
  show bt: "slab_bit s' = slab_bit s" by (simp add: slab_bit_def e fun_eq_iff)
  show ow: "owned s' = owned s" by (simp add: owned_def e fun_eq_iff)
  have pg: "pg s' = pg s" by (simp add: pg_def e fun_eq_iff)
  show "kmem_core s' = kmem_core s"
    by (simp add: kmem_core_def ca ow at_page_def kpages_def slab_ok_def large_ok_def pg cap bt e)
  show "live s' = live s" by (simp add: live_def e ob bt)
  show "slab_sets s' = slab_sets s" by (simp add: slab_sets_def e)
  show "classes_ok s' = classes_ok s" by (simp add: classes_ok_def e)
qed

lemma list_move_same_core [simp]:
  "same_core s (push_partial s c p)" "same_core s (push_full s c p)"
  "same_core s (remove_partial s c p)" "same_core s (remove_full s c p)"
  "same_core s (s\<lparr>c_alloc_count := f\<rparr>)" "same_core s (s\<lparr>c_free_count := f\<rparr>)"
  by (simp_all add: same_core_def push_partial_def push_full_def remove_partial_def remove_full_def
      slab_list_push_def slab_list_remove_def Let_def)

abbreviation heads_of :: "kmem_state \<Rightarrow> nat \<times> bool \<Rightarrow> ptr" where
  "heads_of s \<equiv> (\<lambda>(c, full). if full then c_full s c else c_partial s c)"

text \<open>Both pushes and both removals, as one operation on the pair of a cache and a list.\<close>

definition push_on :: "kmem_state \<Rightarrow> nat \<times> bool \<Rightarrow> ptr \<Rightarrow> kmem_state" where
  "push_on s k p = (if snd k then push_full s (fst k) p else push_partial s (fst k) p)"

definition take_off :: "kmem_state \<Rightarrow> nat \<times> bool \<Rightarrow> ptr \<Rightarrow> kmem_state" where
  "take_off s k p = (if snd k then remove_full s (fst k) p else remove_partial s (fst k) p)"

lemma list_move_on [simp]:
  "push_full s c p = push_on s (c, True) p" "push_partial s c p = push_on s (c, False) p"
  "remove_full s c p = take_off s (c, True) p" "remove_partial s c p = take_off s (c, False) p"
  by (simp_all add: push_on_def take_off_def)

lemma move_same_core [simp]: "same_core s (push_on s k p)" "same_core s (take_off s k p)"
  unfolding push_on_def take_off_def using list_move_same_core by presburger+

lemma push_on_links:
  "sp_next (push_on s k p) = (sp_next s)(p := heads_of s k)"
  "sp_prev (push_on s k p) = (if heads_of s k = 0 then (sp_prev s)(p := 0) else (sp_prev s)(p := 0, heads_of s k := p))"
  "heads_of (push_on s k p) = (heads_of s)(k := p)"
  unfolding push_on_def
  by (cases k; auto simp: push_partial_def push_full_def slab_list_push_def Let_def fun_eq_iff
      simp del: list_move_on)+

lemma take_off_links:
  "sp_next (take_off s k p) = (if sp_prev s p = 0 then sp_next s else (sp_next s)(sp_prev s p := sp_next s p))(p := 0)"
  "sp_prev (take_off s k p) = (if sp_next s p = 0 then sp_prev s else (sp_prev s)(sp_next s p := sp_prev s p))(p := 0)"
  "heads_of (take_off s k p) = (if sp_prev s p = 0 then (heads_of s)(k := sp_next s p) else heads_of s)"
  unfolding take_off_def
  by (cases k; auto simp: remove_partial_def remove_full_def slab_list_remove_def Let_def fun_eq_iff
      simp del: list_move_on)+

lemma kmem_lists_push:
  assumes "kmem_lists s S" "fst k < cache_count s" "p \<noteq> 0" "\<forall>j. p \<notin> S j"
  shows "kmem_lists (push_on s k p) (S(k := insert p (S k)))"
proof -
  have c: "cache_count (push_on s k p) = cache_count s"
    using move_same_core(1) [of s k p] by (simp add: same_core_def)
  have "k \<in> {..<cache_count s} \<times> UNIV" using assms(2) by (cases k) simp
  from dlls_push [OF assms(1) [unfolded kmem_lists_def] this assms(3)] assms(4) show ?thesis
    unfolding kmem_lists_def push_on_links c by simp
qed

lemma kmem_lists_take:
  assumes "kmem_lists s S" "fst k < cache_count s" "p \<in> S k"
  shows "kmem_lists (take_off s k p) (S(k := S k - {p}))"
proof -
  have c: "cache_count (take_off s k p) = cache_count s"
    using move_same_core(2) [of s k p] by (simp add: same_core_def)
  have "k \<in> {..<cache_count s} \<times> UNIV" using assms(2) by (cases k) simp
  from dlls_remove [OF assms(1) [unfolded kmem_lists_def] this assms(3)] show ?thesis
    unfolding kmem_lists_def take_off_links c by simp
qed

section \<open>Marking an object\<close>

lemma mark_sel [simp]:
  "pmm (mark s sp i) = pmm s" "hhdm (mark s sp i) = hhdm s" "sp_cache (mark s sp i) = sp_cache s"
  "sp_capacity (mark s sp i) = sp_capacity s" "lh_magic (mark s sp i) = lh_magic s"
  "lh_order (mark s sp i) = lh_order s" "cache_count (mark s sp i) = cache_count s"
  "c_object_size (mark s sp i) = c_object_size s" "c_align (mark s sp i) = c_align s"
  "kmalloc_caches (mark s sp i) = kmalloc_caches s" "sp_next (mark s sp i) = sp_next s"
  "sp_prev (mark s sp i) = sp_prev s" "c_partial (mark s sp i) = c_partial s" "c_full (mark s sp i) = c_full s"
  "sp_used (mark s sp i) = (sp_used s)(sp := sp_used s sp + 1)"
  by (simp_all add: mark_def)

lemma unmark_sel [simp]:
  "pmm (unmark s sp i) = pmm s" "hhdm (unmark s sp i) = hhdm s" "sp_cache (unmark s sp i) = sp_cache s"
  "sp_capacity (unmark s sp i) = sp_capacity s" "lh_magic (unmark s sp i) = lh_magic s"
  "lh_order (unmark s sp i) = lh_order s" "cache_count (unmark s sp i) = cache_count s"
  "c_object_size (unmark s sp i) = c_object_size s" "c_align (unmark s sp i) = c_align s"
  "kmalloc_caches (unmark s sp i) = kmalloc_caches s" "sp_next (unmark s sp i) = sp_next s"
  "sp_prev (unmark s sp i) = sp_prev s" "c_partial (unmark s sp i) = c_partial s" "c_full (unmark s sp i) = c_full s"
  "sp_used (unmark s sp i) = (sp_used s)(sp := sp_used s sp - 1)"
  by (simp_all add: unmark_def)

lemma geometry_cong:
  assumes "c_object_size s' = c_object_size s" "c_align s' = c_align s"
  shows "slab_off s' = slab_off s" "slab_cap s' = slab_cap s" "cache_ok s' = cache_ok s" "obj_addr s' = obj_addr s"
  using assms by (simp_all add: slab_off_def slab_cap_def cache_ok_def obj_addr_def fun_eq_iff)

lemma header_cong:
  assumes "pmm s' = pmm s" "hhdm s' = hhdm s" "sp_cache s' = sp_cache s" "lh_magic s' = lh_magic s" "lh_order s' = lh_order s"
  shows "pg s' = pg s" "at_page s' = at_page s" "owned s' = owned s" "kpages s' = kpages s" "large_ok s' = large_ok s"
  using assms by (simp_all add: pg_def at_page_def owned_def kpages_def large_ok_def fun_eq_iff)

lemma finite_slab_bits [simp]: "finite {i. slab_bit s sp i}"
  by (rule finite_subset [of _ "{..<512}"]) (auto simp: slab_bit_def)

lemma mark_core:
  assumes core: "kmem_core s" and sp: "sp_cache s sp = Some c" "i < slab_cap s c" "\<not> slab_bit s sp i"
  shows "kmem_core (mark s sp i)"
proof -
  let ?s = "mark s sp i"
  have i: "i < 512" using sp(2) by (simp add: slab_cap_def)
  note g = geometry_cong [of ?s s, simplified] and h = header_cong [of ?s s, simplified]
  have "{j. slab_bit ?s sp j} = insert i {j. slab_bit s sp j}" using slab_bit_mark [OF i] by auto
  then have "card {j. slab_bit ?s sp j} = Suc (card {j. slab_bit s sp j})" using sp(3) by simp
  then have "slab_ok ?s q d" if "sp_cache s q = Some d" for q d
    using core that sp slab_bit_mark [OF i] by (auto simp: kmem_core_def slab_ok_def g h)
  then show ?thesis using core unfolding kmem_core_def g h by simp
qed

lemma unmark_core:
  assumes core: "kmem_core s" and sp: "slab_bit s sp i"
  shows "kmem_core (unmark s sp i)"
proof -
  let ?s = "unmark s sp i"
  note g = geometry_cong [of ?s s, simplified] and h = header_cong [of ?s s, simplified]
  have "{j. slab_bit ?s sp j} = {j. slab_bit s sp j} - {i}" using slab_bit_unmark by auto
  then have "card {j. slab_bit ?s sp j} = card {j. slab_bit s sp j} - 1" using sp by simp
  then have "slab_ok ?s q d" if "sp_cache s q = Some d" for q d
    using core that sp slab_bit_unmark by (auto simp: kmem_core_def slab_ok_def g h)
  then show ?thesis using core unfolding kmem_core_def g h by simp
qed

text \<open>An object's address determines its page and its index.\<close>

lemma at_page_dvd: "at_page s v \<Longrightarrow> 4096 dvd hhdm s \<Longrightarrow> 4096 dvd v \<and> v \<noteq> 0"
  unfolding at_page_def by (metis add_is_0 dvd_add dvd_triv_right less_irrefl mult_is_0 zero_neq_numeral)

lemma core_sp:
  assumes "kmem_core s" "sp_cache s sp = Some c"
  shows "cache_ok s c" "4096 dvd sp" "at_page s sp" "sp \<noteq> 0" "slab_ok s sp c" "c < cache_count s"
proof -
  show ok: "slab_ok s sp c" using assms by (auto simp: kmem_core_def)
  then show "c < cache_count s" by (simp add: slab_ok_def)
  then show "cache_ok s c" using assms by (auto simp: kmem_core_def)
  have "owned s sp" using assms(2) by (simp add: owned_def)
  then show at: "at_page s sp" using assms(1) by (auto simp: kmem_core_def)
  moreover have "4096 dvd hhdm s" using assms(1) by (simp add: kmem_core_def)
  ultimately show "4096 dvd sp" "sp \<noteq> 0" using at_page_dvd by blast+
qed

lemma obj_addr_inj:
  assumes core: "kmem_core s" and a: "sp_cache s sp = Some c" "slab_bit s sp i \<or> i < slab_cap s c"
    and b: "sp_cache s sp' = Some c'" "slab_bit s sp' i'"
    and eq: "obj_addr s c sp i = obj_addr s c' sp' i'"
  shows "sp = sp' \<and> c = c' \<and> i = i'"
proof -
  note ca = core_sp [OF core a(1)] and cb = core_sp [OF core b(1)]
  have i: "i < slab_cap s c" "i' < slab_cap s c'" using a(2) b(2) ca(5) cb(5) by (auto simp: slab_ok_def)
  then have "sp = sp'"
    using obj_addr_page [OF ca(1) i(1) ca(2)] obj_addr_page [OF cb(1) i(2) cb(2)] eq by simp
  then show ?thesis using a b eq obj_addr_index [OF ca(1)] by (metis option.inject)
qed

lemma obj_addr_not_large:
  assumes core: "kmem_core s" and a: "sp_cache s sp = Some c" "i < slab_cap s c" and h: "lh_magic s h = LARGE_MAGIC"
  shows "obj_addr s c sp i \<noteq> h + sizeof_large_hdr"
proof
  assume eq: "obj_addr s c sp i = h + sizeof_large_hdr"
  note ca = core_sp [OF core a(1)]
  have "at_page s h" "4096 dvd hhdm s" "large_ok s h" using core h by (auto simp: kmem_core_def owned_def)
  then have "4096 dvd h" using at_page_dvd by blast
  then have "align_down (h + sizeof_large_hdr) 4096 = h"
    by (auto simp: align_down_page sizeof_large_hdr_def elim!: dvdE)
  then have "h = sp" using eq obj_addr_page [OF ca(1) a(2) ca(2)] by simp
  then show False using \<open>large_ok s h\<close> a(1) by (simp add: large_ok_def)
qed

lemma live_mark:
  assumes core: "kmem_core s" and sp: "sp_cache s sp = Some c" "i < slab_cap s c" "\<not> slab_bit s sp i"
  shows "obj_addr s c sp i \<notin> live s" "live (mark s sp i) = insert (obj_addr s c sp i) (live s)"
proof -
  have i: "i < 512" using sp(2) by (simp add: slab_cap_def)
  show "obj_addr s c sp i \<notin> live s"
    using obj_addr_inj [OF core sp(1)] obj_addr_not_large [OF core sp(1,2)] sp by (fastforce simp: live_def)
  have "obj_addr (mark s sp i) = obj_addr s" by (rule geometry_cong) simp_all
  then show "live (mark s sp i) = insert (obj_addr s c sp i) (live s)"
    using sp(1) slab_bit_mark [OF i] by (auto simp: live_def)
qed

lemma live_unmark:
  assumes core: "kmem_core s" and sp: "sp_cache s sp = Some c" "slab_bit s sp i"
  shows "live (unmark s sp i) = live s - {obj_addr s c sp i}"
proof -
  have i: "i < slab_cap s c" using core_sp(5) [OF core sp(1)] sp(2) by (simp add: slab_ok_def)
  let ?x = "obj_addr s c sp i"
  have ob: "obj_addr (unmark s sp i) = obj_addr s" by (rule geometry_cong) simp_all
  have inj: "obj_addr s d q j = ?x \<longleftrightarrow> q = sp \<and> j = i" if "sp_cache s q = Some d" "slab_bit s q j" for q d j
  proof
    show "obj_addr s d q j = ?x \<Longrightarrow> q = sp \<and> j = i"
      using obj_addr_inj [OF core that(1) _ sp] that(2) by blast
    show "q = sp \<and> j = i \<Longrightarrow> obj_addr s d q j = ?x" using that sp by simp
  qed
  have "{a. \<exists>q d j. sp_cache s q = Some d \<and> (slab_bit s q j \<and> \<not> (q = sp \<and> j = i)) \<and> a = obj_addr s d q j} =
      {a. \<exists>q d j. sp_cache s q = Some d \<and> slab_bit s q j \<and> a = obj_addr s d q j} - {?x}"
    (is "?A = ?B - {?x}")
  proof (intro equalityI subsetI)
    fix a assume "a \<in> ?A"
    then obtain q d j where q: "sp_cache s q = Some d" "slab_bit s q j" "\<not> (q = sp \<and> j = i)" "a = obj_addr s d q j" by blast
    then have "a \<noteq> ?x" using inj [OF q(1,2)] by simp
    with q show "a \<in> ?B - {?x}" by blast
  next
    fix a assume "a \<in> ?B - {?x}"
    then obtain q d j where q: "sp_cache s q = Some d" "slab_bit s q j" "a = obj_addr s d q j" "a \<noteq> ?x" by blast
    then have "\<not> (q = sp \<and> j = i)" using inj [OF q(1,2)] by simp
    with q show "a \<in> ?A" by blast
  qed
  moreover have "?x \<notin> {a. \<exists>h. lh_magic s h = LARGE_MAGIC \<and> a = h + sizeof_large_hdr}"
    using obj_addr_not_large [OF core sp(1) i] by blast
  ultimately show ?thesis
    unfolding live_def ob unmark_sel slab_bit_unmark by (simp add: Un_Diff)
qed

end
