(* ===== verification/Slab_Ops.thy ===== *)
theory Slab_Ops
  imports Slab_Inv
begin

text \<open>
  What the operations of \<^verbatim>\<open>kernel/mm/slab.c\<close> do to the set of live objects, over the invariant
  of the preceding theory, and the contract they offer to the rest of the kernel.
\<close>

section \<open>The pages of the heap\<close>

text \<open>
  The page frames that are free or behind a header: the pages the heap may ever hand out or give
  back. Its operations move pages between the two and take no others.
\<close>

definition pool :: "kmem_state \<Rightarrow> nat set" where
  "pool s = free_set (pmm s) \<union> (\<Union>h. kpages s h)"

definition same_pool :: "kmem_state \<Rightarrow> kmem_state \<Rightarrow> bool" where
  "same_pool s s' \<longleftrightarrow> hhdm s' = hhdm s \<and> pfn_count (pmm s') = pfn_count (pmm s) \<and> pool s' = pool s"

lemma same_pool_refl [simp]: "same_pool s s"
  by (simp add: same_pool_def)

lemma same_pool_trans: "same_pool s s' \<Longrightarrow> same_pool s' s'' \<Longrightarrow> same_pool s s''"
  by (simp add: same_pool_def)

lemma blk_0 [simp]: "blk p 0 = {p}"
  by (auto simp: blk_def)

lemma pool_swap:
  assumes "free_set (pmm s') \<union> kpages s' h = free_set (pmm s) \<union> kpages s h" "\<And>g. g \<noteq> h \<Longrightarrow> kpages s' g = kpages s g"
  shows "pool s' = pool s"
proof -
  have split: "pool x = free_set (pmm x) \<union> kpages x h \<union> (\<Union>g\<in>- {h}. kpages x g)" for x
    by (auto simp: pool_def)
  show ?thesis unfolding split using assms by simp
qed

lemma kpages_cong:
  assumes "hhdm s' = hhdm s" "sp_cache s' h = sp_cache s h" "lh_magic s' h = LARGE_MAGIC \<longleftrightarrow> lh_magic s h = LARGE_MAGIC"
    "lh_magic s h = LARGE_MAGIC \<Longrightarrow> lh_order s' h = lh_order s h"
  shows "kpages s' h = kpages s h"
  using assms by (simp add: kpages_def pg_def)

lemma same_core_pool:
  assumes "same_core s s'"
  shows "same_pool s s'"
proof -
  have "kpages s' = kpages s" by (intro ext kpages_cong) (use assms in \<open>simp_all add: same_core_def\<close>)
  then show ?thesis using assms by (simp add: same_pool_def pool_def same_core_def)
qed

section \<open>Allocation from a cache\<close>

lemma slab_sets_mark:
  assumes "sp_cache s sp = Some c" "sp_used s sp < sp_capacity s sp"
  shows "slab_sets (mark s sp i) = (if sp_used s sp + 1 = sp_capacity s sp
    then (slab_sets s)((c, False) := slab_sets s (c, False) - {sp}, (c, True) := insert sp (slab_sets s (c, True)))
    else slab_sets s)"
  using assms by (auto simp: slab_sets_def fun_eq_iff)

text \<open>Taking one object from a slab with room, and filing the slab.\<close>

lemma take_object:
  assumes core: "kmem_core s" and lists: "kmem_lists s (slab_sets s)" and cls: "classes_ok s"
    and sp: "sp_cache s sp = Some c" "sp_used s sp < sp_capacity s sp"
    and others: "\<forall>q. q \<noteq> sp \<and> sp_cache s q \<noteq> None \<longrightarrow> 0 < sp_used s q"
  shows "\<exists>i s1 s2. alloc_in_slab s sp = Some (i, s1) \<and>
    s2 = (if sp_used s1 sp = sp_capacity s1 sp then push_full (remove_partial s1 c sp) c sp else s1) \<and>
    i < slab_cap s c \<and> \<not> slab_bit s sp i \<and> kmem_inv s2 \<and> same_core (mark s sp i) s2 \<and>
    obj_addr s c sp i \<notin> live s \<and> live s2 = insert (obj_addr s c sp i) (live s) \<and>
    first_object s2 c sp + i * c_object_size s2 c = obj_addr s c sp i"
proof -
  note cs = core_sp [OF core sp(1)]
  have cap: "sp_capacity s sp = slab_cap s c" "sp_used s sp = card {i. slab_bit s sp i}"
    "\<forall>i. slab_bit s sp i \<longrightarrow> i < slab_cap s c" using cs(5) by (auto simp: slab_ok_def)
  have "\<exists>i < sp_capacity s sp. \<not> slab_bit s sp i"
  proof (rule ccontr)
    assume "\<not> ?thesis"
    then have "{..<slab_cap s c} \<subseteq> {i. slab_bit s sp i}" using cap(1) by auto
    then have "card {..<slab_cap s c} \<le> card {i. slab_bit s sp i}" by (rule card_mono [OF finite_slab_bits])
    then show False using cap(1,2) sp(2) by simp
  qed
  moreover have "sp_capacity s sp \<le> 512" using cap(1) by (simp add: slab_cap_def)
  ultimately obtain i where i: "i < slab_cap s c" "\<not> slab_bit s sp i" "alloc_in_slab s sp = Some (i, mark s sp i)"
    using alloc_scan_correct [of s sp 0] cap(1) by (auto simp: alloc_in_slab_def)
  let ?m = "mark s sp i"
  have mcore: "kmem_core ?m" using mark_core [OF core sp(1) i(1,2)] .
  have "heads_of ?m = heads_of s" by (simp add: fun_eq_iff)
  then have mlists: "kmem_lists ?m (slab_sets s)" using lists by (simp add: kmem_lists_def)
  let ?s2 = "if sp_used ?m sp = sp_capacity ?m sp then push_full (remove_partial ?m c sp) c sp else ?m"
  have sc: "same_core ?m ?s2"
    using same_core_trans [OF move_same_core(2) [of ?m "(c, False)" sp] move_same_core(1)] by simp
  have in_part: "sp \<in> slab_sets s (c, False)" using sp by (simp add: slab_sets_def)
  have l2: "kmem_lists ?s2 (slab_sets ?m)"
  proof (cases "sp_used ?m sp = sp_capacity ?m sp")
    case True
    let ?r = "take_off ?m (c, False) sp"
    have "kmem_lists ?r ((slab_sets s)((c, False) := slab_sets s (c, False) - {sp}))"
      using kmem_lists_take [OF mlists, of "(c, False)"] cs(6) in_part by simp
    moreover have "cache_count ?r = cache_count s"
      using move_same_core(2) [of ?m "(c, False)" sp] by (simp add: same_core_def)
    moreover have "\<forall>j. sp \<notin> ((slab_sets s)((c, False) := slab_sets s (c, False) - {sp})) j"
      using sp by (auto simp: slab_sets_def)
    ultimately have "kmem_lists (push_on ?r (c, True) sp) ((slab_sets s)((c, False) := slab_sets s (c, False) - {sp},
        (c, True) := insert sp (slab_sets s (c, True))))"
      using kmem_lists_push [of ?r _ "(c, True)" sp] cs(4,6) by fastforce
    then show ?thesis using True slab_sets_mark [OF sp] by simp
  next
    case False
    then show ?thesis using mlists slab_sets_mark [OF sp] by simp
  qed
  have ff: "sp_cache ?s2 = sp_cache s" "sp_used ?s2 = sp_used ?m" "c_object_size ?s2 = c_object_size s" "c_align ?s2 = c_align s"
    using sc unfolding same_core_def by simp_all
  have "classes_ok ?m" using cls by (simp add: classes_ok_def)
  then have inv2: "kmem_inv ?s2"
    using l2 mcore others sp(1) ff same_core_facts [OF sc] unfolding kmem_inv_def by simp
  have fo: "first_object ?s2 c sp + i * c_object_size ?s2 c = obj_addr s c sp i"
    using first_object_eq [of ?s2 c sp] cs(1,2) ff geometry_cong(1,3) [of ?s2 s] by (simp add: obj_addr_def)
  have lv: "live ?s2 = insert (obj_addr s c sp i) (live s)"
    using same_core_facts(2) [OF sc] live_mark(2) [OF core sp(1) i(1,2)] by simp
  show ?thesis
    by (rule exI [of _ i], rule exI [of _ ?m], rule exI [of _ ?s2])
      (use i inv2 sc fo lv live_mark(1) [OF core sp(1) i(1,2)] in blast)
qed

section \<open>Fresh pages\<close>

text \<open>A header outside the owned pages may be given to new owners.\<close>

lemma kmem_core_adopt:
  assumes core: "kmem_core s" and inv: "pmm_inv (pmm s')" and same: "hhdm s' = hhdm s" "cache_count s' = cache_count s"
    "c_object_size s' = c_object_size s" "c_align s' = c_align s" "pfn_count (pmm s') = pfn_count (pmm s)"
    and cache: "\<And>g. g \<noteq> h \<Longrightarrow> sp_cache s' g = sp_cache s g"
    and magic: "\<And>g. g \<noteq> h \<Longrightarrow> lh_magic s' g = LARGE_MAGIC \<longleftrightarrow> lh_magic s g = LARGE_MAGIC"
    and hdr: "\<And>g. g \<noteq> h \<Longrightarrow> owned s g \<Longrightarrow> sp_capacity s' g = sp_capacity s g \<and> sp_used s' g = sp_used s g \<and>
      sp_bitmap s' g = sp_bitmap s g \<and> lh_order s' g = lh_order s g \<and>
      pmem (pmm s') (pg s g * 4096) = pmem (pmm s) (pg s g * 4096) \<and> kpages s g \<inter> free_set (pmm s') = {}"
    and new: "owned s' h \<Longrightarrow> at_page s h" "kpages s' h \<inter> free_set (pmm s') = {}" "kpages s' h \<subseteq> free_set (pmm s)"
      "\<And>c. sp_cache s' h = Some c \<Longrightarrow> slab_ok s' h c" "lh_magic s' h = LARGE_MAGIC \<Longrightarrow> large_ok s' h"
  shows "kmem_core s'"
proof -
  have pg: "pg s' = pg s" using same by (simp add: pg_def fun_eq_iff)
  have at: "at_page s' = at_page s" using same pg by (simp add: at_page_def fun_eq_iff)
  have own: "owned s' g \<longleftrightarrow> owned s g" if "g \<noteq> h" for g using cache magic that by (simp add: owned_def)
  have kp: "kpages s' g = kpages s g" if "g \<noteq> h" for g
    using cache magic hdr [of g] pg that by (auto simp: kpages_def owned_def)
  have geo: "slab_cap s' = slab_cap s" "cache_ok s' = cache_ok s"
    using geometry_cong [OF same(3,4)] by simp_all
  have sl: "slab_ok s' sp c" if "sp_cache s' sp = Some c" for sp c
  proof (cases "sp = h")
    case False
    then have c: "sp_cache s sp = Some c" using cache that by simp
    then have "owned s sp" by (simp add: owned_def)
    note h = hdr [OF False this]
    have "slab_bit s' sp = slab_bit s sp" using h by (simp add: slab_bit_def fun_eq_iff)
    then show ?thesis using core c h same geo pg by (simp add: kmem_core_def slab_ok_def)
  qed (use new that in blast)
  have lg: "large_ok s' g" if "lh_magic s' g = LARGE_MAGIC" for g
  proof (cases "g = h")
    case False
    then have c: "lh_magic s g = LARGE_MAGIC" using magic that by simp
    then have "owned s g" by (simp add: owned_def)
    then show ?thesis using core c hdr [OF False] same cache [OF False] pg by (simp add: kmem_core_def large_ok_def)
  qed (use new that in blast)
  have pages: "at_page s' g \<and> kpages s' g \<inter> free_set (pmm s') = {}" if "owned s' g" for g
  proof (cases "g = h")
    case False
    then have "owned s g" using own that by simp
    then show ?thesis using core hdr [OF False] kp [OF False] at by (simp add: kmem_core_def)
  qed (use new that at in simp)
  have old: "kpages s g \<inter> free_set (pmm s) = {}" for g
    using core owned_kpages [of s g] by (auto simp: kmem_core_def)
  have dis: "kpages s' g \<inter> kpages s' g' = {}" if "g \<noteq> g'" for g g'
  proof -
    consider "g = h" | "g' = h" | "g \<noteq> h" "g' \<noteq> h" by blast
    then show ?thesis
    proof cases
      case 1 then show ?thesis using that kp [of g'] old [of g'] new(3) by auto
    next
      case 2 then show ?thesis using that kp [of g] old [of g] new(3) by auto
    next
      case 3 then show ?thesis using that kp core by (simp add: kmem_core_def)
    qed
  qed
  show ?thesis
    unfolding kmem_core_def using core inv same geo sl lg pages dis by (simp add: kmem_core_def)
qed

lemma core_pages: "kmem_core s \<Longrightarrow> kpages s g \<inter> free_set (pmm s) = {}"
  using owned_kpages [of s g] by (auto simp: kmem_core_def)

lemma pg_page [simp]: "pg s (hhdm s + p * 4096) = p"
  by (simp add: pg_def)

lemma owned_head: "owned s h \<Longrightarrow> pg s h \<in> kpages s h"
  by (auto simp: owned_def kpages_def)

lemma fresh_not_owned: "kmem_core s \<Longrightarrow> p \<in> free_set (pmm s) \<Longrightarrow> \<not> owned s (hhdm s + p * 4096)"
  using core_pages [of s "hhdm s + p * 4096"] owned_head [of s "hhdm s + p * 4096"] by auto

lemma pmm_inv_write:
  assumes "pmm_inv m" "p \<notin> free_set m"
  shows "pmm_inv (m\<lparr>pmem := (pmem m)(p * 4096 := b)\<rparr>)" "free_set (m\<lparr>pmem := (pmem m)(p * 4096 := b)\<rparr>) = free_set m"
proof -
  have "q * 4096 + i \<noteq> p * 4096" if "q \<in> free_set m" "i < 4096" for q i
  proof
    assume "q * 4096 + i = p * 4096"
    then have "(q * 4096 + i) div 4096 = p" by simp
    then show False using that assms(2) by simp
  qed
  then show "pmm_inv (m\<lparr>pmem := (pmem m)(p * 4096 := b)\<rparr>)" "free_set (m\<lparr>pmem := (pmem m)(p * 4096 := b)\<rparr>) = free_set m"
    using pmm_inv_mem [of "m\<lparr>pmem := (pmem m)(p * 4096 := b)\<rparr>" m] assms(1) by simp_all
qed

lemma kmem_alloc_result:
  assumes core: "kmem_core s" and k: "k < 11"
  obtains "kmem_alloc_pages s k = (0, s)" "\<forall>z. \<forall>j. k \<le> j \<and> j < 11 \<longrightarrow> heads (pmm s) z j = {}"
  | p m where "kmem_alloc_pages s k = (pfn_to_pa p, s\<lparr>pmm := m\<rparr>)" "pfn_to_pa p \<noteq> 0"
    "unat (pfn_to_pa p) = p * 4096" "block_fits (pfn_count (pmm s)) p k" "blk p k \<subseteq> free_set (pmm s)"
    "free_set m = free_set (pmm s) - blk p k" "zero_blk (pmm s) p k" "pmm_inv m" "pmm_frame (pmm s) m"
    "at_page s (hhdm s + p * 4096)"
proof -
  let ?r = "pmm_alloc_pages (pmm s) (int k)"
  have inv: "pmm_inv (pmm s)" using core by (simp add: kmem_core_def)
  note r = pmm_alloc_result [OF inv k]
  show thesis
  proof (cases "fst ?r = 0")
    case True
    then have "?r = (0, pmm s)" "\<forall>z. \<forall>j. k \<le> j \<and> j < 11 \<longrightarrow> heads (pmm s) z j = {}"
      using r by (auto simp: alloc_result_def prod_eq_iff)
    then show ?thesis using that(1) by (simp add: kmem_alloc_pages_def)
  next
    case False
    let ?p = "pa_to_pfn (fst ?r)"
    have a: "pfn_to_pa ?p = fst ?r" "block_fits (pfn_count (pmm s)) ?p k" "blk ?p k \<subseteq> free_set (pmm s)"
      "free_set (snd ?r) = free_set (pmm s) - blk ?p k" "zero_blk (pmm s) ?p k" "pmm_inv (snd ?r)" "pmm_frame (pmm s) (snd ?r)"
      using r False by (simp_all add: alloc_result_def)
    have b: "?p < pfn_count (pmm s)" "0 < ?p" "?p < 2 ^ 52"
      using block_fits_less [OF a(2)] a(2) inv by (auto simp: block_fits_def pmm_inv_def blocks_ok_def)
    have "kmem_alloc_pages s k = (pfn_to_pa ?p, s\<lparr>pmm := snd ?r\<rparr>)"
      using a(1) by (simp add: kmem_alloc_pages_def split: prod.split)
    moreover have "pfn_to_pa ?p \<noteq> 0" using a(1) False by simp
    moreover have "unat (pfn_to_pa ?p) = ?p * 4096" using unat_pfn_to_pa [OF b(3)] .
    moreover have "at_page s (hhdm s + ?p * 4096)" using b by (simp add: at_page_def)
    ultimately show ?thesis using that(2) [of ?p "snd ?r"] a by blast
  qed
qed

lemma dlls_frame:
  assumes "dlls nil N P H K S" "\<And>k x. k \<in> K \<Longrightarrow> x \<in> S k \<Longrightarrow> N' x = N x \<and> P' x = P x"
  shows "dlls nil N' P' H K S"
  using assms dlls_other [OF assms(1), of _ N' P' H S] unfolding dlls_def by simp

lemma kmem_lists_frame:
  assumes "kmem_lists s S" "c_full s' = c_full s" "c_partial s' = c_partial s" "cache_count s' = cache_count s"
    "\<And>k x. x \<in> S k \<Longrightarrow> sp_next s' x = sp_next s x \<and> sp_prev s' x = sp_prev s x"
  shows "kmem_lists s' S"
  using dlls_frame [OF assms(1) [unfolded kmem_lists_def], of "sp_next s'" "sp_prev s'"] assms(5)
  unfolding kmem_lists_def assms(2-4) by blast

lemma used_le_capacity:
  assumes "kmem_core s" "sp_cache s sp = Some c"
  shows "sp_used s sp \<le> sp_capacity s sp"
proof -
  have ok: "slab_ok s sp c" by (rule core_sp(5) [OF assms])
  then have "card {i. slab_bit s sp i} \<le> card {..<slab_cap s c}"
    by (intro card_mono) (auto simp: slab_ok_def)
  then show ?thesis using ok by (simp add: slab_ok_def)
qed

lemma live_cong:
  assumes "\<And>q d i. sp_cache s' q = Some d \<and> slab_bit s' q i \<longleftrightarrow> sp_cache s q = Some d \<and> slab_bit s q i"
    "obj_addr s' = obj_addr s" "\<And>h. lh_magic s' h = LARGE_MAGIC \<longleftrightarrow> lh_magic s h = LARGE_MAGIC"
  shows "live s' = live s"
  unfolding live_def conj_assoc [symmetric] assms by (rule refl)

text \<open>A new slab: an empty one on a page nobody owned.\<close>

lemma new_slab_result:
  assumes core: "kmem_core s" and lists: "kmem_lists s (slab_sets s)" and c: "c < cache_count s"
  obtains "new_slab s c = (0, s)" "free_set (pmm s) = {}"
  | sp s' where "new_slab s c = (sp, s')" "sp \<noteq> 0" "sp_cache s sp = None" "kmem_core s'"
    "sp_cache s' = (sp_cache s)(sp := Some c)" "sp_used s' = (sp_used s)(sp := 0)" "sp_capacity s' = (sp_capacity s)(sp := slab_cap s c)"
    "kmem_lists s' (slab_sets s)" "live s' = live s" "cache_count s' = cache_count s" "kmalloc_caches s' = kmalloc_caches s"
    "c_object_size s' = c_object_size s" "c_align s' = c_align s" "hhdm s' = hhdm s" "same_pool s s'"
proof (cases rule: kmem_alloc_result [OF core zero_less_numeral, case_names fail 3])
  case fail
  then have "free_set (pmm s) = {}"
    using free_set_heads [of "pmm s"] core by (auto simp: kmem_core_def pmm_inv_def)
  with fail show ?thesis using that(1) by (simp add: new_slab_def)
next
  case (3 p m)
  let ?sp = "hhdm s + p * 4096"
  define m' where "m' = m\<lparr>pmem := (pmem m)(p * 4096 := PAGE_KIND_SLAB)\<rparr>"
  define s' where "s' = s\<lparr>pmm := m', sp_next := (sp_next s)(?sp := 0), sp_prev := (sp_prev s)(?sp := 0),
    sp_used := (sp_used s)(?sp := 0), sp_bitmap := (sp_bitmap s)(?sp := (\<lambda>_. 0)), sp_cache := (sp_cache s)(?sp := Some c),
    sp_capacity := (sp_capacity s)(?sp := slab_cap s c), c_objects_per_slab := (c_objects_per_slab s)(c := slab_cap s c)\<rparr>"
  have cok: "cache_ok s c" using core c by (simp add: kmem_core_def)
  have al: "4096 dvd ?sp" and nz: "?sp \<noteq> 0"
    using at_page_dvd [OF 3(10)] core by (auto simp: kmem_core_def)
  have fo: "first_object x c ?sp = ?sp + slab_off s c" if "c_object_size x = c_object_size s" "c_align x = c_align s" for x
    using first_object_eq [of x c ?sp] al cok geometry_cong [OF that] by simp
  have new: "new_slab s c = (?sp, s')"
    using 3(1-3) nz by (simp add: new_slab_def phys_to_virt_def write_byte_def Let_def fo SLAB_BITMAP_WORDS_def slab_cap_def s'_def m'_def)
  have p: "p \<in> free_set (pmm s)" "p \<notin> free_set m" using 3(5,6) head_in_blk by auto
  note w = pmm_inv_write [OF 3(8) p(2), of PAGE_KIND_SLAB, folded m'_def]
  have nown: "\<not> owned s ?sp" using fresh_not_owned [OF core p(1)] .
  have none: "sp_cache s ?sp = None" "lh_magic s ?sp \<noteq> LARGE_MAGIC" using nown by (auto simp: owned_def)
  have pf: "pmem m = pmem (pmm s)" "pfn_count m = pfn_count (pmm s)" using 3(9) by (simp_all add: pmm_frame_def)
  have sel: "pmm s' = m'" "hhdm s' = hhdm s" "cache_count s' = cache_count s" "c_object_size s' = c_object_size s"
    "c_align s' = c_align s" "sp_cache s' = (sp_cache s)(?sp := Some c)" "lh_magic s' = lh_magic s" "lh_order s' = lh_order s"
    "sp_used s' = (sp_used s)(?sp := 0)" "sp_capacity s' = (sp_capacity s)(?sp := slab_cap s c)"
    "sp_bitmap s' = (sp_bitmap s)(?sp := (\<lambda>_. 0))" "kmalloc_caches s' = kmalloc_caches s"
    by (simp_all add: s'_def)
  have bits: "slab_bit s' q i \<longleftrightarrow> q \<noteq> ?sp \<and> slab_bit s q i" for q i by (simp add: slab_bit_def sel)
  have geo: "slab_cap s' = slab_cap s" "obj_addr s' = obj_addr s" using geometry_cong [OF sel(4,5)] by simp_all
  have pg: "pg s' = pg s" by (simp add: pg_def sel fun_eq_iff)
  have core': "kmem_core s'"
  proof (rule kmem_core_adopt [OF core, where h = ?sp])
    show "pmm_inv (pmm s')" using w sel by simp
    show "pfn_count (pmm s') = pfn_count (pmm s)" using sel pf by (simp add: m'_def)
    fix g assume g: "g \<noteq> ?sp" "owned s g"
    have "pg s g \<noteq> p" using owned_head [OF g(2)] core_pages [OF core, of g] p(1) by blast
    then have "pmem (pmm s') (pg s g * 4096) = pmem (pmm s) (pg s g * 4096)" by (simp add: sel m'_def pf)
    moreover have "kpages s g \<inter> free_set (pmm s') = {}" using core_pages [OF core, of g] 3(6) w sel by auto
    ultimately show "sp_capacity s' g = sp_capacity s g \<and> sp_used s' g = sp_used s g \<and>
      sp_bitmap s' g = sp_bitmap s g \<and> lh_order s' g = lh_order s g \<and>
      pmem (pmm s') (pg s g * 4096) = pmem (pmm s) (pg s g * 4096) \<and> kpages s g \<inter> free_set (pmm s') = {}"
      using g(1) by (simp add: sel)
  next
    have kp: "kpages s' ?sp = {p}" by (simp add: kpages_def sel pg)
    show "kpages s' ?sp \<inter> free_set (pmm s') = {}" "kpages s' ?sp \<subseteq> free_set (pmm s)"
      using kp p w sel by simp_all
    show "slab_ok s' ?sp d" if "sp_cache s' ?sp = Some d" for d
      using that c by (simp add: slab_ok_def sel bits geo pg m'_def)
    show "large_ok s' ?sp" if "lh_magic s' ?sp = LARGE_MAGIC" using that none sel by simp
  qed (simp_all add: sel 3(10))
  have "x \<noteq> ?sp" if "x \<in> slab_sets s k" for x k
  proof
    assume "x = ?sp"
    with that none(1) show False by (cases k) (simp add: slab_sets_def)
  qed
  then have l': "kmem_lists s' (slab_sets s)"
    using kmem_lists_frame [OF lists, of s'] by (simp add: s'_def)
  have "pool s' = pool s"
  proof (rule pool_swap)
    have "kpages s' ?sp = {p}" "kpages s ?sp = {}" using none by (simp_all add: kpages_def sel pg)
    then show "free_set (pmm s') \<union> kpages s' ?sp = free_set (pmm s) \<union> kpages s ?sp" using 3(5,6) w sel by auto
    show "kpages s' g = kpages s g" if "g \<noteq> ?sp" for g using that by (intro kpages_cong) (simp_all add: sel)
  qed
  then have "same_pool s s'" using sel pf by (simp add: same_pool_def m'_def)
  moreover have "live s' = live s" by (rule live_cong) (use none(1) sel(6,7) bits geo in auto)
  ultimately show ?thesis
    using that(2) [of ?sp s'] new nz none(1) core' l' sel by simp
qed

text \<open>
  An allocation from a cache: with no slab that has room and no free page it fails and changes
  nothing; otherwise it returns an object that was not live.
\<close>

definition alloc_outcome :: "kmem_state \<Rightarrow> ptr \<Rightarrow> kmem_state \<Rightarrow> bool" where
  "alloc_outcome s p s' \<longleftrightarrow> kmem_inv s' \<and> same_pool s s' \<and>
     (p = 0 \<and> s' = s \<or> p \<noteq> 0 \<and> p \<notin> live s \<and> live s' = insert p (live s))"

lemma cache_alloc_result:
  assumes inv: "kmem_inv s" and c: "c < cache_count s"
  shows "\<exists>p s'. kmem_cache_alloc s c = (p, s') \<and> alloc_outcome s p s' \<and>
    (p \<noteq> 0 \<longrightarrow> (\<exists>sp i. sp_cache s' sp = Some c \<and> i < slab_cap s c \<and> slab_bit s' sp i \<and> p = obj_addr s c sp i)) \<and>
    hhdm s' = hhdm s \<and> c_object_size s' = c_object_size s \<and> c_align s' = c_align s \<and> (p = 0 \<longrightarrow> free_set (pmm s) = {})"
proof -
  have core: "kmem_core s" and lists: "kmem_lists s (slab_sets s)" and cls: "classes_ok s"
    and used: "\<forall>sp. sp_cache s sp \<noteq> None \<longrightarrow> 0 < sp_used s sp" using inv by (simp_all add: kmem_inv_def)
  have fin: ?thesis if a: "cache_slab s c = (sp, t)" "sp \<noteq> 0" "kmem_core t" "kmem_lists t (slab_sets t)" "classes_ok t"
      "sp_cache t sp = Some c" "sp_used t sp < sp_capacity t sp" "\<forall>q. q \<noteq> sp \<and> sp_cache t q \<noteq> None \<longrightarrow> 0 < sp_used t q"
      "live t = live s" "c_object_size t = c_object_size s" "c_align t = c_align s" "hhdm t = hhdm s" "same_pool s t" for sp t
  proof -
    note g = geometry_cong(2,4) [OF a(10,11)]
    from take_object [OF a(3-8)] obtain i s1 s2 where r: "alloc_in_slab t sp = Some (i, s1)"
      "s2 = (if sp_used s1 sp = sp_capacity s1 sp then push_full (remove_partial s1 c sp) c sp else s1)"
      "i < slab_cap t c" "kmem_inv s2" "same_core (mark t sp i) s2" "obj_addr t c sp i \<notin> live t"
      "live s2 = insert (obj_addr t c sp i) (live t)" "first_object s2 c sp + i * c_object_size s2 c = obj_addr t c sp i"
      by blast
    let ?s' = "s2\<lparr>c_alloc_count := (c_alloc_count s2)(c := c_alloc_count s2 c + 1)\<rparr>"
    have sc: "same_core s2 ?s'" by (rule list_move_same_core(5))
    have "kmem_lists ?s' (slab_sets s2)" using r(4) kmem_lists_frame [of s2 "slab_sets s2" ?s'] by (simp add: kmem_inv_def)
    then have "kmem_inv ?s'"
      using r(4) same_core_facts [OF sc] by (simp add: kmem_inv_def)
    moreover have "live ?s' = live s2" using same_core_facts(2) [OF sc] .
    moreover have "kpages (mark t sp i) = kpages t" by (intro ext kpages_cong) simp_all
    then have "same_pool t (mark t sp i)" by (simp add: same_pool_def pool_def)
    then have "same_pool s ?s'"
      using same_pool_trans [OF a(13)] same_core_pool [OF same_core_trans [OF r(5) sc]] same_pool_trans by blast
    moreover have "kmem_cache_alloc s c = (obj_addr t c sp i, ?s')"
      unfolding kmem_cache_alloc_def using a(1,2) r(1,2,8) by (simp add: Let_def)
    moreover have "obj_addr t c sp i \<noteq> 0" using a(2) by (simp add: obj_addr_def)
    moreover have "sp_cache ?s' sp = Some c" "hhdm ?s' = hhdm t" "c_object_size ?s' = c_object_size t" "c_align ?s' = c_align t"
      using r(5) a(6) by (simp_all add: same_core_def)
    moreover have "i < 512" using r(3) by (simp add: slab_cap_def)
    then have "slab_bit ?s' sp i" using r(5) same_core_facts(6) [OF sc] same_core_facts(6) [OF r(5)] slab_bit_mark by simp
    ultimately show ?thesis using r(3,6,7) a(9-12) g unfolding alloc_outcome_def by auto
  qed
  show ?thesis
  proof (cases "c_partial s c = 0")
    case False
    have "(c, False) \<in> {..<cache_count s} \<times> UNIV" using c by simp
    from dlls_head(2) [OF lists [unfolded kmem_lists_def] this] False
    have "c_partial s c \<in> slab_sets s (c, False)" by simp
    then have part: "sp_cache s (c_partial s c) = Some c" "sp_used s (c_partial s c) \<noteq> sp_capacity s (c_partial s c)"
      by (simp_all add: slab_sets_def)
    have "sp_used s (c_partial s c) \<le> sp_capacity s (c_partial s c)"
      by (rule used_le_capacity [OF core part(1)])
    then show ?thesis
      using fin [of "c_partial s c" s] False core lists cls used part by (simp add: cache_slab_def)
  next
    case True
    show ?thesis
    proof (cases rule: new_slab_result [OF core lists c, case_names fail 2])
      case fail
      then have "kmem_cache_alloc s c = (0, s)" using True by (simp add: kmem_cache_alloc_def cache_slab_def)
      then show ?thesis using inv fail(2) by (simp add: alloc_outcome_def)
    next
      case (2 sp t)
      let ?t = "push_on t (c, False) sp"
      have sc: "same_core t ?t" by simp
      note f = same_core_facts [OF sc]
      have cap: "0 < slab_cap s c" using core c slab_cap_pos by (simp add: kmem_core_def)
      have "\<forall>k. sp \<notin> slab_sets s k" using 2(3) by (auto simp: slab_sets_def)
      then have "kmem_lists ?t ((slab_sets s)((c, False) := insert sp (slab_sets s (c, False))))"
        using kmem_lists_push [OF 2(8), of "(c, False)" sp] 2(2,10) c by simp
      moreover have "slab_sets t = (slab_sets s)((c, False) := insert sp (slab_sets s (c, False)))"
        unfolding slab_sets_def 2(5-7) fun_eq_iff using 2(3) cap by auto
      ultimately have l: "kmem_lists ?t (slab_sets ?t)" using f(3) by simp
      have sel: "sp_cache ?t = sp_cache t" "sp_used ?t = sp_used t" "sp_capacity ?t = sp_capacity t" "hhdm ?t = hhdm t"
        "c_object_size ?t = c_object_size s" "c_align ?t = c_align s"
        using sc 2(12,13) unfolding same_core_def by simp_all
      have "same_pool s ?t" using same_pool_trans [OF 2(15) same_core_pool [OF sc]] .
      have "classes_ok t" using cls 2(10-13) by (simp add: classes_ok_def)
      with \<open>same_pool s ?t\<close> have "same_pool s ?t" "classes_ok t" by simp_all
      moreover have "cache_slab s c = (sp, ?t)" using True 2(1,2) by (simp add: cache_slab_def)
      ultimately show ?thesis
        using fin [of sp ?t] f l 2 sel used cap by simp
    qed
  qed
qed

section \<open>Giving pages back\<close>

lemma virt_to_phys_page: "virt_to_phys s (hhdm s + p * 4096) = pfn_to_pa p"
  by (simp add: virt_to_phys_def pfn_to_pa_def push_bit_eq_mult)

lemma kmem_inv_transfer:
  assumes inv: "kmem_inv s" and core: "kmem_core s'"
    and same: "sp_cache s' = sp_cache s" "c_full s' = c_full s" "c_partial s' = c_partial s" "cache_count s' = cache_count s"
      "kmalloc_caches s' = kmalloc_caches s" "c_object_size s' = c_object_size s" "c_align s' = c_align s"
    and hdr: "\<And>h. sp_cache s h \<noteq> None \<Longrightarrow> sp_next s' h = sp_next s h \<and> sp_prev s' h = sp_prev s h \<and>
      sp_used s' h = sp_used s h \<and> sp_capacity s' h = sp_capacity s h"
  shows "kmem_inv s'"
proof -
  have sets: "slab_sets s' = slab_sets s"
  proof
    fix k show "slab_sets s' k = slab_sets s k"
      using same(1) hdr by (cases k) (auto simp: slab_sets_def)
  qed
  have "kmem_lists s' (slab_sets s)"
  proof (rule kmem_lists_frame)
    show "kmem_lists s (slab_sets s)" using inv by (simp add: kmem_inv_def)
    fix k x assume "x \<in> slab_sets s k"
    then have "sp_cache s x \<noteq> None" by (cases k) (simp add: slab_sets_def)
    then show "sp_next s' x = sp_next s x \<and> sp_prev s' x = sp_prev s x" using hdr by blast
  qed (use same in simp_all)
  moreover have "classes_ok s'" using inv same by (simp add: kmem_inv_def classes_ok_def)
  ultimately show ?thesis using inv core sets same(1) hdr by (simp add: kmem_inv_def)
qed

text \<open>Pages that no header claims go back to the page allocator.\<close>

lemma release_result:
  assumes inv: "kmem_inv s" and fits: "block_fits (pfn_count (pmm s)) p k" and dis: "blk p k \<inter> free_set (pmm s) = {}"
    and unclaimed: "\<And>h. kpages s h \<inter> blk p k = {}"
  shows "\<exists>s'. kmem_free_pages s (pfn_to_pa p) k = Some s' \<and> kmem_inv s' \<and> live s' = live s \<and>
    free_set (pmm s') = free_set (pmm s) \<union> blk p k \<and> hhdm s' = hhdm s \<and> obj_addr s' = obj_addr s \<and> slab_cap s' = slab_cap s \<and>
    kpages s' = kpages s \<and> pfn_count (pmm s') = pfn_count (pmm s)"
proof -
  have core: "kmem_core s" and pinv: "pmm_inv (pmm s)" using inv by (simp_all add: kmem_inv_def kmem_core_def)
  obtain m where m: "pmm_free_pages (pmm s) (pfn_to_pa p) (int k) = Some m" "pmm_inv m"
    "free_set m = free_set (pmm s) \<union> blk p k" "pfn_count m = pfn_count (pmm s)"
    "\<And>x. pmem m x = (if p * 4096 \<le> x \<and> x < p * 4096 + 2 ^ (12 + k) then 0 else pmem (pmm s) x)"
    using pmm_free_result [OF pinv fits dis] by blast
  have "p < 2 ^ 52" using block_fits_less [OF fits] pinv by (simp add: pmm_inv_def blocks_ok_def)
  then have pa: "phys_to_virt s (pfn_to_pa p) = hhdm s + p * 4096" by (simp add: phys_to_virt_def unat_pfn_to_pa)
  define gone where "gone v \<longleftrightarrow> hhdm s + p * 4096 \<le> v \<and> v < hhdm s + p * 4096 + PMM_ORDER_SIZE k" for v
  have out: "q < p \<or> p + 2 ^ k \<le> q" if "q \<notin> blk p k" for q using that by (auto simp: blk_def)
  have stay: "\<not> gone h \<and> pmem m (pg s h * 4096) = pmem (pmm s) (pg s h * 4096)" if "owned s h" for h
  proof -
    have at: "h = hhdm s + pg s h * 4096" using core that by (auto simp: kmem_core_def at_page_def)
    have "pg s h \<notin> blk p k" using owned_head [OF that] unclaimed [of h] by blast
    then consider "pg s h < p" | "p + 2 ^ k \<le> pg s h" using out by blast
    then have "pg s h * 4096 < p * 4096 \<or> p * 4096 + 2 ^ (12 + k) \<le> pg s h * 4096"
    proof cases
      case 2
      then have "(p + 2 ^ k) * 4096 \<le> pg s h * 4096" by (rule mult_le_mono1)
      then show ?thesis by (simp add: power_add algebra_simps)
    qed simp
    then show ?thesis using at m(5) by (auto simp: gone_def PMM_ORDER_SIZE_def)
  qed
  then have keep: "\<not> gone h" if "sp_cache s h \<noteq> None \<or> lh_magic s h = LARGE_MAGIC" for h
    using that by (simp add: owned_def)
  define s' where "s' = s\<lparr>pmm := m, sp_next := (\<lambda>v. if gone v then NULL else sp_next s v),
    sp_prev := (\<lambda>v. if gone v then NULL else sp_prev s v), sp_cache := (\<lambda>v. if gone v then None else sp_cache s v),
    sp_used := (\<lambda>v. if gone v then 0 else sp_used s v), sp_capacity := (\<lambda>v. if gone v then 0 else sp_capacity s v),
    sp_bitmap := (\<lambda>v. if gone v then (\<lambda>_. 0) else sp_bitmap s v), lh_magic := (\<lambda>v. if gone v then 0 else lh_magic s v),
    lh_order := (\<lambda>v. if gone v then 0 else lh_order s v)\<rparr>"
  have run: "kmem_free_pages s (pfn_to_pa p) k = Some s'"
    by (simp add: kmem_free_pages_def m(1) pa s'_def gone_def)
  have cache: "sp_cache s' = sp_cache s"
  proof
    fix h show "sp_cache s' h = sp_cache s h" using keep [of h] by (cases "sp_cache s h") (simp_all add: s'_def)
  qed
  have magic: "lh_magic s' h = LARGE_MAGIC \<longleftrightarrow> lh_magic s h = LARGE_MAGIC" for h
    using keep [of h] by (auto simp: s'_def LARGE_MAGIC_def)
  have core': "kmem_core s'"
  proof (rule kmem_core_transfer [OF core])
    fix h assume o: "owned s h"
    have "kpages s h \<inter> free_set (pmm s') = {}"
      using core_pages [OF core, of h] unclaimed [of h] m(3) by (auto simp: s'_def)
    then show "sp_capacity s' h = sp_capacity s h \<and> sp_used s' h = sp_used s h \<and>
      sp_bitmap s' h = sp_bitmap s h \<and> lh_order s' h = lh_order s h \<and>
      pmem (pmm s') (pg s h * 4096) = pmem (pmm s) (pg s h * 4096) \<and> kpages s h \<inter> free_set (pmm s') = {}"
      using stay [OF o] by (simp add: s'_def)
  qed (use m cache magic in \<open>simp_all add: s'_def\<close>)
  have "kmem_inv s'"
    by (rule kmem_inv_transfer [OF inv core' cache]) (use keep in \<open>simp_all add: s'_def\<close>)
  moreover have ob: "obj_addr s' = obj_addr s" "slab_cap s' = slab_cap s" by (rule geometry_cong; simp add: s'_def)+
  moreover have "live s' = live s"
  proof (rule live_cong)
    show "obj_addr s' = obj_addr s" by (rule ob(1))
    show "sp_cache s' q = Some d \<and> slab_bit s' q i \<longleftrightarrow> sp_cache s q = Some d \<and> slab_bit s q i" for q d i
      using cache keep [of q] by (auto simp: slab_bit_def s'_def)
  qed (rule magic)
  moreover have "kpages s' = kpages s"
    by (intro ext kpages_cong) (use cache magic keep in \<open>simp_all add: s'_def\<close>)
  moreover have "pfn_count (pmm s') = pfn_count (pmm s)" using m(4) by (simp add: s'_def)
  ultimately show ?thesis using run m(3) by (simp add: s'_def)
qed

section \<open>Freeing an object\<close>

text \<open>An empty slab that is on no list can be forgotten.\<close>

lemma disown_slab:
  assumes core: "kmem_core s" and lists: "kmem_lists s ((slab_sets s)((c, False) := slab_sets s (c, False) - {sp}))"
    and cls: "classes_ok s" and sp: "sp_cache s sp = Some c" "sp_used s sp = 0"
    and others: "\<forall>q. q \<noteq> sp \<and> sp_cache s q \<noteq> None \<longrightarrow> 0 < sp_used s q"
  shows "kmem_inv (s\<lparr>sp_cache := (sp_cache s)(sp := None)\<rparr>)" "live (s\<lparr>sp_cache := (sp_cache s)(sp := None)\<rparr>) = live s"
    "kpages (s\<lparr>sp_cache := (sp_cache s)(sp := None)\<rparr>) h \<inter> {pg s sp} = {}"
    "kpages (s\<lparr>sp_cache := (sp_cache s)(sp := None)\<rparr>) = (kpages s)(sp := {})"
proof -
  let ?t = "s\<lparr>sp_cache := (sp_cache s)(sp := None)\<rparr>"
  have nl: "lh_magic s sp \<noteq> LARGE_MAGIC" using core sp(1) by (auto simp: kmem_core_def large_ok_def)
  have geo: "obj_addr ?t = obj_addr s" "slab_cap ?t = slab_cap s" by (rule geometry_cong; simp)+
  have pg: "pg ?t = pg s" by (simp add: pg_def fun_eq_iff)
  have bit: "slab_bit ?t = slab_bit s" by (simp add: slab_bit_def fun_eq_iff)
  have kp: "kpages ?t sp = {}" using nl by (simp add: kpages_def)
  have kp': "kpages ?t h = kpages s h" if "h \<noteq> sp" for h using that pg by (simp add: kpages_def)
  show "kpages ?t = (kpages s)(sp := {})" using kp kp' by (simp add: fun_eq_iff)
  have core': "kmem_core ?t"
    by (rule kmem_core_adopt [OF core, where h = sp]) (use core nl kp core_pages [OF core] in \<open>auto simp: kmem_core_def owned_def\<close>)
  have empty: "\<not> slab_bit s sp i" for i
    using core_sp(5) [OF core sp(1)] sp(2) by (auto simp: slab_ok_def)
  have cap: "sp_capacity s sp \<noteq> 0"
    using core_sp [OF core sp(1)] slab_cap_pos by (auto simp: slab_ok_def)
  have sets: "slab_sets ?t = (slab_sets s)((c, False) := slab_sets s (c, False) - {sp})"
    unfolding slab_sets_def fun_eq_iff using sp cap by auto
  have "kmem_lists ?t ((slab_sets s)((c, False) := slab_sets s (c, False) - {sp}))"
    by (rule kmem_lists_frame [OF lists]) simp_all
  moreover have "classes_ok ?t" using cls by (simp add: classes_ok_def)
  ultimately show "kmem_inv ?t" using core' others sets by (simp add: kmem_inv_def)
  show "live ?t = live s" by (rule live_cong) (use empty bit geo in auto)
  show "kpages ?t h \<inter> {pg s sp} = {}"
  proof (cases "h = sp")
    case False
    have "pg s sp \<in> kpages s sp" using sp(1) by (simp add: kpages_def)
    moreover have "kpages s h \<inter> kpages s sp = {}" using core False by (simp add: kmem_core_def)
    ultimately show ?thesis using kp' [OF False] by auto
  qed (use kp in simp)
qed

text \<open>Freeing the page clears the header, so forgetting it first makes no difference.\<close>

lemma free_pages_disowned:
  assumes "sp = hhdm s + p * 4096" "unat (pfn_to_pa p) = p * 4096"
  shows "kmem_free_pages (s\<lparr>sp_cache := (sp_cache s)(sp := None)\<rparr>) (pfn_to_pa p) 0 = kmem_free_pages s (pfn_to_pa p) 0"
proof -
  have "(\<lambda>v. if hhdm s + p * 4096 \<le> v \<and> v < hhdm s + p * 4096 + 4096 then None else ((sp_cache s)(sp := None)) v) =
      (\<lambda>v. if hhdm s + p * 4096 \<le> v \<and> v < hhdm s + p * 4096 + 4096 then None else sp_cache s v)"
    using assms(1) by (simp add: fun_eq_iff)
  then show ?thesis
    using assms(2) by (simp add: kmem_free_pages_def phys_to_virt_def PMM_ORDER_SIZE_def cong: if_cong)
qed

lemma slab_sets_unmark:
  assumes "sp_cache s sp = Some c" "0 < sp_used s sp" "sp_used s sp \<le> sp_capacity s sp"
  shows "slab_sets (unmark s sp i) = (if sp_used s sp = sp_capacity s sp
    then (slab_sets s)((c, True) := slab_sets s (c, True) - {sp}, (c, False) := insert sp (slab_sets s (c, False)))
    else slab_sets s)"
  using assms by (auto simp: slab_sets_def fun_eq_iff)

lemma cache_free_result:
  assumes inv: "kmem_inv s" and sp: "sp_cache s sp = Some c" "slab_bit s sp i"
  shows "\<exists>s'. kmem_cache_free s c (obj_addr s c sp i) = Some s' \<and> kmem_inv s' \<and> live s' = live s - {obj_addr s c sp i} \<and>
    hhdm s' = hhdm s \<and> obj_addr s' = obj_addr s \<and> slab_cap s' = slab_cap s \<and> same_pool s s' \<and>
    (pg s sp \<in> free_set (pmm s') \<or> sp_cache s' sp = Some c \<and> \<not> slab_bit s' sp i)"
proof -
  have core: "kmem_core s" and lists: "kmem_lists s (slab_sets s)" and cls: "classes_ok s"
    and used: "\<forall>sp. sp_cache s sp \<noteq> None \<longrightarrow> 0 < sp_used s sp" using inv by (simp_all add: kmem_inv_def)
  note cs = core_sp [OF core sp(1)]
  have i: "i < slab_cap s c" using cs(5) sp(2) by (simp add: slab_ok_def)
  let ?o = "obj_addr s c sp i"
  have page: "align_down ?o 4096 = sp" by (rule obj_addr_page [OF cs(1) i cs(2)])
  have fo: "first_object s c sp = sp + slab_off s c" by (rule first_object_eq [OF cs(1,2)])
  have le: "first_object s c sp \<le> ?o" using fo by (simp add: obj_addr_def)
  have idx: "(?o - first_object s c sp) div c_object_size s c = i" using obj_addr_index [OF cs(1)] fo by simp
  let ?u0 = "unmark s sp i"
  define u where "u = ?u0\<lparr>c_free_count := (c_free_count ?u0)(c := c_free_count ?u0 c + 1)\<rparr>"
  have su: "same_core ?u0 u" unfolding u_def by (rule list_move_same_core(6))
  let ?full = "sp_used s sp = sp_capacity s sp"
  define v where "v = (if ?full then push_on (take_off u (c, True) sp) (c, False) sp else u)"
  have suv: "same_core u v"
    unfolding v_def using same_core_trans [OF move_same_core(2) [of u "(c, True)" sp] move_same_core(1)] by simp
  have sv: "same_core ?u0 v" by (rule same_core_trans [OF su suv])
  have sel: "sp_cache v = sp_cache s" "sp_used v = (sp_used s)(sp := sp_used s sp - 1)" "hhdm v = hhdm s" "pmm v = pmm s"
    using sv by (simp_all add: same_core_def)
  have run: "kmem_cache_free s c ?o = (if sp_used v sp = 0 then kmem_free_pages (take_off v (c, False) sp) (virt_to_phys v sp) 0 else Some v)"
    using cs(4) page sp(1) le idx free_in_slab_eq [OF sp(2)]
    unfolding kmem_cache_free_def v_def u_def
    by (simp add: Let_def not_less obj_addr_def)
  have corev: "kmem_core v" and livev: "live v = live s - {?o}" and clsv: "classes_ok v" and setsv: "slab_sets v = slab_sets ?u0"
    using same_core_facts [OF sv] unmark_core [OF core sp(2)] live_unmark [OF core sp] cls
    by (simp_all add: classes_ok_def)
  have ul: "0 < sp_used s sp" "sp_used s sp \<le> sp_capacity s sp"
    using used sp(1) used_le_capacity [OF core sp(1)] by auto
  have "kmem_lists u (slab_sets s)" by (rule kmem_lists_frame [OF lists]) (simp_all add: u_def)
  have listsv: "kmem_lists v (slab_sets v)"
  proof (cases ?full)
    case True
    let ?S = "(slab_sets s)((c, True) := slab_sets s (c, True) - {sp})"
    have cu: "cache_count u = cache_count s" by (simp add: u_def)
    have "sp \<in> slab_sets s (c, True)" using True sp(1) by (simp add: slab_sets_def)
    then have "kmem_lists (take_off u (c, True) sp) ?S"
      using kmem_lists_take [OF \<open>kmem_lists u (slab_sets s)\<close>, of "(c, True)" sp] cs(6) cu by simp
    moreover have "cache_count (take_off u (c, True) sp) = cache_count s"
      using move_same_core(2) [of u "(c, True)" sp] cu by (simp add: same_core_def)
    moreover have "\<forall>k. sp \<notin> ?S k" using True sp(1) by (auto simp: slab_sets_def)
    ultimately have "kmem_lists v (?S((c, False) := insert sp (?S (c, False))))"
      unfolding v_def using kmem_lists_push [of _ ?S "(c, False)" sp] True cs(4,6) by simp
    then show ?thesis using setsv slab_sets_unmark [OF sp(1) ul] True by simp
  next
    case False
    then show ?thesis
      using \<open>kmem_lists u (slab_sets s)\<close> setsv slab_sets_unmark [OF sp(1) ul] by (simp add: v_def)
  qed
  have others: "\<forall>q. q \<noteq> sp \<and> sp_cache v q \<noteq> None \<longrightarrow> 0 < sp_used v q" using used sel by simp
  have "kpages ?u0 = kpages s" by (intro ext kpages_cong) simp_all
  then have "same_pool s ?u0" by (simp add: same_pool_def pool_def)
  then have poolv: "same_pool s v" using same_pool_trans same_core_pool [OF sv] by blast
  show ?thesis
  proof (cases "sp_used v sp = 0")
    case False
    then have "0 < sp_used v sp" by simp
    then have "\<forall>q. sp_cache v q \<noteq> None \<longrightarrow> 0 < sp_used v q" using others by metis
    then have "kmem_inv v" using corev listsv clsv by (simp add: kmem_inv_def)
    moreover have "obj_addr v = obj_addr s" "slab_cap v = slab_cap s" "\<not> slab_bit v sp i"
      using same_core_facts(5,6) [OF sv] geometry_cong(2,4) [of v s] sv slab_bit_unmark by (simp_all add: same_core_def)
    ultimately show ?thesis using run False livev sel sp(1) poolv by simp
  next
    case True
    let ?w = "take_off v (c, False) sp"
    have sw: "same_core v ?w" by simp
    have sel': "sp_cache ?w = sp_cache s" "sp_used ?w = sp_used v" "hhdm ?w = hhdm s" "pmm ?w = pmm s" "cache_count v = cache_count s"
      using sw sel sv unfolding same_core_def by simp_all
    note f = same_core_facts [OF sw]
    have "sp \<in> slab_sets v (c, False)"
      using True sel sp(1) slab_cap_pos [OF cs(1)] cs(5) sv by (auto simp: slab_sets_def slab_ok_def same_core_def)
    then have "kmem_lists ?w ((slab_sets ?w)((c, False) := slab_sets ?w (c, False) - {sp}))"
      using kmem_lists_take [OF listsv, of "(c, False)" sp] cs(6) sel' f(3) by simp
    note d = disown_slab [of ?w c sp, OF _ this]
    let ?t = "?w\<lparr>sp_cache := (sp_cache ?w)(sp := None)\<rparr>"
    have t: "kmem_inv ?t" "live ?t = live s - {?o}" "\<And>h. kpages ?t h \<inter> {pg ?w sp} = {}" "kpages ?t = (kpages ?w)(sp := {})"
      using d f corev clsv sel' sp(1) True others sel livev by simp_all
    have at: "sp = hhdm s + pg s sp * 4096" "0 < pg s sp" "pg s sp < pfn_count (pmm s)" using cs(3) by (auto simp: at_page_def)
    have pgw: "pg ?w sp = pg s sp" using sel' by (simp add: pg_def)
    have "pg s sp \<notin> free_set (pmm s)"
      using core_pages [OF core, of sp] sp(1) by (auto simp: kpages_def)
    then obtain s' where s': "kmem_free_pages ?t (pfn_to_pa (pg s sp)) 0 = Some s'" "kmem_inv s'" "live s' = live ?t"
        "pg s sp \<in> free_set (pmm s')" "hhdm s' = hhdm ?t" "obj_addr s' = obj_addr ?t" "slab_cap s' = slab_cap ?t"
        "free_set (pmm s') = free_set (pmm s) \<union> {pg s sp}" "kpages s' = kpages ?t" "pfn_count (pmm s') = pfn_count (pmm s)"
      using release_result [OF t(1), of "pg s sp" 0] at t(3) pgw sel' by (auto simp: block_fits_def)
    have "virt_to_phys v sp = pfn_to_pa (pg s sp)"
      using virt_to_phys_page [of v "pg s sp"] at(1) sel(3) by simp
    moreover have p52: "pg s sp < 2 ^ 52" using at(3) core by (auto simp: kmem_core_def pmm_inv_def blocks_ok_def)
    have "kmem_free_pages ?t (pfn_to_pa (pg s sp)) 0 = kmem_free_pages ?w (pfn_to_pa (pg s sp)) 0"
      by (rule free_pages_disowned) (use at p52 in \<open>simp_all add: sel' unat_pfn_to_pa\<close>)
    ultimately have "kmem_cache_free s c ?o = Some s'" using run True s'(1) by (metis (full_types))
    moreover have "obj_addr ?t = obj_addr s" "slab_cap ?t = slab_cap s"
      using geometry_cong(2,4) [of ?t s] sv sw by (simp_all add: same_core_def)
    moreover have "same_pool s s'"
    proof -
      have "kpages ?w sp = {pg s sp}" using sel' sp(1) pgw by (simp add: kpages_def)
      then have "pool s' = pool ?w"
        using s'(8,9) t(4) sel' by (intro pool_swap [of _ sp]) auto
      then show ?thesis
        using same_pool_trans [OF poolv same_core_pool [OF sw]] s'(5,10) sel' by (simp add: same_pool_def)
    qed
    ultimately show ?thesis using s'(2-7) t(2) sel' by simp
  qed
qed

end
