(* ===== verification/Kmalloc.thy ===== *)
theory Kmalloc
  imports Slab_Ops
begin

text \<open>
  The general-purpose allocator on top of the caches: large blocks, \<^verbatim>\<open>kmalloc\<close>, \<^verbatim>\<open>kfree\<close> and
  \<^verbatim>\<open>kzalloc\<close> of \<^verbatim>\<open>kernel/mm/slab.c\<close>, the bytes each live object owns, and the set-up of the size
  classes.
\<close>

section \<open>The bytes of an object\<close>

definition extent :: "kmem_state \<Rightarrow> ptr \<Rightarrow> ptr set" where
  "extent s p = {a. \<exists>sp c i. sp_cache s sp = Some c \<and> slab_bit s sp i \<and> p = obj_addr s c sp i \<and>
       p \<le> a \<and> a < p + c_object_size s c} \<union>
     {a. \<exists>h. lh_magic s h = LARGE_MAGIC \<and> p = h + sizeof_large_hdr \<and> p \<le> a \<and> a < h + 4096 * 2 ^ lh_order s h}"

lemma extent_object:
  assumes "sp_cache s sp = Some c" "slab_bit s sp i" "n \<le> c_object_size s c"
  shows "{obj_addr s c sp i..<obj_addr s c sp i + n} \<subseteq> extent s (obj_addr s c sp i)"
proof
  fix a assume "a \<in> {obj_addr s c sp i..<obj_addr s c sp i + n}"
  then have "obj_addr s c sp i \<le> a" "a < obj_addr s c sp i + c_object_size s c" using assms(3) by auto
  then show "a \<in> extent s (obj_addr s c sp i)" using assms(1,2) unfolding extent_def by blast
qed

lemma extent_slab_page:
  assumes core: "kmem_core s" and sp: "sp_cache s sp = Some c" "slab_bit s sp i"
    and a: "obj_addr s c sp i \<le> a" "a < obj_addr s c sp i + c_object_size s c"
  shows "sp < a" "a < sp + 4096" "hhdm s \<le> a" "pg s a = pg s sp"
proof -
  note cs = core_sp [OF core sp(1)]
  have "i < slab_cap s c" using cs(5) sp(2) by (simp add: slab_ok_def)
  note ip = obj_in_page [OF cs(1) this]
  show lo: "sp < a" using a(1) slab_off_ge [OF cs(1)] by (simp add: obj_addr_def sizeof_slab_page_def)
  show hi: "a < sp + 4096" using a(2) ip by (simp add: obj_addr_def)
  have at: "sp = hhdm s + pg s sp * 4096" using cs(3) by (simp add: at_page_def)
  then show h: "hhdm s \<le> a" using lo by simp
  have "pg s sp * 4096 \<le> a - hhdm s" "a - hhdm s < pg s sp * 4096 + 4096" using at lo hi by linarith+
  then show "pg s a = pg s sp" unfolding pg_def [of s a] by (simp add: div_nat_eqI)
qed

lemma extent_large_page:
  assumes core: "kmem_core s" and h: "lh_magic s h = LARGE_MAGIC" and a: "h \<le> a" "a < h + 4096 * 2 ^ lh_order s h"
  shows "hhdm s \<le> a" "pg s a \<in> kpages s h"
proof -
  have ok: "at_page s h" "large_ok s h" using core h by (auto simp: kmem_core_def owned_def)
  have at: "h = hhdm s + pg s h * 4096" using ok(1) by (simp add: at_page_def)
  then show "hhdm s \<le> a" using a(1) by linarith
  have "pg s h * 4096 \<le> a - hhdm s" "a - hhdm s < (pg s h + 2 ^ lh_order s h) * 4096" using at a by (simp_all add: algebra_simps)
  then have "pg s h \<le> pg s a" "pg s a < pg s h + 2 ^ lh_order s h"
    unfolding pg_def [of s a] by (simp_all add: less_eq_div_iff_mult_less_eq div_less_iff_less_mult)
  then show "pg s a \<in> kpages s h" using ok(2) h by (simp add: kpages_def large_ok_def blk_def)
qed

text \<open>The header behind a live object, whose pages hold all of its bytes.\<close>

lemma extent_owner:
  assumes core: "kmem_core s" and a: "a \<in> extent s p"
  shows "\<exists>h. owned s h \<and> pg s a \<in> kpages s h \<and> hhdm s \<le> a \<and> a \<noteq> h"
proof -
  from a consider sp c i where "sp_cache s sp = Some c" "slab_bit s sp i" "p = obj_addr s c sp i" "p \<le> a" "a < p + c_object_size s c"
    | h where "lh_magic s h = LARGE_MAGIC" "p = h + sizeof_large_hdr" "p \<le> a" "a < h + 4096 * 2 ^ lh_order s h"
    by (auto simp: extent_def)
  then show ?thesis
  proof cases
    case 1
    note e = extent_slab_page [OF core 1(1,2) 1(4,5) [unfolded 1(3)]]
    then have "owned s sp" "pg s a \<in> kpages s sp" using 1(1) by (auto simp: owned_def kpages_def)
    then show ?thesis using e by blast
  next
    case 2
    have "h \<le> a" "a \<noteq> h" using 2(2,3) by (auto simp: sizeof_large_hdr_def)
    moreover have "owned s h" using 2(1) by (simp add: owned_def)
    ultimately show ?thesis using extent_large_page [OF core 2(1) _ 2(4)] by blast
  qed
qed

lemma extent_disjoint:
  assumes core: "kmem_core s" and "p \<noteq> q"
  shows "extent s p \<inter> extent s q = {}"
proof (rule ccontr)
  assume "\<not> ?thesis"
  then obtain a where a: "a \<in> extent s p" "a \<in> extent s q" by blast
  have own: "sp = sp'" if "pg s a \<in> kpages s sp" "pg s a \<in> kpages s sp'" for sp sp'
  proof (rule ccontr)
    assume "sp \<noteq> sp'"
    then have "kpages s sp \<inter> kpages s sp' = {}" using core by (simp add: kmem_core_def)
    then show False using that by blast
  qed
  have large: "p' = h + sizeof_large_hdr"
    if "lh_magic s h = LARGE_MAGIC" "pg s a \<in> kpages s h" "a \<in> extent s p'" for p' h
  proof -
    from that(3) consider sp c i where "sp_cache s sp = Some c" "slab_bit s sp i" "p' = obj_addr s c sp i" "p' \<le> a" "a < p' + c_object_size s c"
      | h' where "lh_magic s h' = LARGE_MAGIC" "p' = h' + sizeof_large_hdr" "p' \<le> a" "a < h' + 4096 * 2 ^ lh_order s h'"
      by (auto simp: extent_def)
    then show ?thesis
    proof cases
      case 1
      have "pg s a \<in> kpages s sp"
        using extent_slab_page(4) [OF core 1(1,2) 1(4,5) [unfolded 1(3)]] 1(1) by (simp add: kpages_def)
      then have "sp = h" using own that(2) by blast
      then show ?thesis using core that(1) 1(1) by (auto simp: kmem_core_def large_ok_def)
    next
      case 2
      have "h' \<le> a" using 2(2,3) by simp
      then have "h' = h" using extent_large_page(2) [OF core 2(1) _ 2(4)] own that(2) by blast
      then show ?thesis using 2(2) by simp
    qed
  qed
  from a(1) consider sp c i where "sp_cache s sp = Some c" "slab_bit s sp i" "p = obj_addr s c sp i" "p \<le> a" "a < p + c_object_size s c"
    | h where "lh_magic s h = LARGE_MAGIC" "p = h + sizeof_large_hdr" "h \<le> a" "a < h + 4096 * 2 ^ lh_order s h"
    by (auto simp: extent_def)
  then show False
  proof cases
    case 2
    then show ?thesis using large [OF 2(1) extent_large_page(2) [OF core 2(1,3,4)] a(2)] \<open>p \<noteq> q\<close> by simp
  next
    case 1
    note p = this and ep = extent_slab_page [OF core 1(1,2) 1(4,5) [unfolded 1(3)]]
    from a(2) consider sp' c' i' where "sp_cache s sp' = Some c'" "slab_bit s sp' i'" "q = obj_addr s c' sp' i'" "q \<le> a" "a < q + c_object_size s c'"
      | h where "lh_magic s h = LARGE_MAGIC" "q = h + sizeof_large_hdr" "h \<le> a" "a < h + 4096 * 2 ^ lh_order s h"
      by (auto simp: extent_def)
    then show ?thesis
    proof cases
      case 2
      then show ?thesis using large [OF 2(1) extent_large_page(2) [OF core 2(1,3,4)] a(1)] \<open>p \<noteq> q\<close> by simp
    next
      case q: 1
      have "pg s a \<in> kpages s sp" "pg s a \<in> kpages s sp'"
        using ep(4) extent_slab_page(4) [OF core q(1,2) q(4,5) [unfolded q(3)]] p(1) q(1) by (simp_all add: kpages_def)
      then have eq: "sp' = sp" using own by blast
      then have "c' = c" using p(1) q(1) by simp
      note eq = eq this
      have "(a - (sp + slab_off s c)) div c_object_size s c = j"
        if "obj_addr s c sp j \<le> a" "a < obj_addr s c sp j + c_object_size s c" for j
        using that by (intro div_nat_eqI) (auto simp: obj_addr_def mult.commute)
      then have "i = i'" using p(3-5) q(3-5) eq by blast
      then show ?thesis using p(3) q(3) eq \<open>p \<noteq> q\<close> by simp
    qed
  qed
qed

section \<open>Large blocks\<close>

lemma large_order_correct: "large_order req k = Some j \<Longrightarrow> k < 11 \<Longrightarrow> k \<le> j \<and> j < 11 \<and> req \<le> 4096 * 2 ^ j"
proof (induction req k rule: large_order.induct)
  case (1 req k)
  show ?case using 1 large_order.simps [of req k] by (auto simp: PMM_MAX_ORDER_def split: if_splits)
qed

lemma large_order_none: "large_order req k = None \<Longrightarrow> k < 11 \<Longrightarrow> 4096 * 2 ^ 10 < req"
proof (induction req k rule: large_order.induct)
  case (1 req k)
  then show ?case
    using large_order.simps [of req k] by (cases "k = 10") (auto simp: PMM_MAX_ORDER_def split: if_splits)
qed

text \<open>An object with at least \<open>n\<close> bytes.\<close>

definition room :: "kmem_state \<Rightarrow> ptr \<Rightarrow> nat \<Rightarrow> bool" where
  "room s p n \<longleftrightarrow> p \<in> live s \<and> {p..<p + n} \<subseteq> extent s p"

lemma large_alloc_result:
  assumes inv: "kmem_inv s"
  shows "\<exists>p s'. large_alloc s sz = (p, s') \<and> alloc_outcome s p s' \<and> (p \<noteq> 0 \<longrightarrow> room s' p sz)"
proof -
  have core: "kmem_core s" using inv by (simp add: kmem_inv_def)
  have zero: ?thesis if "large_alloc s sz = (0, s)" using that inv by (simp add: alloc_outcome_def)
  show ?thesis
  proof (cases "2 ^ 64 \<le> sz + sizeof_large_hdr \<or> large_order (sz + sizeof_large_hdr) 0 = None")
    case True
    then show ?thesis using zero by (auto simp: large_alloc_def)
  next
    case False
    then obtain k where k: "large_order (sz + sizeof_large_hdr) 0 = Some k" and sm: "\<not> 2 ^ 64 \<le> sz + sizeof_large_hdr" by auto
    have k11: "k < 11" "sz + sizeof_large_hdr \<le> 4096 * 2 ^ k" using large_order_correct [OF k] by simp_all
    show ?thesis
    proof (cases rule: kmem_alloc_result [OF core k11(1), case_names fail 2])
      case fail
      then show ?thesis using zero sm k by (simp add: large_alloc_def)
    next
      case (2 p m)
      let ?h = "hhdm s + p * 4096"
      define m' where "m' = m\<lparr>pmem := (pmem m)(p * 4096 := PAGE_KIND_LARGE)\<rparr>"
      define s' where "s' = s\<lparr>pmm := m', lh_magic := (lh_magic s)(?h := LARGE_MAGIC), lh_order := (lh_order s)(?h := k)\<rparr>"
      have run: "large_alloc s sz = (?h + sizeof_large_hdr, s')"
        using sm k 2(1-3) by (simp add: large_alloc_def phys_to_virt_def write_byte_def Let_def s'_def m'_def)
      have p: "p \<in> free_set (pmm s)" "p \<notin> free_set m" using 2(5,6) head_in_blk by auto
      note w = pmm_inv_write [OF 2(8) p(2), of PAGE_KIND_LARGE, folded m'_def]
      have none: "sp_cache s ?h = None" "lh_magic s ?h \<noteq> LARGE_MAGIC"
        using fresh_not_owned [OF core p(1)] by (auto simp: owned_def)
      have pf: "pmem m = pmem (pmm s)" "pfn_count m = pfn_count (pmm s)" using 2(9) by (simp_all add: pmm_frame_def)
      have pg: "pg s' = pg s" by (simp add: pg_def s'_def fun_eq_iff)
      have core': "kmem_core s'"
      proof (rule kmem_core_adopt [OF core, where h = ?h])
        show "pmm_inv (pmm s')" using w by (simp add: s'_def)
        show "pfn_count (pmm s') = pfn_count (pmm s)" using pf by (simp add: s'_def m'_def)
        fix g assume g: "g \<noteq> ?h" "owned s g"
        have "pg s g \<noteq> p" using owned_head [OF g(2)] core_pages [OF core, of g] p(1) by blast
        then have "pmem (pmm s') (pg s g * 4096) = pmem (pmm s) (pg s g * 4096)" by (simp add: s'_def m'_def pf)
        moreover have "kpages s g \<inter> free_set (pmm s') = {}" using core_pages [OF core, of g] 2(6) w by (auto simp: s'_def)
        ultimately show "sp_capacity s' g = sp_capacity s g \<and> sp_used s' g = sp_used s g \<and>
          sp_bitmap s' g = sp_bitmap s g \<and> lh_order s' g = lh_order s g \<and>
          pmem (pmm s') (pg s g * 4096) = pmem (pmm s) (pg s g * 4096) \<and> kpages s g \<inter> free_set (pmm s') = {}"
          using g(1) by (simp add: s'_def)
      next
        have kp: "kpages s' ?h = blk p k" using none(1) by (simp add: kpages_def s'_def pg_def)
        show "kpages s' ?h \<inter> free_set (pmm s') = {}" "kpages s' ?h \<subseteq> free_set (pmm s)"
          using kp 2(5,6) w by (auto simp: s'_def)
        show "slab_ok s' ?h d" if "sp_cache s' ?h = Some d" for d using that none(1) by (simp add: s'_def)
        show "large_ok s' ?h"
          using none(1) 2(4) pf pg by (simp add: large_ok_def) (simp add: s'_def m'_def)
      qed (simp_all add: s'_def 2(10))
      have "pool s' = pool s"
      proof (rule pool_swap)
        have "kpages s' ?h = blk p k" "kpages s ?h = {}" using none by (simp_all add: kpages_def s'_def pg_def)
        then show "free_set (pmm s') \<union> kpages s' ?h = free_set (pmm s) \<union> kpages s ?h" using 2(5,6) w by (auto simp: s'_def)
        show "kpages s' g = kpages s g" if "g \<noteq> ?h" for g using that by (intro kpages_cong) (simp_all add: s'_def)
      qed
      then have "same_pool s s'" using pf by (simp add: same_pool_def s'_def m'_def)
      moreover have "kmem_inv s'" by (rule kmem_inv_transfer [OF inv core']) (simp_all add: s'_def)
      moreover have ne: "?h + sizeof_large_hdr \<notin> live s"
      proof
        assume "?h + sizeof_large_hdr \<in> live s"
        then consider q d i where "sp_cache s q = Some d" "slab_bit s q i" "?h + sizeof_large_hdr = obj_addr s d q i"
          | g where "lh_magic s g = LARGE_MAGIC" "?h + sizeof_large_hdr = g + sizeof_large_hdr" by (auto simp: live_def)
        then show False
        proof cases
          case 1
          have "i < slab_cap s' d" "sp_cache s' q = Some d" "lh_magic s' ?h = LARGE_MAGIC" "obj_addr s' = obj_addr s"
            using core_sp(5) [OF core 1(1)] 1 geometry_cong [of s' s] by (simp_all add: slab_ok_def s'_def)
          then show False using obj_addr_not_large [OF core', of q d i ?h] 1(3) by simp
        next
          case 2 then show False using none(2) by simp
        qed
      qed
      moreover have lv: "live s' = insert (?h + sizeof_large_hdr) (live s)"
      proof -
        have "slab_bit s' = slab_bit s" "obj_addr s' = obj_addr s" "sp_cache s' = sp_cache s"
          using geometry_cong [of s' s] by (simp_all add: s'_def slab_bit_def fun_eq_iff)
        then show ?thesis unfolding live_def by (auto simp: s'_def)
      qed
      moreover have "{?h + sizeof_large_hdr..<?h + sizeof_large_hdr + sz} \<subseteq> extent s' (?h + sizeof_large_hdr)"
      proof
        fix a assume "a \<in> {?h + sizeof_large_hdr..<?h + sizeof_large_hdr + sz}"
        moreover have "lh_magic s' ?h = LARGE_MAGIC" "lh_order s' ?h = k" by (simp_all add: s'_def)
        ultimately show "a \<in> extent s' (?h + sizeof_large_hdr)" using k11(2) unfolding extent_def by auto
      qed
      ultimately show ?thesis using run by (simp add: alloc_outcome_def room_def sizeof_large_hdr_def)
    qed
  qed
qed

lemma page_of_large:
  assumes "kmem_core s" "lh_magic s h = LARGE_MAGIC"
  shows "align_down (h + sizeof_large_hdr) 4096 = h" "read_byte s h = PAGE_KIND_LARGE" "h = hhdm s + pg s h * 4096"
    "block_fits (pfn_count (pmm s)) (pg s h) (lh_order s h)" "kpages s h = blk (pg s h) (lh_order s h)"
proof -
  have ok: "at_page s h" "4096 dvd hhdm s" "large_ok s h" using assms by (auto simp: kmem_core_def owned_def)
  then have "4096 dvd h" using at_page_dvd by blast
  then show "align_down (h + sizeof_large_hdr) 4096 = h"
    by (auto simp: align_down_page sizeof_large_hdr_def elim!: dvdE)
  show at: "h = hhdm s + pg s h * 4096" using ok(1) by (simp add: at_page_def)
  then have "h - hhdm s = pg s h * 4096" by linarith
  then show "read_byte s h = PAGE_KIND_LARGE" using ok(3) by (simp add: read_byte_def large_ok_def)
  show "block_fits (pfn_count (pmm s)) (pg s h) (lh_order s h)" "kpages s h = blk (pg s h) (lh_order s h)"
    using ok(3) assms(2) by (simp_all add: large_ok_def kpages_def)
qed

lemma large_free_result:
  assumes inv: "kmem_inv s" and h: "lh_magic s h = LARGE_MAGIC"
  shows "\<exists>s'. large_free s (h + sizeof_large_hdr) = Some s' \<and> kmem_inv s' \<and> live s' = live s - {h + sizeof_large_hdr} \<and>
    hhdm s' = hhdm s \<and> pg s h \<in> free_set (pmm s') \<and> same_pool s s'"
proof -
  have core: "kmem_core s" using inv by (simp add: kmem_inv_def)
  note P = page_of_large [OF core h]
  let ?p = "pg s h" and ?k = "lh_order s h"
  define m where "m = (pmm s)\<lparr>pmem := (pmem (pmm s))(?p * 4096 := 0)\<rparr>"
  define t where "t = s\<lparr>pmm := m, lh_magic := (lh_magic s)(h := 0)\<rparr>"
  have pinv: "pmm_inv (pmm s)" using core by (simp add: kmem_core_def)
  have free: "blk ?p ?k \<inter> free_set (pmm s) = {}" using core_pages [OF core, of h] P(5) by simp
  then have "?p \<notin> free_set (pmm s)" using head_in_blk by blast
  note w = pmm_inv_write [OF pinv this, of 0, folded m_def]
  have none: "sp_cache s h = None" using core h by (auto simp: kmem_core_def large_ok_def)
  have other: "kpages s g \<inter> kpages s h = {}" if "g \<noteq> h" for g using core that by (simp add: kmem_core_def)
  have lm: "LARGE_MAGIC \<noteq> 0" by (simp add: LARGE_MAGIC_def)
  have nil: "kpages t h = {}" using none lm by (simp add: kpages_def t_def)
  have pgt: "pg t = pg s" by (simp add: pg_def t_def fun_eq_iff)
  have same: "kpages t g = kpages s g" if "g \<noteq> h" for g unfolding kpages_def pgt using that by (simp add: t_def)
  have core': "kmem_core t"
  proof (rule kmem_core_adopt [OF core, where h = h])
    fix g assume g: "g \<noteq> h" "owned s g"
    have "?p \<in> kpages s h" using P(5) by simp
    then have "pg s g \<noteq> ?p" using owned_head [OF g(2)] other [OF g(1)] by auto
    then show "sp_capacity t g = sp_capacity s g \<and> sp_used t g = sp_used s g \<and>
      sp_bitmap t g = sp_bitmap s g \<and> lh_order t g = lh_order s g \<and>
      pmem (pmm t) (pg s g * 4096) = pmem (pmm s) (pg s g * 4096) \<and> kpages s g \<inter> free_set (pmm t) = {}"
      using core_pages [OF core, of g] w by (simp add: t_def) (simp add: m_def)
  qed (use w nil none lm in \<open>simp_all add: t_def m_def owned_def\<close>)
  have inv': "kmem_inv t" by (rule kmem_inv_transfer [OF inv core']) (simp_all add: t_def)
  have live': "live t = live s - {h + sizeof_large_hdr}"
  proof -
    have e: "slab_bit t = slab_bit s" "obj_addr t = obj_addr s" "sp_cache t = sp_cache s"
      using geometry_cong [of t s] by (simp_all add: t_def slab_bit_def fun_eq_iff)
    have ne: "obj_addr s c sp i \<noteq> h + sizeof_large_hdr" if "sp_cache s sp = Some c" "slab_bit s sp i" for sp c i
      using obj_addr_not_large [OF core that(1) _ h, of i] core_sp(5) [OF core that(1)] that(2) by (simp add: slab_ok_def)
    have mg: "lh_magic t g = LARGE_MAGIC \<longleftrightarrow> g \<noteq> h \<and> lh_magic s g = LARGE_MAGIC" for g using lm by (simp add: t_def)
    let ?A = "{a. \<exists>sp c i. sp_cache s sp = Some c \<and> slab_bit s sp i \<and> a = obj_addr s c sp i}"
    have "h + sizeof_large_hdr \<notin> ?A" using ne by fastforce
    then have A: "?A - {h + sizeof_large_hdr} = ?A" by blast
    have "{a. \<exists>g. (g \<noteq> h \<and> lh_magic s g = LARGE_MAGIC) \<and> a = g + sizeof_large_hdr} =
        {a. \<exists>g. lh_magic s g = LARGE_MAGIC \<and> a = g + sizeof_large_hdr} - {h + sizeof_large_hdr}" by auto
    then show ?thesis unfolding live_def e mg Un_Diff A by simp
  qed
  have "kpages t g \<inter> blk ?p ?k = {}" for g using nil same [of g] other [of g] P(5) by (cases "g = h") simp_all
  then obtain s' where s': "kmem_free_pages t (pfn_to_pa ?p) ?k = Some s'" "kmem_inv s'" "live s' = live t"
      "free_set (pmm s') = free_set (pmm t) \<union> blk ?p ?k" "hhdm s' = hhdm t" "kpages s' = kpages t"
      "pfn_count (pmm s') = pfn_count (pmm t)"
    using release_result [OF inv', of ?p ?k] P(4) free w by (auto simp: t_def m_def)
  have "h - hhdm s = ?p * 4096" using P(3) by linarith
  then have "write_byte s h 0 = s\<lparr>pmm := m\<rparr>" by (simp add: write_byte_def m_def)
  moreover have "virt_to_phys s h = pfn_to_pa ?p" using virt_to_phys_page [of s ?p] P(3) by simp
  ultimately have "large_free s (h + sizeof_large_hdr) = Some s'"
    using s'(1) P(2) h by (simp add: large_free_def Let_def t_def)
  moreover have "pool s' = pool s"
    using s'(4,6) nil same P(5) w by (intro pool_swap [of _ h]) (auto simp: t_def)
  then have "same_pool s s'" using s'(5,7) by (simp add: same_pool_def t_def m_def)
  ultimately show ?thesis using s' live' by (simp add: t_def)
qed

section \<open>kmalloc and kfree\<close>

lemma size_shift_correct: "2 ^ k \<le> m \<Longrightarrow> m = 2 ^ j \<Longrightarrow> n \<le> m \<Longrightarrow> k \<le> size_shift n k \<and> size_shift n k \<le> j \<and> n \<le> 2 ^ size_shift n k"
proof (induction n k rule: size_shift.induct)
  case (1 n k)
  show ?case
  proof (cases "2 ^ k < n")
    case True
    then have "(2 :: nat) ^ k < 2 ^ j" using 1(3,4) by linarith
    then have "k < j" by (rule power_less_imp_less_exp [rotated]) simp
    then have "(2 :: nat) ^ (k + 1) \<le> 2 ^ j" by (intro power_increasing) auto
    then show ?thesis using 1(1) [OF True] 1(3,4) True size_shift.simps [of n k] by simp
  next
    case False
    have "k \<le> j" using 1(2,3) power_le_imp_le_exp [of 2 k j] by simp
    then show ?thesis using False size_shift.simps [of n k] by simp
  qed
qed

lemma kmalloc_result:
  assumes inv: "kmem_inv s"
  shows "\<exists>p s'. kmalloc s sz = Some (p, s') \<and> alloc_outcome s p s' \<and> (p \<noteq> 0 \<longrightarrow> room s' p sz) \<and>
    (p = 0 \<longrightarrow> sz = 0 \<or> 2048 < sz \<or> free_set (pmm s) = {})"
proof -
  consider "sz = 0" | "2048 < sz" | "0 < sz" "sz \<le> 2048" by linarith
  then show ?thesis
  proof cases
    case 1
    then show ?thesis using inv by (simp add: kmalloc_def alloc_outcome_def)
  next
    case 2
    then show ?thesis using large_alloc_result [OF inv, of sz] by (auto simp: kmalloc_def KMALLOC_MAX_SHIFT_def)
  next
    case 3
    let ?i = "size_shift sz 4 - 4"
    have "4 \<le> size_shift sz 4 \<and> size_shift sz 4 \<le> 11 \<and> sz \<le> 2 ^ size_shift sz 4"
      by (rule size_shift_correct [OF _ _ 3(2)]) simp_all
    then have sh: "4 \<le> size_shift sz 4" "size_shift sz 4 \<le> 11" "sz \<le> 2 ^ size_shift sz 4" by blast+
    then have i: "?i < 8" "?i + 4 = size_shift sz 4" by simp_all
    have "classes_ok s" using inv by (simp add: kmem_inv_def)
    with i(1) obtain c where c0: "c < cache_count s" "kmalloc_caches s ?i = Some c" "c_object_size s c = 2 ^ (?i + 4)"
      unfolding classes_ok_def by blast
    note c = c0(1,2) c0(3) [unfolded i(2)]
    obtain p s' where r: "kmem_cache_alloc s c = (p, s')" "alloc_outcome s p s'" "c_object_size s' = c_object_size s" "c_align s' = c_align s"
      "p = 0 \<longrightarrow> free_set (pmm s) = {}" "p \<noteq> 0 \<longrightarrow> (\<exists>sp i. sp_cache s' sp = Some c \<and> i < slab_cap s c \<and> slab_bit s' sp i \<and> p = obj_addr s c sp i)"
      using cache_alloc_result [OF inv c(1)] by metis
    have "room s' p sz" if nz: "p \<noteq> 0"
    proof -
      obtain sp i where sp: "sp_cache s' sp = Some c" "slab_bit s' sp i" "p = obj_addr s' c sp i"
        using r(6) nz geometry_cong(4) [OF r(3,4)] by auto
      have "sz \<le> c_object_size s' c" using sh(3) c(3) r(3) by simp
      then have "{p..<p + sz} \<subseteq> extent s' p" using extent_object [OF sp(1,2)] sp(3) by simp
      moreover have "p \<in> live s'" using r(2) nz by (simp add: alloc_outcome_def)
      ultimately show ?thesis by (simp add: room_def)
    qed
    moreover have "kmalloc s sz = Some (p, s')"
      using 3 c(2) r(1) by (simp add: kmalloc_def KMALLOC_MAX_SHIFT_def KMALLOC_MIN_SHIFT_def)
    ultimately show ?thesis using r(2,5) by blast
  qed
qed

lemma page_of_object:
  assumes "kmem_core s" "sp_cache s sp = Some c" "i < slab_cap s c"
  shows "align_down (obj_addr s c sp i) 4096 = sp" "read_byte s sp = PAGE_KIND_SLAB" "sp = hhdm s + pg s sp * 4096"
proof -
  note cs = core_sp [OF assms(1,2)]
  show "align_down (obj_addr s c sp i) 4096 = sp" by (rule obj_addr_page [OF cs(1) assms(3) cs(2)])
  show at: "sp = hhdm s + pg s sp * 4096" using cs(3) by (simp add: at_page_def)
  then have "sp - hhdm s = pg s sp * 4096" by linarith
  then show "read_byte s sp = PAGE_KIND_SLAB" using cs(5) by (simp add: read_byte_def slab_ok_def)
qed

lemma kfree_large:
  assumes "kmem_core s" "lh_magic s h = LARGE_MAGIC"
  shows "kfree s (h + sizeof_large_hdr) = large_free s (h + sizeof_large_hdr)"
  using page_of_large(1,2) [OF assms] by (simp add: kfree_def sizeof_large_hdr_def)

lemma kfree_object:
  assumes "kmem_core s" "sp_cache s sp = Some c" "i < slab_cap s c"
  shows "kfree s (obj_addr s c sp i) = kmem_cache_free s c (obj_addr s c sp i)"
  using page_of_object(1,2) [OF assms] core_sp(4) [OF assms(1,2)] assms(2)
  by (simp add: kfree_def PAGE_KIND_SLAB_def PAGE_KIND_LARGE_def obj_addr_def)

text \<open>A slot that holds no object, and a page that is free, stop the kernel.\<close>

lemma kfree_empty_slot:
  assumes "kmem_core s" "sp_cache s sp = Some c" "i < slab_cap s c" "\<not> slab_bit s sp i"
  shows "kfree s (obj_addr s c sp i) = None"
proof -
  note cs = core_sp [OF assms(1,2)]
  have fo: "first_object s c sp = sp + slab_off s c" by (rule first_object_eq [OF cs(1,2)])
  have "(obj_addr s c sp i - first_object s c sp) div c_object_size s c = i" using obj_addr_index [OF cs(1)] fo by simp
  moreover have "free_in_slab s sp i = None" using assms(3,4) by (intro free_in_slab_panics) (simp_all add: slab_cap_def)
  ultimately show ?thesis
    using kfree_object [OF assms(1-3)] page_of_object(1) [OF assms(1-3)] assms(2) cs(4)
    by (simp add: kmem_cache_free_def obj_addr_def Let_def)
qed

lemma kfree_free_page:
  assumes "kmem_core s" "align_down p 4096 = hhdm s + q * 4096" "q \<in> free_set (pmm s)" "p \<noteq> 0"
  shows "kfree s p = None"
proof -
  have "zero_ok (pmm s)" using assms(1) by (simp add: kmem_core_def pmm_inv_def)
  then have "\<forall>i<4096. pmem (pmm s) (q * 4096 + i) = 0" using assms(3) by (simp add: zero_ok_def)
  from this [rule_format, of 0] have "pmem (pmm s) (q * 4096) = 0" by simp
  then show ?thesis using assms(2,4)
    by (simp add: kfree_def read_byte_def PAGE_KIND_SLAB_def PAGE_KIND_LARGE_def)
qed

lemma kfree_result:
  assumes inv: "kmem_inv s" and p: "p \<in> live s"
  shows "\<exists>s'. kfree s p = Some s' \<and> kmem_inv s' \<and> live s' = live s - {p} \<and> kfree s' p = None \<and> same_pool s s'"
proof -
  have core: "kmem_core s" using inv by (simp add: kmem_inv_def)
  from p consider sp c i where "sp_cache s sp = Some c" "slab_bit s sp i" "p = obj_addr s c sp i"
    | h where "lh_magic s h = LARGE_MAGIC" "p = h + sizeof_large_hdr" by (auto simp: live_def)
  then show ?thesis
  proof cases
    case 1
    have i: "i < slab_cap s c" using core_sp(5) [OF core 1(1)] 1(2) by (simp add: slab_ok_def)
    note P = page_of_object [OF core 1(1) i] and cs = core_sp [OF core 1(1)]
    obtain s' where s': "kmem_cache_free s c p = Some s'" "kmem_inv s'" "live s' = live s - {p}" "hhdm s' = hhdm s"
      "obj_addr s' = obj_addr s" "pg s sp \<in> free_set (pmm s') \<or> sp_cache s' sp = Some c \<and> \<not> slab_bit s' sp i"
      "slab_cap s' = slab_cap s" "same_pool s s'"
      using cache_free_result [OF inv 1(1,2)] 1(3) by blast
    have core': "kmem_core s'" using s'(2) by (simp add: kmem_inv_def)
    have "kfree s' p = None" using s'(6)
    proof
      assume "pg s sp \<in> free_set (pmm s')"
      then show ?thesis
        using kfree_free_page [OF core', of p "pg s sp"] P(1,3) 1(3) s'(4) cs(4) by (simp add: obj_addr_def)
    next
      assume "sp_cache s' sp = Some c \<and> \<not> slab_bit s' sp i"
      then show ?thesis using kfree_empty_slot [OF core', of sp c i] i s'(5,7) 1(3) by simp
    qed
    then show ?thesis using s' kfree_object [OF core 1(1) i] 1(3) by simp
  next
    case 2
    obtain s' where s': "large_free s p = Some s'" "kmem_inv s'" "live s' = live s - {p}" "hhdm s' = hhdm s" "pg s h \<in> free_set (pmm s')"
      "same_pool s s'"
      using large_free_result [OF inv 2(1)] 2(2) by blast
    have core': "kmem_core s'" using s'(2) by (simp add: kmem_inv_def)
    have "kfree s' p = None"
      using kfree_free_page [OF core', of p "pg s h"] page_of_large(1,3) [OF core 2(1)] 2(2) s'(4,5) by (simp add: sizeof_large_hdr_def)
    then show ?thesis using s' kfree_large [OF core 2(1)] 2(2) by simp
  qed
qed

text \<open>Clearing the bytes of a live object touches neither a header's tag nor a free page.\<close>

lemma zero_object_inv:
  assumes inv: "kmem_inv s" and r: "room s p n"
  shows "kmem_inv (s\<lparr>pmm := pmem_zero (pmm s) (p - hhdm s) n\<rparr>)" "same_pool s (s\<lparr>pmm := pmem_zero (pmm s) (p - hhdm s) n\<rparr>)"
    "live (s\<lparr>pmm := pmem_zero (pmm s) (p - hhdm s) n\<rparr>) = live s"
    "room (s\<lparr>pmm := pmem_zero (pmm s) (p - hhdm s) n\<rparr>) p n"
    "i < n \<Longrightarrow> read_byte (s\<lparr>pmm := pmem_zero (pmm s) (p - hhdm s) n\<rparr>) (p + i) = 0"
proof -
  let ?m = "pmem_zero (pmm s) (p - hhdm s) n"
  let ?s = "s\<lparr>pmm := ?m\<rparr>"
  have core: "kmem_core s" using inv by (simp add: kmem_inv_def)
  have sub: "{p..<p + n} \<subseteq> extent s p" using r by (simp add: room_def)
  have low: "hhdm s \<le> p" if "0 < n"
  proof -
    have "p \<in> extent s p" using sub that by auto
    then show ?thesis using extent_owner [OF core] by blast
  qed
  have pm: "free_set ?m = free_set (pmm s)" "pmm_inv ?m"
    using pmm_inv_mem [of ?m "pmm s"] core by (simp_all add: kmem_core_def)
  have tag: "pmem ?m (pg s h * 4096) = pmem (pmm s) (pg s h * 4096)" if o: "owned s h" for h
  proof (rule ccontr)
    assume ne: "\<not> ?thesis"
    then have b: "p - hhdm s \<le> pg s h * 4096" "pg s h * 4096 < p - hhdm s + n" by (auto split: if_splits)
    then have "0 < n" by linarith
    have at: "h = hhdm s + pg s h * 4096" using core o by (auto simp: kmem_core_def at_page_def)
    then have "h \<in> {p..<p + n}" using b low [OF \<open>0 < n\<close>] by auto
    then obtain g where g: "pg s h \<in> kpages s g" "h \<noteq> g" using sub extent_owner [OF core] by blast
    have "kpages s h \<inter> kpages s g = {}" using core g(2) by (simp add: kmem_core_def)
    then show False using owned_head [OF o] g(1) by blast
  qed
  have core': "kmem_core ?s"
    by (rule kmem_core_transfer [OF core]) (use tag pm core_pages [OF core] in simp_all)
  show "kmem_inv ?s" by (rule kmem_inv_transfer [OF inv core']) simp_all
  have "kpages ?s = kpages s" by (intro ext kpages_cong) simp_all
  then show "same_pool s ?s" using pm by (simp add: same_pool_def pool_def)
  show lv: "live ?s = live s"
    by (rule live_cong) (simp_all add: slab_bit_def obj_addr_def slab_off_def fun_eq_iff)
  have "extent ?s = extent s"
    unfolding extent_def by (simp add: slab_bit_def obj_addr_def slab_off_def fun_eq_iff)
  then show "room ?s p n" using r lv by (simp add: room_def)
  show "read_byte ?s (p + i) = 0" if "i < n"
  proof -
    have "hhdm s \<le> p" using that low by linarith
    then have "p - hhdm s \<le> p + i - hhdm s" "p + i - hhdm s < p - hhdm s + n" using that by linarith+
    then show ?thesis by (simp add: read_byte_def)
  qed
qed

lemma kzalloc_result:
  assumes inv: "kmem_inv s"
  shows "\<exists>p s'. kzalloc s sz = Some (p, s') \<and> alloc_outcome s p s' \<and>
    (p \<noteq> 0 \<longrightarrow> room s' p sz \<and> (\<forall>i < sz. read_byte s' (p + i) = 0))"
proof -
  obtain p t where t: "kmalloc s sz = Some (p, t)" "alloc_outcome s p t" "p \<noteq> 0 \<longrightarrow> room t p sz"
    using kmalloc_result [OF inv] by blast
  show ?thesis
  proof (cases "p = 0")
    case True
    then show ?thesis using t by (simp add: kzalloc_def)
  next
    case False
    have it: "kmem_inv t" using t(2) by (simp add: alloc_outcome_def)
    note z = zero_object_inv [OF it, of p sz]
    have "kzalloc s sz = Some (p, t\<lparr>pmm := pmem_zero (pmm t) (p - hhdm t) sz\<rparr>)" using t(1) False by (simp add: kzalloc_def)
    moreover have "same_pool s (t\<lparr>pmm := pmem_zero (pmm t) (p - hhdm t) sz\<rparr>)"
      using same_pool_trans z(2) t(2,3) False by (auto simp: alloc_outcome_def)
    ultimately show ?thesis using z t(2,3) False by (simp add: alloc_outcome_def)
  qed
qed

section \<open>Set-up of the size classes\<close>

text \<open>The state in which \<^verbatim>\<open>slab_init\<close> runs: the page allocator is up and no page has an owner.\<close>

definition slab_boot :: "kmem_state \<Rightarrow> bool" where
  "slab_boot s \<longleftrightarrow> pmm_inv (pmm s) \<and> 4096 dvd hhdm s \<and> (\<forall>h. \<not> owned s h)"

definition class_ready :: "kmem_state \<Rightarrow> nat \<Rightarrow> bool" where
  "class_ready s j \<longleftrightarrow> kmalloc_caches s j = Some j \<and> c_object_size s j = 2 ^ (j + 4) \<and>
     c_align s j = min (2 ^ (j + 4)) 64 \<and> c_partial s j = 0 \<and> c_full s j = 0"

lemma class_size: "align_down (2 ^ (i + 4) + min (2 ^ (i + 4)) 64 - 1) (min (2 ^ (i + 4)) 64) = 2 ^ (i + 4)"
proof (cases "i \<le> 2")
  case True
  then have "(2 :: nat) ^ (i + 4) \<le> 2 ^ 6" by (intro power_increasing) auto
  then have m: "min (2 ^ (i + 4)) (64 :: nat) = 2 ^ (i + 4)" by simp
  have "(x + x - 1) div x * x = x" if "0 < x" for x :: nat
  proof -
    have "(x + x - 1) div x = 1" using that by (intro div_nat_eqI) auto
    then show ?thesis by simp
  qed
  from this [of "2 ^ (i + 4)"] show ?thesis unfolding m align_down_power by simp
next
  case False
  then have "(2 :: nat) ^ 6 \<le> 2 ^ (i + 4)" by (intro power_increasing) auto
  then have m: "min (2 ^ (i + 4)) (64 :: nat) = 2 ^ 6" by simp
  define d where "d = i - 2"
  then have d: "i + 4 = d + 6" using False by simp
  have e: "(2 ^ (i + 4) + 2 ^ 6 - 1) div 2 ^ 6 = (2 :: nat) ^ d" unfolding d power_add by (intro div_nat_eqI) auto
  show ?thesis unfolding m align_down_power e unfolding d power_add by (rule refl)
qed

lemma slab_init_step:
  assumes "i < 8" "cache_count s = i" "\<forall>j<i. class_ready s j"
  shows "\<exists>t. slab_init_loop s i = slab_init_loop t (i + 1) \<and> cache_count t = i + 1 \<and> (\<forall>j<i + 1. class_ready t j) \<and>
    pmm t = pmm s \<and> hhdm t = hhdm s \<and> sp_cache t = sp_cache s \<and> lh_magic t = lh_magic s"
proof -
  let ?a = "min (2 ^ (i + 4)) 64 :: nat"
  define t where "t = s\<lparr>cache_count := i + 1, c_object_size := (c_object_size s)(i := 2 ^ (i + 4)),
    c_align := (c_align s)(i := ?a), c_partial := (c_partial s)(i := NULL), c_full := (c_full s)(i := NULL),
    c_alloc_count := (c_alloc_count s)(i := 0), c_free_count := (c_free_count s)(i := 0),
    kmalloc_caches := (kmalloc_caches s)(i := Some i)\<rparr>"
  have a: "(if (2 :: nat) ^ (i + 4) < 64 then 2 ^ (i + 4) else 64) = ?a" "?a \<noteq> 0" by simp_all
  have "kmem_cache_create s (2 ^ (i + 4)) ?a = (Some i, s\<lparr>cache_count := i + 1, c_object_size := (c_object_size s)(i := 2 ^ (i + 4)),
    c_align := (c_align s)(i := ?a), c_partial := (c_partial s)(i := NULL), c_full := (c_full s)(i := NULL),
    c_alloc_count := (c_alloc_count s)(i := 0), c_free_count := (c_free_count s)(i := 0)\<rparr>)"
    unfolding kmem_cache_create_def Let_def if_not_P [OF a(2)] class_size using assms(1,2) by (simp add: MAX_CACHES_def)
  then have "slab_init_loop s i = slab_init_loop t (i + 1)"
    using assms(1) slab_init_loop.simps [of s i]
    by (simp add: KMALLOC_NCLASSES_def KMALLOC_MAX_SHIFT_def KMALLOC_MIN_SHIFT_def a(1) Let_def t_def del: power_add)
  moreover have "class_ready t j" if "j < i + 1" for j
    using that assms(3) by (cases "j = i") (auto simp: class_ready_def t_def)
  ultimately show ?thesis by (intro exI [of _ t]) (simp add: t_def)
qed

lemma slab_init_loop_result:
  assumes "i \<le> 8" "cache_count s = i" "\<forall>j<i. class_ready s j"
  shows "\<exists>t. slab_init_loop s i = Some t \<and> cache_count t = 8 \<and> (\<forall>j<8. class_ready t j) \<and>
    pmm t = pmm s \<and> hhdm t = hhdm s \<and> sp_cache t = sp_cache s \<and> lh_magic t = lh_magic s"
  using assms
proof (induction "8 - i" arbitrary: i s)
  case 0
  then have "i = 8" by simp
  then show ?case
    using 0(3,4) slab_init_loop.simps [of s 8]
    by (simp add: KMALLOC_NCLASSES_def KMALLOC_MAX_SHIFT_def KMALLOC_MIN_SHIFT_def)
next
  case (Suc n)
  then have "i < 8" by simp
  then obtain t where t: "slab_init_loop s i = slab_init_loop t (i + 1)" "cache_count t = i + 1" "\<forall>j<i + 1. class_ready t j"
    "pmm t = pmm s" "hhdm t = hhdm s" "sp_cache t = sp_cache s" "lh_magic t = lh_magic s"
    using slab_init_step [OF _ Suc(4,5)] by blast
  have "n = 8 - (i + 1)" "i + 1 \<le> 8" using Suc(2) by simp_all
  then show ?case using Suc(1) [of "i + 1" t] t by simp
qed

lemma class_cache_ok: "class_ready s j \<Longrightarrow> j < 8 \<Longrightarrow> cache_ok s j"
proof -
  assume r: "class_ready s j" and j: "j < 8"
  have cases: "j = 0 \<or> j = 1 \<or> j = 2 \<or> j = 3 \<or> j = 4 \<or> j = 5 \<or> j = 6 \<or> j = 7" using j by linarith
  have "c_align s j = 2 ^ (min (j + 4) 6)"
    using r cases by (elim disjE) (simp_all add: class_ready_def)
  moreover have "min (j + 4) 6 \<le> 12" by simp
  moreover have "0 < c_object_size s j" using r by (simp add: class_ready_def)
  moreover have "slab_off s j + c_object_size s j \<le> 4096"
    using r cases by (elim disjE) (simp_all add: class_ready_def slab_off_def sizeof_slab_page_def)
  ultimately show ?thesis unfolding cache_ok_def by blast
qed

lemma slab_init_result:
  assumes boot: "slab_boot s"
  shows "\<exists>s'. slab_init s = Some s' \<and> kmem_inv s' \<and> live s' = {} \<and> pmm s' = pmm s \<and> hhdm s' = hhdm s"
proof -
  obtain t where t: "slab_init s = Some t" "cache_count t = 8" "\<forall>j<8. class_ready t j"
    "pmm t = pmm s" "hhdm t = hhdm s" "sp_cache t = sp_cache s" "lh_magic t = lh_magic s"
    using slab_init_loop_result [of 0 "s\<lparr>cache_count := 0\<rparr>"] by (auto simp: slab_init_def)
  have none: "sp_cache t h = None" "lh_magic t h \<noteq> LARGE_MAGIC" for h
    using boot t(6,7) by (auto simp: slab_boot_def owned_def)
  have "kmem_core t"
    using boot t class_cache_ok none by (simp add: kmem_core_def slab_boot_def owned_def kpages_def)
  moreover have "slab_sets t = (\<lambda>_. {})" using none by (auto simp: slab_sets_def fun_eq_iff)
  then have "kmem_lists t (slab_sets t)"
    using t(2,3) by (auto simp: kmem_lists_def dlls_def class_ready_def intro!: exI [of _ "[]"])
  moreover have "classes_ok t" using t(2,3) by (auto simp: classes_ok_def class_ready_def)
  moreover have "live t = {}" using none by (simp add: live_def)
  ultimately show ?thesis using t none by (simp add: kmem_inv_def)
qed

section \<open>Properties\<close>

text \<open>A concrete kernel heap: the size classes set up over the sample page allocator.\<close>

definition kmem_blank :: kmem_state where
  "kmem_blank = \<lparr>pmm = pmm_sample, hhdm = 0, sp_next = (\<lambda>_. 0), sp_prev = (\<lambda>_. 0), sp_cache = (\<lambda>_. None),
     sp_used = (\<lambda>_. 0), sp_capacity = (\<lambda>_. 0), sp_bitmap = (\<lambda>_ _. 0), lh_magic = (\<lambda>_. 0), lh_order = (\<lambda>_. 0),
     cache_count = 0, c_object_size = (\<lambda>_. 0), c_align = (\<lambda>_. 0), c_objects_per_slab = (\<lambda>_. 0),
     c_partial = (\<lambda>_. 0), c_full = (\<lambda>_. 0), c_alloc_count = (\<lambda>_. 0), c_free_count = (\<lambda>_. 0),
     kmalloc_caches = (\<lambda>_. None)\<rparr>"

definition kmem_sample :: kmem_state where
  "kmem_sample = the (slab_init kmem_blank)"

lemma kmem_blank_boot: "slab_boot kmem_blank"
  using pmm_sample_inv(1) by (simp add: slab_boot_def kmem_blank_def owned_def LARGE_MAGIC_def)

lemma kmem_sample_inv: "kmem_inv kmem_sample" "live kmem_sample = {}" "free_set (pmm kmem_sample) \<noteq> {}"
proof -
  obtain s' where s': "slab_init kmem_blank = Some s'" "kmem_inv s'" "live s' = {}" "pmm s' = pmm kmem_blank"
    using slab_init_result [OF kmem_blank_boot] by blast
  then show "kmem_inv kmem_sample" "live kmem_sample = {}" by (simp_all add: kmem_sample_def)
  show "free_set (pmm kmem_sample) \<noteq> {}"
    using s' pmm_sample_inv(2) by (simp add: kmem_sample_def kmem_blank_def)
qed

lemma kmem_sample_object: "\<exists>p s. kmalloc kmem_sample 100 = Some (p, s) \<and> p \<noteq> 0 \<and> kmem_inv s \<and> live s = {p}"
proof -
  obtain p s where "kmalloc kmem_sample 100 = Some (p, s)" "alloc_outcome kmem_sample p s"
    "p = 0 \<longrightarrow> (100 :: nat) = 0 \<or> 2048 < (100 :: nat) \<or> free_set (pmm kmem_sample) = {}"
    using kmalloc_result [OF kmem_sample_inv(1), of 100] by blast
  then show ?thesis using kmem_sample_inv(2,3) by (auto simp: alloc_outcome_def)
qed

text \<open>
  C3. On a well-formed heap \<^verbatim>\<open>kmalloc\<close> returns. Either it returns null and nothing changed, or it
  returns a pointer that was not live, which becomes live and is the only change to the set of
  live objects. The bytes asked for belong to the new object, share nothing with the bytes of any
  other object, and lie on page frames that the page allocator does not consider free.
\<close>

theorem kmalloc_correct:
  assumes inv: "kmem_inv s"
  shows "\<exists>p s'. kmalloc s sz = Some (p, s') \<and> kmem_inv s' \<and>
    (p = 0 \<and> s' = s \<or>
     p \<noteq> 0 \<and> p \<notin> live s \<and> live s' = insert p (live s) \<and> {p..<p + sz} \<subseteq> extent s' p \<and>
       (\<forall>q. q \<noteq> p \<longrightarrow> extent s' q \<inter> extent s' p = {}) \<and> (\<forall>a\<in>extent s' p. pg s' a \<notin> free_set (pmm s')))"
proof -
  obtain p s' where r: "kmalloc s sz = Some (p, s')" "alloc_outcome s p s'" "p \<noteq> 0 \<longrightarrow> room s' p sz"
    using kmalloc_result [OF inv] by blast
  have inv': "kmem_inv s'" using r(2) by (simp add: alloc_outcome_def)
  then have core: "kmem_core s'" by (simp add: kmem_inv_def)
  have "pg s' a \<notin> free_set (pmm s')" if "a \<in> extent s' p" for a
    using extent_owner [OF core that] core_pages [OF core] by blast
  moreover have "extent s' q \<inter> extent s' p = {}" if "q \<noteq> p" for q using extent_disjoint [OF core that] .
  ultimately show ?thesis using r inv' by (auto simp: alloc_outcome_def room_def)
qed

theorem kmalloc_correct_witness:
  "\<exists>p s'. kmalloc kmem_sample 100 = Some (p, s') \<and> kmem_inv s' \<and>
    (p = 0 \<and> s' = kmem_sample \<or> p \<noteq> 0 \<and> live s' = {p} \<and> {p..<p + 100} \<subseteq> extent s' p)"
  using kmalloc_correct [OF kmem_sample_inv(1), of 100] kmem_sample_inv(2) by auto

text \<open>
  C4. Freeing a live object never panics, removes exactly it from the live objects and keeps the
  heap well-formed, returning emptied slabs and large blocks to the page allocator. Freeing the
  same pointer again stops the kernel.
\<close>

theorem kfree_correct:
  assumes "kmem_inv s" "p \<in> live s"
  shows "\<exists>s'. kfree s p = Some s' \<and> kmem_inv s' \<and> live s' = live s - {p} \<and> kfree s' p = None"
  using kfree_result [OF assms] by blast

theorem kfree_correct_witness:
  "\<exists>p s s'. kmalloc kmem_sample 100 = Some (p, s) \<and> live s = {p} \<and>
     kfree s p = Some s' \<and> kmem_inv s' \<and> live s' = {} \<and> kfree s' p = None"
proof -
  obtain p s where s: "kmalloc kmem_sample 100 = Some (p, s)" "kmem_inv s" "live s = {p}"
    using kmem_sample_object by blast
  with kfree_correct [of s p] show ?thesis by auto
qed

text \<open>
  C32. A request that a size class serves fails only when no page frame at all is free.
\<close>

theorem kmalloc_small_succeeds:
  assumes "kmem_inv s" "0 < sz" "sz \<le> 2048" "free_set (pmm s) \<noteq> {}"
  shows "\<exists>p s'. kmalloc s sz = Some (p, s') \<and> p \<noteq> 0 \<and> live s' = insert p (live s)"
proof -
  obtain p s' where "kmalloc s sz = Some (p, s')" "alloc_outcome s p s'"
    "p = 0 \<longrightarrow> sz = 0 \<or> 2048 < sz \<or> free_set (pmm s) = {}"
    using kmalloc_result [OF assms(1), of sz] by blast
  then show ?thesis using assms by (auto simp: alloc_outcome_def)
qed

theorem kmalloc_small_succeeds_witness:
  "\<exists>p s'. kmalloc kmem_sample 100 = Some (p, s') \<and> p \<noteq> 0 \<and> live s' = {p}"
  using kmalloc_small_succeeds [OF kmem_sample_inv(1), of 100] kmem_sample_inv(2,3) by simp

text \<open>
  C33. \<^verbatim>\<open>kzalloc\<close> is \<^verbatim>\<open>kmalloc\<close> with every byte of the request cleared: clearing reaches no tag of a
  slab or large block, no other object and no free page, so the heap stays well-formed.
\<close>

theorem kzalloc_correct:
  assumes "kmem_inv s"
  shows "\<exists>p s'. kzalloc s sz = Some (p, s') \<and> kmem_inv s' \<and>
    (p = 0 \<and> s' = s \<or> p \<noteq> 0 \<and> p \<notin> live s \<and> live s' = insert p (live s) \<and> {p..<p + sz} \<subseteq> extent s' p \<and>
       (\<forall>i. i < sz \<longrightarrow> read_byte s' (p + i) = 0))"
  using kzalloc_result [OF assms, of sz] by (auto simp: alloc_outcome_def room_def)

theorem kzalloc_correct_witness:
  "\<exists>p s'. kzalloc kmem_sample 64 = Some (p, s') \<and> kmem_inv s' \<and>
    (p = 0 \<and> s' = kmem_sample \<or> p \<noteq> 0 \<and> live s' = {p} \<and> (\<forall>i. i < 64 \<longrightarrow> read_byte s' (p + i) = 0))"
  using kzalloc_correct [OF kmem_sample_inv(1), of 64] kmem_sample_inv(2) by auto

text \<open>
  C24. Started on a running page allocator with no page in use by the heap, \<^verbatim>\<open>slab_init\<close> creates all
  eight size classes, none of them fails, and the heap is well-formed and empty.
\<close>

theorem slab_init_correct:
  assumes "slab_boot s"
  shows "\<exists>s'. slab_init s = Some s' \<and> kmem_inv s' \<and> live s' = {} \<and> pmm s' = pmm s \<and>
    (\<forall>i. i < 8 \<longrightarrow> (\<exists>c. kmalloc_caches s' i = Some c \<and> c_object_size s' c = 2 ^ (i + 4)))"
proof -
  obtain s' where r: "slab_init s = Some s'" "kmem_inv s'" "live s' = {}" "pmm s' = pmm s"
    using slab_init_result [OF assms] by blast
  then have "classes_ok s'" by (simp add: kmem_inv_def)
  then have "\<forall>i. i < 8 \<longrightarrow> (\<exists>c. kmalloc_caches s' i = Some c \<and> c_object_size s' c = 2 ^ (i + 4))"
    unfolding classes_ok_def by blast
  with r show ?thesis by blast
qed

theorem slab_init_correct_witness:
  "\<exists>s'. slab_init kmem_blank = Some s' \<and> kmem_inv s' \<and> live s' = {}"
  using slab_init_correct [OF kmem_blank_boot] by blast

end
