(* ===== verification/Rbtree_Shape.thy ===== *)
theory Rbtree_Shape
  imports Rbtree
begin

text \<open>
  What a heap of \<^verbatim>\<open>struct rb_node\<close>s represents: a coloured binary tree over node addresses,
  the path that leads from a position up to the root, the red-black invariants on trees and
  on paths, and the effect of the single pointer operations (recolouring, rotation,
  transplanting) on the represented tree.
\<close>

section \<open>Trees and paths\<close>

datatype rtree = Lf | Nd rb_color rtree ptr rtree

fun inord :: "rtree \<Rightarrow> ptr list" where
  "inord Lf = []"
| "inord (Nd c l a r) = inord l @ a # inord r"

fun rp :: "rtree \<Rightarrow> ptr" where
  "rp Lf = 0"
| "rp (Nd c l a r) = a"

fun colr :: "rtree \<Rightarrow> rb_color" where
  "colr Lf = RB_BLACK"
| "colr (Nd c l a r) = c"

fun paint :: "rb_color \<Rightarrow> rtree \<Rightarrow> rtree" where
  "paint c Lf = Lf"
| "paint c (Nd c' l a r) = Nd c l a r"

text \<open>
  A path lists the steps from a position to the root, innermost first: \<open>SL c a r\<close> says the
  position is the left child of the node \<open>a\<close>, whose colour is \<open>c\<close> and right subtree \<open>r\<close>.
\<close>

datatype step = SL rb_color ptr rtree | SR rb_color rtree ptr

fun sp :: "step \<Rightarrow> ptr" where
  "sp (SL c a r) = a"
| "sp (SR c l a) = a"

fun scol :: "step \<Rightarrow> rb_color" where
  "scol (SL c a r) = c"
| "scol (SR c l a) = c"

fun plug :: "step list \<Rightarrow> rtree \<Rightarrow> rtree" where
  "plug [] t = t"
| "plug (SL c a r # k) t = plug k (Nd c t a r)"
| "plug (SR c l a # k) t = plug k (Nd c l a t)"

fun kl :: "step list \<Rightarrow> ptr list" where
  "kl [] = []"
| "kl (SL c a r # k) = kl k"
| "kl (SR c l a # k) = kl k @ inord l @ [a]"

fun kr :: "step list \<Rightarrow> ptr list" where
  "kr [] = []"
| "kr (SL c a r # k) = a # inord r @ kr k"
| "kr (SR c l a # k) = kr k"

definition kp :: "step list \<Rightarrow> ptr" where
  "kp k = (case k of [] \<Rightarrow> 0 | st # _ \<Rightarrow> sp st)"

definition kcol :: "step list \<Rightarrow> rb_color" where
  "kcol k = (case k of [] \<Rightarrow> RB_BLACK | st # _ \<Rightarrow> scol st)"

lemma kp_simps [simp]: "kp [] = 0" "kp (st # k) = sp st"
  by (simp_all add: kp_def)

lemma kcol_simps [simp]: "kcol [] = RB_BLACK" "kcol (st # k) = scol st"
  by (simp_all add: kcol_def)

lemma inord_plug [simp]: "inord (plug k t) = kl k @ inord t @ kr k"
  by (induction k t rule: plug.induct) auto

lemma plug_append: "plug (j @ k) t = plug k (plug j t)"
  by (induction j t rule: plug.induct) auto

lemma kl_append [simp]: "kl (j @ k) = kl k @ kl j"
  by (induction j rule: kl.induct) auto

lemma kr_append [simp]: "kr (j @ k) = kr j @ kr k"
  by (induction j rule: kr.induct) auto

lemma rp_plug: "rp (plug k t) = (if k = [] then rp t else sp (last k))"
  by (induction k t rule: plug.induct) auto

lemma colr_plug: "colr (plug k t) = (if k = [] then colr t else scol (last k))"
  by (induction k t rule: plug.induct) auto

lemma in_tree_plug:
  assumes "a \<in> set (inord t)"
  shows "\<exists>k c l r. t = plug k (Nd c l a r)"
  using assms
proof (induction t)
  case Lf
  then show ?case by simp
next
  case (Nd c l b r)
  consider (here) "a = b" | (l) "a \<in> set (inord l)" | (r) "a \<in> set (inord r)"
    using Nd.prems by auto
  then show ?case
  proof cases
    case here
    then have "Nd c l b r = plug [] (Nd c l a r)" by simp
    then show ?thesis by blast
  next
    case l
    then obtain k c' l' r' where "l = plug k (Nd c' l' a r')" using Nd.IH by blast
    then have "Nd c l b r = plug (k @ [SL c b r]) (Nd c' l' a r')" by (simp add: plug_append)
    then show ?thesis by blast
  next
    case r
    then obtain k c' l' r' where "r = plug k (Nd c' l' a r')" using Nd.IH by blast
    then have "Nd c l b r = plug (k @ [SR c l b]) (Nd c' l' a r')" by (simp add: plug_append)
    then show ?thesis by blast
  qed
qed

section \<open>The red-black invariants\<close>

fun bh :: "rtree \<Rightarrow> nat" where
  "bh Lf = 0"
| "bh (Nd c l a r) = bh l + (if c = RB_BLACK then 1 else 0)"

fun invh :: "rtree \<Rightarrow> bool" where
  "invh Lf = True"
| "invh (Nd c l a r) = (bh l = bh r \<and> invh l \<and> invh r)"

fun invc :: "rtree \<Rightarrow> bool" where
  "invc Lf = True"
| "invc (Nd c l a r) =
     ((c = RB_RED \<longrightarrow> colr l = RB_BLACK \<and> colr r = RB_BLACK) \<and> invc l \<and> invc r)"

definition rbt :: "rtree \<Rightarrow> bool" where
  "rbt t \<longleftrightarrow> invc t \<and> invh t \<and> colr t = RB_BLACK"

text \<open>What a path must satisfy for a subtree of black height \<open>n\<close> to fit below it.\<close>

fun kinvh :: "step list \<Rightarrow> nat \<Rightarrow> bool" where
  "kinvh [] n = True"
| "kinvh (SL c a r # k) n =
     (invh r \<and> bh r = n \<and> kinvh k (n + (if c = RB_BLACK then 1 else 0)))"
| "kinvh (SR c l a # k) n =
     (invh l \<and> bh l = n \<and> kinvh k (n + (if c = RB_BLACK then 1 else 0)))"

fun kinvc :: "step list \<Rightarrow> bool" where
  "kinvc [] = True"
| "kinvc (SL c a r # k) =
     (invc r \<and> (c = RB_RED \<longrightarrow> colr r = RB_BLACK \<and> kcol k = RB_BLACK) \<and> kinvc k)"
| "kinvc (SR c l a # k) =
     (invc l \<and> (c = RB_RED \<longrightarrow> colr l = RB_BLACK \<and> kcol k = RB_BLACK) \<and> kinvc k)"

lemma not_black [simp]: "c \<noteq> RB_BLACK \<longleftrightarrow> c = RB_RED"
  by (cases c) auto

lemma not_red [simp]: "c \<noteq> RB_RED \<longleftrightarrow> c = RB_BLACK"
  by (cases c) auto

lemma invh_plug: "invh (plug k t) \<longleftrightarrow> invh t \<and> kinvh k (bh t)"
  by (induction k t rule: plug.induct) auto

lemma invc_plug:
  "invc (plug k t) \<longleftrightarrow> invc t \<and> kinvc k \<and> (colr t = RB_RED \<longrightarrow> kcol k = RB_BLACK)"
  by (induction k t rule: plug.induct) auto

lemma bh_red_black: "colr t = RB_BLACK \<Longrightarrow> bh t = 0 \<Longrightarrow> t = Lf"
  by (cases t) auto

lemma paint_simps [simp]:
  "inord (paint c t) = inord t"
  "rp (paint c t) = rp t"
  "invh t \<Longrightarrow> invh (paint c t)"
  "colr (paint RB_BLACK t) = RB_BLACK"
  "invc t \<Longrightarrow> invc (paint RB_BLACK t)"
  by (cases t; simp)+

section \<open>Heaps that hold a tree\<close>

fun rep :: "(ptr \<Rightarrow> ptr) \<Rightarrow> (ptr \<Rightarrow> ptr) \<Rightarrow> (ptr \<Rightarrow> ptr) \<Rightarrow> (ptr \<Rightarrow> rb_color) \<Rightarrow> ptr \<Rightarrow> rtree \<Rightarrow> bool" where
  "rep P L R C par Lf = True"
| "rep P L R C par (Nd c l a r) =
     (a \<noteq> 0 \<and> P a = par \<and> C a = c \<and> L a = rp l \<and> R a = rp r \<and> rep P L R C a l \<and> rep P L R C a r)"

fun repk :: "(ptr \<Rightarrow> ptr) \<Rightarrow> (ptr \<Rightarrow> ptr) \<Rightarrow> (ptr \<Rightarrow> ptr) \<Rightarrow> (ptr \<Rightarrow> rb_color) \<Rightarrow> step list \<Rightarrow> ptr \<Rightarrow> bool" where
  "repk P L R C [] q = True"
| "repk P L R C (SL c a r # k) q =
     (a \<noteq> 0 \<and> P a = kp k \<and> C a = c \<and> L a = q \<and> R a = rp r \<and> rep P L R C a r \<and> repk P L R C k a)"
| "repk P L R C (SR c l a # k) q =
     (a \<noteq> 0 \<and> P a = kp k \<and> C a = c \<and> R a = q \<and> L a = rp l \<and> rep P L R C a l \<and> repk P L R C k a)"

definition rbrep :: "'a rb_state_scheme \<Rightarrow> rtree \<Rightarrow> bool" where
  "rbrep s t \<longleftrightarrow> root s = rp t \<and> distinct (inord t) \<and>
     rep (parent s) (left s) (right s) (color s) 0 t"

lemma rep_plug:
  "rep P L R C 0 (plug k t) \<longleftrightarrow> rep P L R C (kp k) t \<and> repk P L R C k (rp t)"
  by (induction k t rule: plug.induct) auto

lemma rep_nonnull: "rep P L R C par t \<Longrightarrow> a \<in> set (inord t) \<Longrightarrow> a \<noteq> 0"
  by (induction P L R C par t rule: rep.induct) auto

lemma repk_nonnull: "repk P L R C k q \<Longrightarrow> a \<in> set (kl k) \<union> set (kr k) \<Longrightarrow> a \<noteq> 0"
  by (induction P L R C k q rule: repk.induct) (auto dest: rep_nonnull)

lemma rp_in: "t \<noteq> Lf \<Longrightarrow> rp t \<in> set (inord t)"
  by (cases t) auto

lemma rp_eq_0: "rep P L R C par t \<Longrightarrow> rp t = 0 \<longleftrightarrow> t = Lf"
  by (cases t) auto

lemma kp_in: "kp k \<noteq> 0 \<Longrightarrow> kp k \<in> set (kl k) \<union> set (kr k)"
  by (cases k rule: kl.cases) auto

text \<open>Stores to a location outside a subtree or outside a path do not change what it is.\<close>

lemma rep_frame [frame_simps]:
  "a \<notin> set (inord t) \<Longrightarrow> rep (P(a := v)) L R C par t = rep P L R C par t"
  "a \<notin> set (inord t) \<Longrightarrow> rep P (L(a := v)) R C par t = rep P L R C par t"
  "a \<notin> set (inord t) \<Longrightarrow> rep P L (R(a := v)) C par t = rep P L R C par t"
  "a \<notin> set (inord t) \<Longrightarrow> rep P L R (C(a := x)) par t = rep P L R C par t"
  by (induction t arbitrary: par) auto

lemma repk_frame [frame_simps]:
  "a \<notin> set (kl k) \<Longrightarrow> a \<notin> set (kr k) \<Longrightarrow> repk (P(a := v)) L R C k q = repk P L R C k q"
  "a \<notin> set (kl k) \<Longrightarrow> a \<notin> set (kr k) \<Longrightarrow> repk P (L(a := v)) R C k q = repk P L R C k q"
  "a \<notin> set (kl k) \<Longrightarrow> a \<notin> set (kr k) \<Longrightarrow> repk P L (R(a := v)) C k q = repk P L R C k q"
  "a \<notin> set (kl k) \<Longrightarrow> a \<notin> set (kr k) \<Longrightarrow> repk P L R (C(a := x)) k q = repk P L R C k q"
  by (induction k arbitrary: q rule: kl.induct) (auto simp: rep_frame)


lemma rbrep_plug:
  "rbrep s (plug k t) \<longleftrightarrow>
     root s = (if k = [] then rp t else sp (last k)) \<and> distinct (kl k @ inord t @ kr k) \<and>
     rep (parent s) (left s) (right s) (color s) (kp k) t \<and>
     repk (parent s) (left s) (right s) (color s) k (rp t)"
  by (auto simp: rbrep_def rep_plug rp_plug)

lemma rep_reparent:
  "rep P L R C par t \<Longrightarrow> distinct (inord t) \<Longrightarrow> t \<noteq> Lf \<Longrightarrow> rep (P(rp t := par')) L R C par' t"
  by (cases t) (auto simp: frame_simps)

section \<open>The fields after the small stores\<close>

lemma adopt_sel [simp]:
  "root (adopt s c x) = root s" "left (adopt s c x) = left s" "right (adopt s c x) = right s"
  "color (adopt s c x) = color s" "rb_state.more (adopt s c x) = rb_state.more s"
  "parent (adopt s c x) = (if c = 0 then parent s else (parent s)(c := x))"
  by (simp_all add: adopt_def)

lemma relink_left_sel [simp]:
  "root (relink_left s x y) = (if parent s x = 0 then y else root s)"
  "left (relink_left s x y) =
     (if parent s x \<noteq> 0 \<and> x = left s (parent s x) then (left s)(parent s x := y) else left s)"
  "right (relink_left s x y) =
     (if parent s x \<noteq> 0 \<and> x \<noteq> left s (parent s x) then (right s)(parent s x := y) else right s)"
  "parent (relink_left s x y) = parent s" "color (relink_left s x y) = color s"
  "rb_state.more (relink_left s x y) = rb_state.more s"
  by (simp_all add: relink_left_def)

lemma rotate_left_sel:
  assumes "right s x = y" "left s y = b" "parent s x = p" "x \<noteq> y" "b \<noteq> x" "p \<noteq> y"
  shows "root (rotate_left s x) = (if p = 0 then y else root s)"
    "left (rotate_left s x) =
       (if p \<noteq> 0 \<and> x = left s p then (left s)(p := y) else left s)(y := x)"
    "right (rotate_left s x) =
       (if p \<noteq> 0 \<and> x \<noteq> left s p then (right s)(x := b, p := y) else (right s)(x := b))"
    "parent (rotate_left s x) =
       (if b = 0 then parent s else (parent s)(b := x))(y := p, x := y)"
    "color (rotate_left s x) = color s"
    "rb_state.more (rotate_left s x) = rb_state.more s"
  using assms by (auto simp: rotate_left_def Let_def)

section \<open>Left and right exchanged\<close>

text \<open>
  The code treats left and right symmetrically. \<open>mirs\<close> exchanges the two child fields of every
  node; a lemma proved for one side then gives the lemma for the other side.
\<close>

definition mirs :: "'a rb_state_scheme \<Rightarrow> 'a rb_state_scheme" where
  "mirs s = s\<lparr>left := right s, right := left s\<rparr>"

fun mirt :: "rtree \<Rightarrow> rtree" where
  "mirt Lf = Lf"
| "mirt (Nd c l a r) = Nd c (mirt r) a (mirt l)"

fun mirst :: "step \<Rightarrow> step" where
  "mirst (SL c a r) = SR c (mirt r) a"
| "mirst (SR c l a) = SL c a (mirt l)"

abbreviation mirk :: "step list \<Rightarrow> step list" where
  "mirk k \<equiv> map mirst k"

lemma mirs_sel [simp]:
  "root (mirs s) = root s" "parent (mirs s) = parent s" "left (mirs s) = right s"
  "right (mirs s) = left s" "color (mirs s) = color s"
  by (simp_all add: mirs_def)

lemma mirs_mirs [simp]: "mirs (mirs s) = s"
  by (simp add: mirs_def)

lemma mirt_simps [simp]:
  "mirt (mirt t) = t" "inord (mirt t) = rev (inord t)" "rp (mirt t) = rp t"
  "colr (mirt t) = colr t"
  by (induction t) auto

lemma mirst_simps [simp]: "mirst (mirst st) = st" "sp (mirst st) = sp st" "scol (mirst st) = scol st"
  by (cases st; simp)+

lemma mirk_simps [simp]:
  "kl (mirk k) = rev (kr k)" "kr (mirk k) = rev (kl k)" "kp (mirk k) = kp k"
  "kcol (mirk k) = kcol k" "mirk (mirk k) = k"
  by (induction k rule: kl.induct) (auto simp: comp_def kp_def)

lemma plug_mirt: "plug (mirk k) (mirt t) = mirt (plug k t)"
  by (induction k t rule: plug.induct) auto

lemma rep_mirt [simp]: "rep P R L C par (mirt t) = rep P L R C par t"
  by (induction P L R C par t rule: rep.induct) auto

lemma rbrep_mirs [simp]: "rbrep (mirs s) (mirt t) = rbrep s t"
  by (simp add: rbrep_def)

lemma bh_mirt: "invh t \<Longrightarrow> bh (mirt t) = bh t"
  by (induction t) auto

lemma invh_mirt [simp]: "invh (mirt t) = invh t"
  by (induction t) (auto simp: bh_mirt)

lemma invc_mirt [simp]: "invc (mirt t) = invc t"
  by (induction t) auto

lemma kinvc_mirk [simp]: "kinvc (mirk k) = kinvc k"
  by (induction k rule: kl.induct) auto

lemma kinvh_mirk [simp]: "kinvh (mirk k) n = kinvh k n"
  by (induction k n rule: kinvh.induct) (auto simp: bh_mirt)

lemma mirs_update [simp]:
  "mirs s\<lparr>left := f\<rparr> = mirs (s\<lparr>right := f\<rparr>)" "mirs s\<lparr>right := f\<rparr> = mirs (s\<lparr>left := f\<rparr>)"
  "mirs s\<lparr>parent := f\<rparr> = mirs (s\<lparr>parent := f\<rparr>)" "mirs s\<lparr>root := p\<rparr> = mirs (s\<lparr>root := p\<rparr>)"
  "mirs s\<lparr>color := g\<rparr> = mirs (s\<lparr>color := g\<rparr>)"
  by (simp_all add: mirs_def)

lemma adopt_mirs [simp]: "adopt (mirs s) c x = mirs (adopt s c x)"
  by (simp add: adopt_def)

lemma relink_left_mirs [simp]: "relink_left (mirs s) x y = mirs (relink_right s x y)"
  by (simp add: relink_left_def relink_right_def)

lemma rotate_left_of_mirs [simp]: "rotate_left (mirs s) x = mirs (rotate_right s x)"
  by (simp only: rotate_left_def rotate_right_def Let_def mirs_sel mirs_update adopt_mirs
      relink_left_mirs)

lemma rotate_right_of_mirs [simp]: "rotate_right (mirs s) x = mirs (rotate_left s x)"
  using rotate_left_of_mirs [of "mirs s" x] by simp

section \<open>Single pointer operations on the represented tree\<close>

lemma rbrep_set_color:
  "rbrep s (plug k (Nd c l a r)) \<Longrightarrow> rbrep (set_color s a c') (plug k (Nd c' l a r))"
  by (auto simp: rbrep_plug frame_simps)

lemma rotate_left_facts:
  assumes r: "rbrep s (plug k (Nd cx a x (Nd cy b y c)))"
  shows "right s x = y" "left s y = rp b" "parent s x = kp k" "x \<noteq> y" "rp b \<noteq> x" "kp k \<noteq> y"
proof -
  have d: "x \<noteq> 0" "y \<noteq> 0" "x \<notin> set (inord b)" "y \<notin> set (kl k) \<union> set (kr k)"
    using r by (auto simp: rbrep_plug)
  then show "rp b \<noteq> x" "kp k \<noteq> y" using kp_in [of k] by (cases b; auto)+
  show "right s x = y" "left s y = rp b" "parent s x = kp k" "x \<noteq> y"
    using r by (auto simp: rbrep_plug)
qed

lemma rbrep_rotate_left:
  assumes r: "rbrep s (plug k (Nd cx a x (Nd cy b y c)))"
  shows "rbrep (rotate_left s x) (plug k (Nd cy (Nd cx a x b) y c))"
proof -
  note sel = rotate_left_sel [OF rotate_left_facts [OF r]]
  show ?thesis
  proof (cases k rule: kl.cases)
    case 1
    with r show ?thesis by (cases b) (simp_all add: rbrep_def sel frame_simps)
  next
    case (2 c' p r k')
    with r show ?thesis by (cases b) (simp_all add: rbrep_plug sel frame_simps)
  next
    case (3 c' l p k')
    then have "rp l \<noteq> x" using r by (cases l) (auto simp: rbrep_plug)
    with 3 r show ?thesis by (cases b) (simp_all add: rbrep_plug sel frame_simps)
  qed
qed

lemma rbrep_rotate_right:
  assumes "rbrep s (plug k (Nd cx (Nd cy a y b) x c))"
  shows "rbrep (rotate_right s x) (plug k (Nd cy a y (Nd cx b x c)))"
proof -
  have "rbrep (mirs s) (plug (mirk k) (Nd cx (mirt c) x (Nd cy (mirt b) y (mirt a))))"
    using assms plug_mirt [of k "Nd cx (Nd cy a y b) x c"] by simp
  then have "rbrep (rotate_left (mirs s) x)
      (plug (mirk k) (Nd cy (Nd cx (mirt c) x (mirt b)) y (mirt a)))"
    by (rule rbrep_rotate_left)
  then have "rbrep (mirs (rotate_right s x)) (mirt (plug k (Nd cy a y (Nd cx b x c))))"
    using plug_mirt [of k "Nd cy a y (Nd cx b x c)"] by simp
  then show ?thesis by simp
qed

end
