(* ===== verification/Rbtree_Insert.thy ===== *)
theory Rbtree_Insert
  imports Rbtree_Shape
begin

text \<open>
  Insertion: \<^verbatim>\<open>rb_link_node\<close> followed by \<^verbatim>\<open>rb_insert_color\<close> adds one node to the sequence at
  the chosen slot, restores the red-black invariants and writes only to nodes of the tree.
\<close>

section \<open>Heaps derived from one another by stores inside a tree\<close>

definition rb_frame :: "ptr set \<Rightarrow> 'a rb_state_scheme \<Rightarrow> 'a rb_state_scheme \<Rightarrow> bool" where
  "rb_frame X s s' \<longleftrightarrow>
     (\<forall>a. a \<notin> X \<longrightarrow> parent s' a = parent s a \<and> left s' a = left s a \<and>
                    right s' a = right s a \<and> color s' a = color s a) \<and>
     rb_state.more s' = rb_state.more s"

lemma rb_frame_refl [simp]: "rb_frame X s s"
  by (simp add: rb_frame_def)

lemma rb_frame_trans: "rb_frame X s s' \<Longrightarrow> rb_frame X s' s'' \<Longrightarrow> rb_frame X s s''"
  by (simp add: rb_frame_def)

lemma rb_frame_mono: "rb_frame X s s' \<Longrightarrow> X \<subseteq> Y \<Longrightarrow> rb_frame Y s s'"
  unfolding rb_frame_def by blast

lemma rb_frame_mirs [simp]: "rb_frame X (mirs s) (mirs s') = rb_frame X s s'"
  by (auto simp: rb_frame_def mirs_def)

text \<open>
  \<open>rbto s0 xs s T\<close>: the heap \<open>s\<close> holds the tree \<open>T\<close> over the nodes \<open>xs\<close>, in this order, and was
  reached from \<open>s0\<close> by stores to these nodes only.
\<close>

definition rbto :: "'a rb_state_scheme \<Rightarrow> ptr list \<Rightarrow> 'a rb_state_scheme \<Rightarrow> rtree \<Rightarrow> bool" where
  "rbto s0 xs s T \<longleftrightarrow> rbrep s T \<and> inord T = xs \<and> rb_frame (set xs) s0 s"

lemma rbto_refl: "rbrep s T \<Longrightarrow> rbto s (inord T) s T"
  by (simp add: rbto_def)

lemma rbto_mirs: "rbto (mirs s0) (rev xs) (mirs s) (mirt T) = rbto s0 xs s T"
  by (simp add: rbto_def)

lemma rbrep_reads:
  assumes "rbrep s (plug k (Nd c l a r))"
  shows "a \<noteq> 0" "parent s a = kp k" "left s a = rp l" "right s a = rp r" "color s a = c"
  using assms by (auto simp: rbrep_plug)

lemma rbto_reads:
  assumes "rbto s0 xs s (plug k (Nd c l a r))"
  shows "a \<noteq> 0" "parent s a = kp k" "left s a = rp l" "right s a = rp r" "color s a = c"
  using rbrep_reads [of s k c l a r] assms by (auto simp: rbto_def)

lemma rbto_distinct: "rbto s0 xs s (plug k t) \<Longrightarrow> distinct (inord t)"
  by (simp add: rbto_def rbrep_plug)

lemma rbto_step:
  assumes "rbto s0 xs s T" "rbrep s' T'" "inord T' = inord T" "rb_frame (set (inord T)) s s'"
  shows "rbto s0 xs s' T'"
  using assms rb_frame_trans [of "set xs" s0 s s'] by (simp add: rbto_def)

lemma rbto_set_color:
  assumes "rbto s0 xs s (plug k (Nd c l a r))"
  shows "rbto s0 xs (set_color s a c') (plug k (Nd c' l a r))"
  by (rule rbto_step [OF assms])
     (use assms in \<open>auto simp: rbto_def rb_frame_def intro: rbrep_set_color\<close>)

lemma rotate_left_frame:
  assumes r: "rbrep s (plug k (Nd cx a x (Nd cy b y c)))"
  shows "rb_frame (set (inord (plug k (Nd cx a x (Nd cy b y c))))) s (rotate_left s x)"
proof -
  have "rp b = 0 \<or> rp b \<in> set (inord b)" by (cases b) auto
  then show ?thesis
    using kp_in [of k] by (auto simp: rb_frame_def rotate_left_sel [OF rotate_left_facts [OF r]])
qed

lemma rbto_rotate_left:
  assumes "rbto s0 xs s (plug k (Nd cx a x (Nd cy b y c)))"
  shows "rbto s0 xs (rotate_left s x) (plug k (Nd cy (Nd cx a x b) y c))"
proof (rule rbto_step [OF assms])
  have r: "rbrep s (plug k (Nd cx a x (Nd cy b y c)))" using assms by (simp add: rbto_def)
  show "rbrep (rotate_left s x) (plug k (Nd cy (Nd cx a x b) y c))"
    by (rule rbrep_rotate_left [OF r])
  show "rb_frame (set (inord (plug k (Nd cx a x (Nd cy b y c))))) s (rotate_left s x)"
    by (rule rotate_left_frame [OF r])
qed simp

lemma rbto_rotate_right:
  assumes "rbto s0 xs s (plug k (Nd cx (Nd cy a y b) x c))"
  shows "rbto s0 xs (rotate_right s x) (plug k (Nd cy a y (Nd cx b x c)))"
proof -
  have "rbto (mirs s0) (rev xs) (mirs s)
      (plug (mirk k) (Nd cx (mirt c) x (Nd cy (mirt b) y (mirt a))))"
    using assms rbto_mirs [of s0 xs s] plug_mirt [of k "Nd cx (Nd cy a y b) x c"] by simp
  then have "rbto (mirs s0) (rev xs) (rotate_left (mirs s) x)
      (plug (mirk k) (Nd cy (Nd cx (mirt c) x (mirt b)) y (mirt a)))"
    by (rule rbto_rotate_left)
  then have "rbto (mirs s0) (rev xs) (mirs (rotate_right s x))
      (mirt (plug k (Nd cy a y (Nd cx b x c))))"
    using plug_mirt [of k "Nd cy a y (Nd cx b x c)"] by simp
  then show ?thesis by (simp add: rbto_mirs)
qed

section \<open>One round of the insertion loop\<close>

lemma insert_fix_left_red_uncle:
  assumes t: "rbto s0 xs s (plug k (Nd cg (Nd RB_RED pl p pr) g (Nd RB_RED ul u ur)))"
    and z: "parent s z = p"
  shows "\<exists>s'. rb_insert_fix_left s z g = (s', g) \<and>
    rbto s0 xs s' (plug k (Nd RB_RED (Nd RB_BLACK pl p pr) g (Nd RB_BLACK ul u ur)))"
proof -
  let ?s1 = "set_color s p RB_BLACK"
  let ?s2 = "set_color ?s1 u RB_BLACK"
  have 1: "rbto s0 xs ?s1 (plug k (Nd cg (Nd RB_BLACK pl p pr) g (Nd RB_RED ul u ur)))"
    using rbto_set_color [of s0 xs s "SL cg g (Nd RB_RED ul u ur) # k"] t by simp
  have 2: "rbto s0 xs ?s2 (plug k (Nd cg (Nd RB_BLACK pl p pr) g (Nd RB_BLACK ul u ur)))"
    using rbto_set_color [of s0 xs ?s1 "SR cg (Nd RB_BLACK pl p pr) g # k"] 1 by simp
  have 3: "rbto s0 xs (set_color ?s2 g RB_RED)
      (plug k (Nd RB_RED (Nd RB_BLACK pl p pr) g (Nd RB_BLACK ul u ur)))"
    using rbto_set_color [OF 2] by simp
  have "u \<noteq> 0" "color s u = RB_RED" "right s g = u"
    using rbto_reads [of s0 xs s "SR cg (Nd RB_RED pl p pr) g # k"] rbto_reads [OF t] t by auto
  then have "rb_insert_fix_left s z g = (set_color ?s2 g RB_RED, g)"
    using z by (simp add: rb_insert_fix_left_def)
  with 3 show ?thesis by blast
qed

lemma insert_fix_left_outer:
  assumes t: "rbto s0 xs s (plug k (Nd cg (Nd RB_RED (Nd RB_RED zl z zr) p pr) g u))"
    and u: "colr u = RB_BLACK"
  shows "\<exists>s'. rb_insert_fix_left s z g = (s', z) \<and>
    rbto s0 xs s' (plug k (Nd RB_BLACK (Nd RB_RED zl z zr) p (Nd RB_RED pr g u)))"
proof -
  let ?s1 = "set_color s p RB_BLACK"
  let ?s2 = "set_color ?s1 g RB_RED"
  have 1: "rbto s0 xs ?s1 (plug k (Nd cg (Nd RB_BLACK (Nd RB_RED zl z zr) p pr) g u))"
    using rbto_set_color [of s0 xs s "SL cg g u # k"] t by simp
  have 2: "rbto s0 xs ?s2 (plug k (Nd RB_RED (Nd RB_BLACK (Nd RB_RED zl z zr) p pr) g u))"
    by (rule rbto_set_color [OF 1])
  have 3: "rbto s0 xs (rotate_right ?s2 g)
      (plug k (Nd RB_BLACK (Nd RB_RED zl z zr) p (Nd RB_RED pr g u)))"
    by (rule rbto_rotate_right [OF 2])
  have uncle: "right s g = 0 \<or> color s (right s g) = RB_BLACK"
    using t u rbto_reads [of s0 xs s "SR cg (Nd RB_RED (Nd RB_RED zl z zr) p pr) g # k"]
      rbto_reads [OF t] by (cases u) auto
  have p: "parent s p = g" "p \<noteq> 0" "g \<noteq> 0" "right s p = rp pr"
    using rbto_reads [of s0 xs s "SL cg g u # k"] rbto_reads [OF t] t by auto
  have z: "parent s z = p" "z \<noteq> 0"
    using rbto_reads [of s0 xs s "SL RB_RED p pr # SL cg g u # k"] t by auto
  have "z \<noteq> rp pr"
    using rbto_distinct [OF t] z(2) by (cases pr) auto
  then show ?thesis
    using uncle p z 3 by (auto simp: rb_insert_fix_left_def Let_def rb_grandparent_def)
qed

lemma insert_fix_left_inner:
  assumes t: "rbto s0 xs s (plug k (Nd cg (Nd RB_RED pl p (Nd RB_RED zl z zr)) g u))"
    and u: "colr u = RB_BLACK"
  shows "\<exists>s'. rb_insert_fix_left s z g = (s', p) \<and>
    rbto s0 xs s' (plug k (Nd RB_BLACK (Nd RB_RED pl p zl) z (Nd RB_RED zr g u)))"
proof -
  let ?s1 = "rotate_left s p"
  let ?s2 = "set_color ?s1 z RB_BLACK"
  let ?s3 = "set_color ?s2 g RB_RED"
  have 1: "rbto s0 xs ?s1 (plug k (Nd cg (Nd RB_RED (Nd RB_RED pl p zl) z zr) g u))"
    using rbto_rotate_left [of s0 xs s "SL cg g u # k"] t by simp
  have 2: "rbto s0 xs ?s2 (plug k (Nd cg (Nd RB_BLACK (Nd RB_RED pl p zl) z zr) g u))"
    using rbto_set_color [of s0 xs ?s1 "SL cg g u # k"] 1 by simp
  have 3: "rbto s0 xs ?s3 (plug k (Nd RB_RED (Nd RB_BLACK (Nd RB_RED pl p zl) z zr) g u))"
    by (rule rbto_set_color [OF 2])
  have 4: "rbto s0 xs (rotate_right ?s3 g)
      (plug k (Nd RB_BLACK (Nd RB_RED pl p zl) z (Nd RB_RED zr g u)))"
    by (rule rbto_rotate_right [OF 3])
  have uncle: "right s g = 0 \<or> color s (right s g) = RB_BLACK"
    using t u rbto_reads [of s0 xs s "SR cg (Nd RB_RED pl p (Nd RB_RED zl z zr)) g # k"]
      rbto_reads [OF t] by (cases u) auto
  have p: "parent s z = p" "right s p = z"
    using rbto_reads [of s0 xs s "SL cg g u # k"]
      rbto_reads [of s0 xs s "SR RB_RED pl p # SL cg g u # k"] t by auto
  have q: "parent ?s1 p = z" "parent ?s1 z = g" "z \<noteq> 0" "g \<noteq> 0" "p \<noteq> 0"
    using rbto_reads [of s0 xs ?s1 "SL cg g u # k"] rbto_reads [OF 1]
      rbto_reads [of s0 xs ?s1 "SL RB_RED z zr # SL cg g u # k"] 1 by auto
  show ?thesis
    using uncle p q 4 by (auto simp: rb_insert_fix_left_def Let_def rb_grandparent_def)
qed

lemma rb_grandparent_mirs [simp]: "rb_grandparent (mirs s) z = rb_grandparent s z"
  by (simp add: rb_grandparent_def)

lemma rb_insert_fix_mirs:
  "rb_insert_fix_left (mirs s) z g = map_prod mirs id (rb_insert_fix_right s z g)"
  by (simp add: rb_insert_fix_left_def rb_insert_fix_right_def Let_def)

text \<open>The loop invariant: everything is in order except that \<open>z\<close> and its parent may both be red.\<close>

definition ins_inv :: "step list \<Rightarrow> rtree \<Rightarrow> bool" where
  "ins_inv k t \<longleftrightarrow> colr t = RB_RED \<and> invc t \<and> invh t \<and> kinvc k \<and> kinvh k (bh t)"

lemma ins_inv_mirs: "ins_inv (mirk k) (mirt t) = ins_inv k t"
  by (auto simp: ins_inv_def bh_mirt)

lemma insert_step_left:
  assumes t: "rbto s0 xs s (plug (st # SL cg g u # k) t)"
    and inv: "ins_inv (st # SL cg g u # k) t" and red: "scol st = RB_RED"
  shows "\<exists>s' k' t'. rb_insert_fix_left s (rp t) g = (s', rp t') \<and> rbto s0 xs s' (plug k' t') \<and>
    ins_inv k' t' \<and> length k' < length (st # SL cg g u # k)"
proof -
  obtain zl z zr where z: "t = Nd RB_RED zl z zr" using inv by (cases t) (auto simp: ins_inv_def)
  have "parent s z = sp st"
    using rbto_reads(2) [of s0 xs s "st # SL cg g u # k"] t unfolding z by simp
  show ?thesis
  proof (cases "colr u")
    case RB_RED
    then obtain ul un ur where u: "u = Nd RB_RED ul un ur" by (cases u) auto
    obtain pl p pr where p: "plug [st] t = Nd RB_RED pl p pr" "p = sp st"
      using red by (cases st) auto
    have "rbto s0 xs s (plug k (Nd cg (Nd RB_RED pl p pr) g (Nd RB_RED ul un ur)))"
      using t p(1) unfolding u by (cases st) auto
    from insert_fix_left_red_uncle [OF this, of z] p(2) \<open>parent s z = sp st\<close>
    obtain s' where "rb_insert_fix_left s z g = (s', g)"
      "rbto s0 xs s' (plug k (Nd RB_RED (Nd RB_BLACK pl p pr) g (Nd RB_BLACK ul un ur)))" by auto
    moreover have "ins_inv k (Nd RB_RED (Nd RB_BLACK pl p pr) g (Nd RB_BLACK ul un ur))"
      using inv p red z u by (cases st) (auto simp: ins_inv_def)
    ultimately show ?thesis using z by (intro exI conjI) auto
  next
    case RB_BLACK
    show ?thesis
    proof (cases st)
      case (SL cp p pr)
      with insert_fix_left_outer [of s0 xs s k cg zl z zr p pr g u] t red z RB_BLACK
      obtain s' where s': "rb_insert_fix_left s z g = (s', z)"
        "rbto s0 xs s' (plug k (Nd RB_BLACK (Nd RB_RED zl z zr) p (Nd RB_RED pr g u)))" by auto
      have "ins_inv (SL RB_BLACK p (Nd RB_RED pr g u) # k) (Nd RB_RED zl z zr)"
        using inv SL red z RB_BLACK by (auto simp: ins_inv_def)
      then show ?thesis
        by (intro exI [of _ s'] exI [of _ "SL RB_BLACK p (Nd RB_RED pr g u) # k"] exI [of _ t])
           (use s' z in auto)
    next
      case (SR cp pl p)
      with insert_fix_left_inner [of s0 xs s k cg pl p zl z zr g u] t red z RB_BLACK
      obtain s' where s': "rb_insert_fix_left s z g = (s', p)"
        "rbto s0 xs s' (plug k (Nd RB_BLACK (Nd RB_RED pl p zl) z (Nd RB_RED zr g u)))" by auto
      have "ins_inv (SL RB_BLACK z (Nd RB_RED zr g u) # k) (Nd RB_RED pl p zl)"
        using inv SR red z RB_BLACK by (auto simp: ins_inv_def)
      then show ?thesis
        by (intro exI [of _ s'] exI [of _ "SL RB_BLACK z (Nd RB_RED zr g u) # k"]
            exI [of _ "Nd RB_RED pl p zl"])
           (use s' z in auto)
    qed
  qed
qed

lemma insert_step_right:
  assumes t: "rbto s0 xs s (plug (st # SR cg u g # k) t)"
    and inv: "ins_inv (st # SR cg u g # k) t" and red: "scol st = RB_RED"
  shows "\<exists>s' k' t'. rb_insert_fix_right s (rp t) g = (s', rp t') \<and> rbto s0 xs s' (plug k' t') \<and>
    ins_inv k' t' \<and> length k' < length (st # SR cg u g # k)"
proof -
  have "rbto (mirs s0) (rev xs) (mirs s) (plug (mirst st # SL cg g (mirt u) # mirk k) (mirt t))"
    using t rbto_mirs [of s0 xs s] plug_mirt [of "st # SR cg u g # k" t] by simp
  moreover have "ins_inv (mirst st # SL cg g (mirt u) # mirk k) (mirt t)"
    using inv ins_inv_mirs [of "st # SR cg u g # k" t] by simp
  ultimately obtain s' k' t' where
    s': "rb_insert_fix_left (mirs s) (rp (mirt t)) g = (s', rp t')"
      "rbto (mirs s0) (rev xs) s' (plug k' t')" "ins_inv k' t'"
      "length k' < length (mirst st # SL cg g (mirt u) # mirk k)"
    using insert_step_left red by (metis mirst_simps(3))
  have 1: "rb_insert_fix_right s (rp t) g = (mirs s', rp t')"
    using s'(1) by (cases "rb_insert_fix_right s (rp t) g") (auto simp: rb_insert_fix_mirs)
  have 2: "rbto s0 xs (mirs s') (plug (mirk k') (mirt t'))"
    using s'(2) rbto_mirs [of s0 xs "mirs s'" "mirt (plug k' t')"] plug_mirt [of k' t'] by simp
  have "ins_inv (mirk k') (mirt t')" using s'(3) by (simp add: ins_inv_mirs)
  then show ?thesis
    by (intro exI [of _ "mirs s'"] exI [of _ "mirk k'"] exI [of _ "mirt t'"]) (use 1 2 s'(4) in auto)
qed

section \<open>The loop, and insertion as a whole\<close>

lemma rb_insert_loop_ok:
  assumes "rbto s0 xs s (plug k t)" "ins_inv k t"
  shows "\<exists>s' T. rb_insert_loop s (rp t) = Some s' \<and> rbto s0 xs s' T \<and>
    invc (paint RB_BLACK T) \<and> invh T"
  using assms
proof (induction "length k" arbitrary: k t s rule: less_induct)
  case less
  obtain zl z zr where z: "t = Nd RB_RED zl z zr"
    using less.prems by (cases t) (auto simp: ins_inv_def)
  note rd = rbto_reads [OF less.prems(1) [unfolded z]]
  have black: "invc (paint RB_BLACK (plug k t))" if "kcol k = RB_BLACK"
    using less.prems(2) that by (simp add: ins_inv_def invc_plug)
  have h: "invh (plug k t)" using less.prems(2) by (simp add: ins_inv_def invh_plug)
  show ?case
  proof (cases k)
    case Nil
    with rd z less.prems(1) black h show ?thesis
      by (subst rb_insert_loop.simps) auto
  next
    case (Cons st k1)
    have st: "sp st \<noteq> 0" "parent s (sp st) = kp k1" "color s (sp st) = scol st"
      using less.prems(1) unfolding Cons by (cases st; auto simp: rbto_def rbrep_plug)+
    show ?thesis
    proof (cases "scol st")
      case RB_BLACK
      with rd z st less.prems(1) black h Cons show ?thesis
        by (subst rb_insert_loop.simps) auto
    next
      case red: RB_RED
      show ?thesis
      proof (cases k1 rule: kl.cases)
        case 1
        have "invc (paint RB_BLACK (plug k t))"
          using less.prems(2) Cons 1 by (cases st) (auto simp: ins_inv_def)
        with rd z st less.prems(1) h Cons 1 red show ?thesis
          by (subst rb_insert_loop.simps) (auto simp: rb_grandparent_def)
      next
        case (2 cg g u k2)
        have g: "left s g = sp st" "g \<noteq> 0"
          using less.prems(1) unfolding Cons 2 by (cases st; auto simp: rbto_def rbrep_plug)+
        obtain s' k' t' where n: "rb_insert_fix_left s (rp t) g = (s', rp t')"
          "rbto s0 xs s' (plug k' t')" "ins_inv k' t'" "length k' < length k"
          using insert_step_left [of s0 xs s st cg g u k2 t] less.prems red Cons 2 by auto
        from less.hyps [OF n(4,2,3)] show ?thesis
          using rd z st red g n(1) Cons 2 by (subst rb_insert_loop.simps) (auto simp: rb_grandparent_def)
      next
        case (3 cg u g k2)
        have g: "left s g \<noteq> sp st" "g \<noteq> 0"
          using less.prems(1) unfolding Cons 3
          by (cases st; cases u; auto simp: rbto_def rbrep_plug)+
        obtain s' k' t' where n: "rb_insert_fix_right s (rp t) g = (s', rp t')"
          "rbto s0 xs s' (plug k' t')" "ins_inv k' t'" "length k' < length k"
          using insert_step_right [of s0 xs s st cg u g k2 t] less.prems red Cons 3 by auto
        from less.hyps [OF n(4,2,3)] show ?thesis
          using rd z st red g n(1) Cons 3 by (subst rb_insert_loop.simps) (auto simp: rb_grandparent_def)
      qed
    qed
  qed
qed

text \<open>The slot at the end of a path.\<close>

fun slot_of :: "step list \<Rightarrow> slot" where
  "slot_of [] = Slot_root"
| "slot_of (SL c a r # k) = Slot_left a"
| "slot_of (SR c l a # k) = Slot_right a"

lemma rb_link_node_rep:
  assumes r: "rbrep s (plug k Lf)" and v: "v \<noteq> 0" "v \<notin> set (inord (plug k Lf))"
  shows "rbrep (rb_link_node s v (kp k) (slot_of k)) (plug k (Nd RB_RED Lf v Lf))"
    "rb_frame (set (kl k @ v # kr k)) s (rb_link_node s v (kp k) (slot_of k))"
proof -
  show "rbrep (rb_link_node s v (kp k) (slot_of k)) (plug k (Nd RB_RED Lf v Lf))"
  proof (cases k rule: kl.cases)
    case 1
    with r v show ?thesis by (simp add: rbrep_def rb_link_node_def)
  next
    case (2 c a r k')
    with r v show ?thesis by (simp add: rbrep_plug rb_link_node_def frame_simps)
  next
    case (3 c l a k')
    with r v show ?thesis by (simp add: rbrep_plug rb_link_node_def frame_simps)
  qed
  show "rb_frame (set (kl k @ v # kr k)) s (rb_link_node s v (kp k) (slot_of k))"
    by (cases k rule: kl.cases) (auto simp: rb_frame_def rb_link_node_def)
qed

lemma rb_insert_color_ok:
  assumes t: "rbto s0 xs s (plug k t)" and inv: "ins_inv k t"
  shows "\<exists>s' T. rb_insert_color s (rp t) = Some s' \<and> rbto s0 xs s' T \<and> rbt T"
proof -
  obtain s1 T where s1: "rb_insert_loop s (rp t) = Some s1" "rbto s0 xs s1 T"
    "invc (paint RB_BLACK T)" "invh T"
    using rb_insert_loop_ok [OF t inv] by blast
  have "T \<noteq> Lf"
    using s1(2) t inv by (cases t) (auto simp: rbto_def ins_inv_def)
  then obtain c l a r where T: "T = Nd c l a r" by (cases T) auto
  have a: "root s1 = a" "a \<noteq> 0" using s1(2) by (auto simp: rbto_def rbrep_def T)
  have "rbto s0 xs (set_color s1 a RB_BLACK) (Nd RB_BLACK l a r)"
    using rbto_set_color [of s0 xs s1 "[]" c l a r RB_BLACK] s1(2) T by simp
  moreover have "rbt (Nd RB_BLACK l a r)" using s1(3,4) by (simp add: T rbt_def)
  ultimately show ?thesis using a s1(1) by (auto simp: rb_insert_color_def)
qed

lemma rb_insert_ok:
  assumes r: "rbrep s (plug k Lf)" and b: "rbt (plug k Lf)"
    and v: "v \<noteq> 0" "v \<notin> set (inord (plug k Lf))"
  shows "\<exists>s' T. rb_insert_color (rb_link_node s v (kp k) (slot_of k)) v = Some s' \<and>
    rbrep s' T \<and> rbt T \<and> inord T = kl k @ v # kr k \<and> rb_frame (set (kl k @ v # kr k)) s s'"
proof -
  let ?t = "Nd RB_RED Lf v Lf"
  have "rbto s (kl k @ v # kr k) (rb_link_node s v (kp k) (slot_of k)) (plug k ?t)"
    using rb_link_node_rep [OF r v] by (simp add: rbto_def)
  moreover have "ins_inv k ?t"
    using b by (simp add: rbt_def ins_inv_def invc_plug invh_plug)
  ultimately have "\<exists>s' T. rb_insert_color (rb_link_node s v (kp k) (slot_of k)) (rp ?t) = Some s' \<and>
      rbto s (kl k @ v # kr k) s' T \<and> rbt T"
    by (rule rb_insert_color_ok)
  then show ?thesis by (auto simp: rbto_def)
qed

section \<open>Iteration\<close>

lemma rb_min_rep:
  assumes "rep (parent s) (left s) (right s) (color s) par t"
  shows "rb_min s (rp t) = Some (first_or_null (inord t))"
  using assms
proof (induction t arbitrary: par)
  case Lf
  then show ?case by (simp add: rb_min.simps)
next
  case (Nd c l a r)
  then have l: "rep (parent s) (left s) (right s) (color s) a l" "left s a = rp l" "a \<noteq> 0" by auto
  show ?case
  proof (cases l)
    case Lf
    with l show ?thesis by (subst rb_min.simps) simp
  next
    case (Nd c' l' b r')
    then have "rb_min s a = rb_min s (rp l)" using l by (subst rb_min.simps) auto
    then show ?thesis using Nd.IH(1) [OF l(1)] Nd by (simp add: first_or_null_append)
  qed
qed

lemma rb_first_rep: "rbrep s t \<Longrightarrow> rb_first s = Some (first_or_null (inord t))"
  by (auto simp: rbrep_def rb_first_def rb_min_rep)

lemma rb_climb_rep:
  assumes "rbrep s (plug k t)" "t \<noteq> Lf"
  shows "rb_climb s (rp t) = Some (first_or_null (kr k))"
  using assms
proof (induction k t rule: plug.induct)
  case (1 t)
  then obtain c l a r where "t = Nd c l a r" by (cases t) auto
  with 1 show ?case by (subst rb_climb.simps) (auto simp: rbrep_def)
next
  case (2 c a r k t)
  then obtain c' l' b r' where t: "t = Nd c' l' b r'" by (cases t) auto
  have "parent s b = a" "a \<noteq> 0" "right s a = rp r" "b \<noteq> rp r"
    using 2(2) unfolding t by (cases r; auto simp: rbrep_plug)+
  then show ?case using t by (subst rb_climb.simps) auto
next
  case (3 c l a k t)
  then obtain c' l' b r' where t: "t = Nd c' l' b r'" by (cases t) auto
  have "parent s b = a" "a \<noteq> 0" "right s a = b"
    using 3(2) unfolding t by (auto simp: rbrep_plug)
  then show ?case using t 3 by (subst rb_climb.simps) auto
qed

lemma rb_next_plug:
  assumes "rbrep s (plug k (Nd c l a r))"
  shows "rb_next s a = Some (first_or_null (inord r @ kr k))"
proof (cases r)
  case Lf
  then have "right s a = 0" using rbrep_reads(4) [OF assms] by simp
  then show ?thesis
    using rb_climb_rep [OF assms] Lf by (simp add: rb_next_def)
next
  case (Nd c' l' b r')
  then have "right s a = rp r" "rp r \<noteq> 0"
    "rep (parent s) (left s) (right s) (color s) a r"
    using assms by (auto simp: rbrep_plug)
  then show ?thesis
    using rb_min_rep [of s a r] Nd by (simp add: rb_next_def first_or_null_append)
qed

text \<open>\<^verbatim>\<open>rb_next\<close> moves to the next element of the inorder sequence.\<close>

lemma rb_next_rep:
  assumes r: "rbrep s t" and x: "inord t = xs @ a # ys"
  shows "rb_next s a = Some (first_or_null ys)"
proof -
  have "a \<in> set (inord t)" using x by simp
  then obtain k c l r' where t: "t = plug k (Nd c l a r')" using in_tree_plug by blast
  have "distinct (inord t)" using r by (simp add: rbrep_def)
  then have "a \<notin> set xs" "a \<notin> set ys" using x by auto
  then have "inord r' @ kr k = ys"
    using x append_Cons_eq_iff [of a xs ys "kl k @ inord l" "inord r' @ kr k"] by (simp add: t)
  then show ?thesis using rb_next_plug r t by metis
qed

end
