(* ===== verification/Rbtree_Erase.thy ===== *)
theory Rbtree_Erase
  imports Rbtree_Insert
begin

text \<open>
  Erasure: \<^verbatim>\<open>rb_erase\<close> takes one node out of the sequence, restores the red-black invariants
  and returns on every tree that satisfies them.
\<close>

section \<open>One round of the fixup loop\<close>

lemma rbto_black: "rbto s0 xs s (plug k t) \<Longrightarrow> black_or_null s (rp t) \<longleftrightarrow> colr t = RB_BLACK"
  by (cases t) (auto simp: black_or_null_def rbto_def rbrep_plug)

text \<open>
  The loop invariant: the subtree at \<open>x\<close> is one black node short, and its root may be a red
  node below a red node.
\<close>

definition era_inv :: "step list \<Rightarrow> rtree \<Rightarrow> bool" where
  "era_inv k t \<longleftrightarrow> invc (paint RB_BLACK t) \<and> invh t \<and> kinvc k \<and> kinvh k (Suc (bh t)) \<and>
     (k \<noteq> [] \<longrightarrow> scol (last k) = RB_BLACK)"

definition era_meas :: "step list \<Rightarrow> rtree \<Rightarrow> nat" where
  "era_meas k t = 2 * length k + (if colr t = RB_BLACK then 1 else 0)"

lemma paint_mirt [simp]: "paint c (mirt t) = mirt (paint c t)"
  by (cases t) auto

lemma era_inv_mirs: "era_inv (mirk k) (mirt t) = era_inv k t"
  unfolding era_inv_def by (auto simp: bh_mirt last_map)

lemma erase_recolor:
  assumes t: "rbto s0 xs s (plug k (Nd cp t p (Nd RB_BLACK wl w wr)))"
    and b: "colr wl = RB_BLACK" "colr wr = RB_BLACK"
  shows "\<exists>s'. erase_black_left s p w xp = (s', p, kp k) \<and>
    rbto s0 xs s' (plug k (Nd cp t p (Nd RB_RED wl w wr)))"
proof -
  let ?kw = "SR cp t p # k"
  have w: "rbto s0 xs s (plug ?kw (Nd RB_BLACK wl w wr))" using t by simp
  note rd = rbto_reads [OF w] rbto_reads [OF t]
  have "black_or_null s (rp wl)" "black_or_null s (rp wr)"
    using rbto_black [of s0 xs s "SL RB_BLACK w wr # ?kw" wl]
      rbto_black [of s0 xs s "SR RB_BLACK wl w # ?kw" wr] w b by simp_all
  moreover have "rbto s0 xs (set_color s w RB_RED) (plug k (Nd cp t p (Nd RB_RED wl w wr)))"
    using rbto_set_color [OF w] by simp
  ultimately show ?thesis using rd by (simp add: erase_black_left_def)
qed

lemma erase_rotate_outer:
  assumes t: "rbto s0 xs s (plug k (Nd cp t p (Nd RB_BLACK wl w (Nd RB_RED a v b))))"
  shows "\<exists>s'. erase_black_left s p w xp = (s', root s', xp) \<and>
    rbto s0 xs s' (plug k (Nd cp (Nd RB_BLACK t p wl) w (Nd RB_BLACK a v b)))"
proof -
  let ?kw = "SR cp t p # k"
  let ?s1 = "set_color s w cp"
  let ?s2 = "set_color ?s1 p RB_BLACK"
  let ?s3 = "set_color ?s2 v RB_BLACK"
  have w: "rbto s0 xs s (plug ?kw (Nd RB_BLACK wl w (Nd RB_RED a v b)))" using t by simp
  have v: "rbto s0 xs s (plug (SR RB_BLACK wl w # ?kw) (Nd RB_RED a v b))" using t by simp
  note rd = rbto_reads [OF w] rbto_reads [OF t] rbto_reads [OF v]
  have 1: "rbto s0 xs ?s1 (plug k (Nd cp t p (Nd cp wl w (Nd RB_RED a v b))))"
    using rbto_set_color [OF w] by simp
  have 2: "rbto s0 xs ?s2 (plug k (Nd RB_BLACK t p (Nd cp wl w (Nd RB_RED a v b))))"
    by (rule rbto_set_color [OF 1])
  have 3: "rbto s0 xs ?s3 (plug k (Nd RB_BLACK t p (Nd cp wl w (Nd RB_BLACK a v b))))"
    using rbto_set_color [of s0 xs ?s2 "SR cp wl w # SR RB_BLACK t p # k"] 2 by simp
  have 4: "rbto s0 xs (rotate_left ?s3 p) (plug k (Nd cp (Nd RB_BLACK t p wl) w (Nd RB_BLACK a v b)))"
    by (rule rbto_rotate_left [OF 3])
  have "erase_black_left s p w xp = (rotate_left ?s3 p, root (rotate_left ?s3 p), xp)"
    using rd by (simp add: erase_black_left_def black_or_null_def Let_def)
  with 4 show ?thesis by blast
qed

lemma erase_rotate_inner:
  assumes t: "rbto s0 xs s (plug k (Nd cp t p (Nd RB_BLACK (Nd RB_RED a v b) w wr)))"
    and b: "colr wr = RB_BLACK"
  shows "\<exists>s'. erase_black_left s p w xp = (s', root s', xp) \<and>
    rbto s0 xs s' (plug k (Nd cp (Nd RB_BLACK t p a) v (Nd RB_BLACK b w wr)))"
proof -
  let ?kw = "SR cp t p # k"
  let ?s1 = "set_color s v RB_BLACK"
  let ?s2 = "set_color ?s1 w RB_RED"
  let ?s3 = "rotate_right ?s2 w"
  let ?s4 = "set_color ?s3 v cp"
  let ?s5 = "set_color ?s4 p RB_BLACK"
  let ?s6 = "set_color ?s5 w RB_BLACK"
  have w: "rbto s0 xs s (plug ?kw (Nd RB_BLACK (Nd RB_RED a v b) w wr))" using t by simp
  have v: "rbto s0 xs s (plug (SL RB_BLACK w wr # ?kw) (Nd RB_RED a v b))" using t by simp
  note rd = rbto_reads [OF w] rbto_reads [OF t] rbto_reads [OF v]
  have wr: "black_or_null s (rp wr)"
    using rbto_black [of s0 xs s "SR RB_BLACK (Nd RB_RED a v b) w # ?kw" wr] w b by simp
  have 1: "rbto s0 xs ?s1 (plug ?kw (Nd RB_BLACK (Nd RB_BLACK a v b) w wr))"
    using rbto_set_color [OF v] by simp
  have 2: "rbto s0 xs ?s2 (plug ?kw (Nd RB_RED (Nd RB_BLACK a v b) w wr))"
    by (rule rbto_set_color [OF 1])
  have 3: "rbto s0 xs ?s3 (plug ?kw (Nd RB_BLACK a v (Nd RB_RED b w wr)))"
    by (rule rbto_rotate_right [OF 2])
  then have t3: "rbto s0 xs ?s3 (plug k (Nd cp t p (Nd RB_BLACK a v (Nd RB_RED b w wr))))" by simp
  note rd3 = rbto_reads [OF 3] rbto_reads [OF t3]
  have 4: "rbto s0 xs ?s4 (plug k (Nd cp t p (Nd cp a v (Nd RB_RED b w wr))))"
    using rbto_set_color [OF 3] by simp
  have 5: "rbto s0 xs ?s5 (plug k (Nd RB_BLACK t p (Nd cp a v (Nd RB_RED b w wr))))"
    by (rule rbto_set_color [OF 4])
  have 6: "rbto s0 xs ?s6 (plug k (Nd RB_BLACK t p (Nd cp a v (Nd RB_BLACK b w wr))))"
    using rbto_set_color [of s0 xs ?s5 "SR cp a v # SR RB_BLACK t p # k"] 5 by simp
  have 7: "rbto s0 xs (rotate_left ?s6 p) (plug k (Nd cp (Nd RB_BLACK t p a) v (Nd RB_BLACK b w wr)))"
    by (rule rbto_rotate_left [OF 6])
  have "erase_black_left s p w xp = (rotate_left ?s6 p, root (rotate_left ?s6 p), xp)"
    using rd rd3 wr by (simp add: erase_black_left_def black_or_null_def Let_def)
  with 7 show ?thesis by blast
qed

lemma erase_rotate_red:
  assumes t: "rbto s0 xs s (plug k (Nd RB_BLACK t p (Nd RB_RED wl w wr)))"
  shows "\<exists>s'. erase_fix_left s p xp = erase_black_left s' p (rp wl) xp \<and>
    rbto s0 xs s' (plug (SL RB_BLACK w wr # k) (Nd RB_RED t p wl))"
proof -
  let ?s1 = "set_color s w RB_BLACK"
  let ?s2 = "set_color ?s1 p RB_RED"
  have w: "rbto s0 xs s (plug (SR RB_BLACK t p # k) (Nd RB_RED wl w wr))" using t by simp
  have 1: "rbto s0 xs ?s1 (plug k (Nd RB_BLACK t p (Nd RB_BLACK wl w wr)))"
    using rbto_set_color [OF w] by simp
  have 2: "rbto s0 xs ?s2 (plug k (Nd RB_RED t p (Nd RB_BLACK wl w wr)))"
    by (rule rbto_set_color [OF 1])
  have 3: "rbto s0 xs (rotate_left ?s2 p) (plug (SL RB_BLACK w wr # k) (Nd RB_RED t p wl))"
    using rbto_rotate_left [OF 2] by simp
  have "erase_fix_left s p xp = erase_black_left (rotate_left ?s2 p) p (rp wl) xp"
    using rbto_reads [OF t] rbto_reads [OF w] rbto_reads(4) [OF 3]
    by (simp add: erase_fix_left_def Let_def)
  with 3 show ?thesis by blast
qed

lemma rbto_root: "rbto s0 xs s T \<Longrightarrow> root s = rp T"
  by (simp add: rbto_def rbrep_def)

lemma era_inv_done: "invc T \<Longrightarrow> invh T \<Longrightarrow> era_inv [] T"
  by (simp add: era_inv_def)

lemma erase_black_step:
  assumes t: "rbto s0 xs s (plug k (Nd cp t p (Nd RB_BLACK wl w wr)))"
    and inv: "era_inv (SL cp p (Nd RB_BLACK wl w wr) # k) t" and b: "colr t = RB_BLACK"
  shows "\<exists>s' k' t' xp'. erase_black_left s p w xp = (s', rp t', xp') \<and> t' \<noteq> Lf \<and>
    rbto s0 xs s' (plug k' t') \<and> era_inv k' t' \<and> (k' = [] \<or> k' = k \<and> colr t' = cp)"
proof -
  have ct: "invc t" using inv b by (cases t) (auto simp: era_inv_def)
  consider (both) "colr wl = RB_BLACK" "colr wr = RB_BLACK"
    | (inner) a v c where "wl = Nd RB_RED a v c" "colr wr = RB_BLACK"
    | (outer) a v c where "wr = Nd RB_RED a v c"
    by (cases wl rule: colr.cases; cases wr rule: colr.cases) (metis not_black colr.simps)+
  then show ?thesis
  proof cases
    case both
    let ?t = "Nd cp t p (Nd RB_RED wl w wr)"
    have "era_inv k ?t" using inv b both ct by (auto simp: era_inv_def split: if_splits)
    with erase_recolor [OF t both] show ?thesis
      by (metis colr.simps(2) rp.simps(2) rtree.distinct(1))
  next
    case inner
    let ?t = "Nd cp (Nd RB_BLACK t p a) v (Nd RB_BLACK c w wr)"
    obtain s' where s': "erase_black_left s p w xp = (s', root s', xp)" "rbto s0 xs s' (plug k ?t)"
      using erase_rotate_inner t inner by metis
    have "era_inv [] (plug k ?t)"
      using inv b inner ct by (intro era_inv_done) (auto simp: era_inv_def invc_plug invh_plug)
    then show ?thesis
      by (intro exI [of _ s'] exI [of _ "[]"] exI [of _ "plug k ?t"] exI [of _ xp])
         (use s' rbto_root [OF s'(2)] in \<open>auto dest: arg_cong [of _ _ inord]\<close>)
  next
    case outer
    let ?t = "Nd cp (Nd RB_BLACK t p wl) w (Nd RB_BLACK a v c)"
    obtain s' where s': "erase_black_left s p w xp = (s', root s', xp)" "rbto s0 xs s' (plug k ?t)"
      using erase_rotate_outer t outer by metis
    have "era_inv [] (plug k ?t)"
      using inv b outer ct by (intro era_inv_done) (auto simp: era_inv_def invc_plug invh_plug)
    then show ?thesis
      by (intro exI [of _ s'] exI [of _ "[]"] exI [of _ "plug k ?t"] exI [of _ xp])
         (use s' rbto_root [OF s'(2)] in \<open>auto dest: arg_cong [of _ _ inord]\<close>)
  qed
qed

lemma erase_step_left:
  assumes t: "rbto s0 xs s (plug (SL cp p u # k) t)"
    and inv: "era_inv (SL cp p u # k) t" and b: "colr t = RB_BLACK"
  shows "\<exists>s' k' t' xp'. erase_fix_left s p xp = (s', rp t', xp') \<and> t' \<noteq> Lf \<and>
    rbto s0 xs s' (plug k' t') \<and> era_inv k' t' \<and> era_meas k' t' < era_meas (SL cp p u # k) t"
proof (cases u)
  case Lf
  with inv show ?thesis by (simp add: era_inv_def)
next
  case (Nd cw wl w wr)
  have t1: "rbto s0 xs s (plug k (Nd cp t p (Nd cw wl w wr)))" using t Nd by simp
  show ?thesis
  proof (cases cw)
    case RB_BLACK
    have "right s p = w" "color s w = RB_BLACK"
      using rbto_reads [OF t1] rbto_reads(5) [of s0 xs s "SR cp t p # k" cw wl w wr] t1 RB_BLACK
      by simp_all
    then have "erase_fix_left s p xp = erase_black_left s p w xp"
      by (simp add: erase_fix_left_def)
    with erase_black_step [of s0 xs s k cp t p wl w wr xp] t1 inv b RB_BLACK Nd
    show ?thesis by (fastforce simp: era_meas_def)
  next
    case RB_RED
    have cp: "cp = RB_BLACK" using inv Nd RB_RED by (cases cp) (auto simp: era_inv_def)
    obtain s1 where s1: "erase_fix_left s p xp = erase_black_left s1 p (rp wl) xp"
      "rbto s0 xs s1 (plug (SL RB_BLACK w wr # k) (Nd RB_RED t p wl))"
      using erase_rotate_red [of s0 xs s k t p wl w wr xp] t1 cp RB_RED by blast
    obtain vl v vr where v: "wl = Nd RB_BLACK vl v vr"
      using inv Nd RB_RED cp by (cases wl) (auto simp: era_inv_def)
    have "era_inv (SL RB_RED p (Nd RB_BLACK vl v vr) # SL RB_BLACK w wr # k) t"
      using inv Nd RB_RED cp v by (cases "k = []") (auto simp: era_inv_def)
    from erase_black_step [OF _ this b] s1 v
    show ?thesis by (fastforce simp: era_meas_def b)
  qed
qed

lemma black_or_null_mirs [simp]: "black_or_null (mirs s) n = black_or_null s n"
  by (simp add: black_or_null_def)

lemma erase_black_mirs:
  "erase_black_left (mirs s) p w xp = map_prod mirs id (erase_black_right s p w xp)"
  by (simp add: erase_black_left_def erase_black_right_def Let_def conj_commute)

lemma erase_fix_mirs:
  "erase_fix_left (mirs s) p xp = map_prod mirs id (erase_fix_right s p xp)"
  by (simp add: erase_fix_left_def erase_fix_right_def Let_def erase_black_mirs)

lemma erase_step_right:
  assumes t: "rbto s0 xs s (plug (SR cp u p # k) t)"
    and inv: "era_inv (SR cp u p # k) t" and b: "colr t = RB_BLACK"
  shows "\<exists>s' k' t' xp'. erase_fix_right s p xp = (s', rp t', xp') \<and> t' \<noteq> Lf \<and>
    rbto s0 xs s' (plug k' t') \<and> era_inv k' t' \<and> era_meas k' t' < era_meas (SR cp u p # k) t"
proof -
  have "rbto (mirs s0) (rev xs) (mirs s) (plug (SL cp p (mirt u) # mirk k) (mirt t))"
    using t rbto_mirs [of s0 xs s] plug_mirt [of "SR cp u p # k" t] by simp
  moreover have "era_inv (SL cp p (mirt u) # mirk k) (mirt t)"
    using inv era_inv_mirs [of "SR cp u p # k" t] by simp
  ultimately obtain s' k' t' xp' where
    s': "erase_fix_left (mirs s) p xp = (s', rp t', xp')" "t' \<noteq> Lf"
      "rbto (mirs s0) (rev xs) s' (plug k' t')" "era_inv k' t'"
      "era_meas k' t' < era_meas (SL cp p (mirt u) # mirk k) (mirt t)"
    using erase_step_left [of "mirs s0" "rev xs" "mirs s" cp p "mirt u" "mirk k" "mirt t" xp] b
    by auto
  have 1: "erase_fix_right s p xp = (mirs s', rp t', xp')"
    using s'(1) by (cases "erase_fix_right s p xp") (auto simp: erase_fix_mirs)
  have 2: "rbto s0 xs (mirs s') (plug (mirk k') (mirt t'))"
    using s'(3) rbto_mirs [of s0 xs "mirs s'" "mirt (plug k' t')"] plug_mirt [of k' t'] by simp
  have 3: "era_inv (mirk k') (mirt t')" "mirt t' \<noteq> Lf"
    using s'(2,4) era_inv_mirs by (auto dest: arg_cong [of _ _ mirt])
  show ?thesis
    by (intro exI [of _ "mirs s'"] exI [of _ "mirk k'"] exI [of _ "mirt t'"] exI [of _ xp'])
       (use 1 2 3 s'(5) in \<open>auto simp: era_meas_def\<close>)
qed

section \<open>The fixup loop\<close>

lemma erase_loop_ok:
  assumes "rbto s0 xs s (plug k t)" "era_inv k t" "t = Lf \<Longrightarrow> xp = kp k"
  shows "\<exists>s' k' t'. erase_loop s (rp t) xp = Some (s', rp t') \<and> rbto s0 xs s' (plug k' t') \<and>
    era_inv k' t' \<and> (k' = [] \<or> colr t' = RB_RED)"
  using assms
proof (induction "era_meas k t" arbitrary: k t s xp rule: less_induct)
  case less
  note black = rbto_black [OF less.prems(1)]
  show ?case
  proof (cases "k = [] \<or> colr t = RB_RED")
    case True
    then have "\<not> (rp t \<noteq> root s \<and> black_or_null s (rp t))"
      using black rbto_root [OF less.prems(1)] by auto
    then have "erase_loop s (rp t) xp = Some (s, rp t)"
      by (subst erase_loop.simps) (simp only: if_False)
    with less.prems True show ?thesis by blast
  next
    case False
    then have b: "colr t = RB_BLACK" and k: "k \<noteq> []" by auto
    have r: "rbrep s (plug k t)" using less.prems(1) by (simp add: rbto_def)
    have "sp (last k) \<in> set (kl k) \<union> set (kr k)"
      using k by (induction k rule: kl.induct) auto
    then have "rp t \<noteq> sp (last k)"
      using r repk_nonnull [of "parent s" "left s" "right s" "color s" k "rp t" "sp (last k)"]
      by (cases t) (auto simp: rbrep_plug)
    then have nr: "rp t \<noteq> root s" using rbto_root [OF less.prems(1)] k by (simp add: rp_plug)
    have p: "(if rp t \<noteq> 0 then parent s (rp t) else xp) = kp k" and kp: "kp k \<noteq> 0"
      using r k less.prems(3) by (cases t; cases k rule: kl.cases; auto simp: rbrep_plug)+
    show ?thesis
    proof (cases k rule: kl.cases)
      case 1
      with k show ?thesis by simp
    next
      case (2 c a u k1)
      have "left s a = rp t" using r 2 by (auto simp: rbrep_plug)
      obtain s' k' t' xp' where n: "erase_fix_left s a xp = (s', rp t', xp')" "t' \<noteq> Lf"
        "rbto s0 xs s' (plug k' t')" "era_inv k' t'" "era_meas k' t' < era_meas k t"
        using erase_step_left [of s0 xs s c a u k1 t xp] less.prems 2 b by blast
      have "erase_loop s (rp t) xp = erase_loop s' (rp t') xp'"
        by (subst erase_loop.simps) (use nr b black p kp n(1) \<open>left s a = rp t\<close> 2 in simp)
      then show ?thesis using less.hyps [OF n(5,3,4)] n(2) by simp
    next
      case (3 c u a k1)
      then have "u \<noteq> Lf" using less.prems(2) by (auto simp: era_inv_def)
      then have l: "rp t \<noteq> left s a"
        using r 3 by (cases t; cases u) (auto simp: rbrep_plug)
      obtain s' k' t' xp' where n: "erase_fix_right s a xp = (s', rp t', xp')" "t' \<noteq> Lf"
        "rbto s0 xs s' (plug k' t')" "era_inv k' t'" "era_meas k' t' < era_meas k t"
        using erase_step_right [of s0 xs s c u a k1 t xp] less.prems 3 b by blast
      have "erase_loop s (rp t) xp = erase_loop s' (rp t') xp'"
        by (subst erase_loop.simps) (use nr b black p kp n(1) l 3 in simp)
      then show ?thesis using less.hyps [OF n(5,3,4)] n(2) by simp
    qed
  qed
qed

lemma erase_fixup_ok:
  assumes "rbto s0 xs s (plug k t)" "era_inv k t" "t = Lf \<Longrightarrow> xp = kp k"
  shows "\<exists>s' T. erase_fixup s (rp t) xp = Some s' \<and> rbto s0 xs s' T \<and> rbt T"
proof -
  obtain s1 k1 t1 where 1: "erase_loop s (rp t) xp = Some (s1, rp t1)" "rbto s0 xs s1 (plug k1 t1)"
    "era_inv k1 t1" "k1 = [] \<or> colr t1 = RB_RED"
    using erase_loop_ok [OF assms] by blast
  show ?thesis
  proof (cases t1)
    case Lf
    with 1 show ?thesis by (auto simp: erase_fixup_def rbt_def)
  next
    case (Nd c l a r)
    have "rbto s0 xs (set_color s1 a RB_BLACK) (plug k1 (Nd RB_BLACK l a r))"
      using rbto_set_color 1(2) Nd by blast
    moreover have "a \<noteq> 0" using rbto_reads(1) 1(2) Nd by blast
    moreover have "rbt (plug k1 (Nd RB_BLACK l a r))"
      using 1(3,4) Nd by (auto simp: rbt_def era_inv_def invc_plug invh_plug colr_plug)
    ultimately show ?thesis using 1(1) Nd by (auto simp: erase_fixup_def)
  qed
qed

section \<open>Taking the node out of the tree\<close>

lemma transplant_sel [simp]:
  "root (transplant s u v) = (if parent s u = 0 then v else root s)"
  "left (transplant s u v) =
     (if parent s u \<noteq> 0 \<and> u = left s (parent s u) then (left s)(parent s u := v) else left s)"
  "right (transplant s u v) =
     (if parent s u \<noteq> 0 \<and> u \<noteq> left s (parent s u) then (right s)(parent s u := v) else right s)"
  "parent (transplant s u v) = (if v = 0 then parent s else (parent s)(v := parent s u))"
  "color (transplant s u v) = color s" "rb_state.more (transplant s u v) = rb_state.more s"
  by (simp_all add: transplant_def Let_def)

lemma transplant_child:
  assumes r: "rbrep s (plug k (Nd c l z r))" and t: "t = l \<or> t = r"
  shows "rbto s (kl k @ inord t @ kr k) (transplant s z (rp t)) (plug k t)"
proof -
  have rt: "rep (parent s) (left s) (right s) (color s) z t" "distinct (kl k @ inord t @ kr k)"
    "z \<notin> set (kl k) \<union> set (inord t) \<union> set (kr k)" "z \<noteq> 0" "parent s z = kp k"
    using r t by (auto simp: rbrep_plug)
  have k: "repk (parent s) (left s) (right s) (color s) k z" "root s = rp (plug k (Nd c l z r))"
    using r by (simp_all add: rbrep_plug rp_plug)
  have "rbrep (transplant s z (rp t)) (plug k t)"
  proof (cases k rule: kl.cases)
    case 1
    with rt k show ?thesis by (cases t) (simp_all add: rbrep_def frame_simps)
  next
    case (2 c' a r' k')
    with rt k show ?thesis by (cases t) (simp_all add: rbrep_plug rp_plug frame_simps)
  next
    case (3 c' l' a k')
    then have "z \<noteq> rp l'" using rt by (cases l') auto
    with rt k 3 show ?thesis by (cases t) (simp_all add: rbrep_plug rp_plug frame_simps)
  qed
  moreover have "rb_frame (set (kl k @ inord t @ kr k)) s (transplant s z (rp t))"
    using rt kp_in [of k] by (cases t) (auto simp: rb_frame_def)
  ultimately show ?thesis by (simp add: rbto_def)
qed


text \<open>The node \<open>y\<close>, outside the tree, takes over the place, the children and the colour of \<open>z\<close>.\<close>

lemma replace_node:
  assumes r: "rbrep s (plug k (Nd c l z r))" and n: "l \<noteq> Lf" "r \<noteq> Lf"
    and y: "y \<noteq> 0" "y \<notin> set (inord (plug k (Nd c l z r)))"
    and s1: "s1 = s\<lparr>right := (right s)(y := right s z),
                   parent := (parent s)(right s z := y)\<rparr>"
    and s2: "s2 = transplant s1 z y"
    and s3: "s3 = s2\<lparr>left := (left s2)(y := left s2 z),
                    parent := (parent s2)(left s2 z := y), color := (color s2)(y := color s2 z)\<rparr>"
  shows "rbto s (kl k @ inord l @ y # inord r @ kr k) s3 (plug k (Nd c l y r))"
proof -
  obtain cl ll a rl where l: "l = Nd cl ll a rl" using n(1) by (cases l) auto
  obtain cr lr b rr where rr: "r = Nd cr lr b rr" using n(2) by (cases r) auto
  have rd: "right s z = b" "left s z = a" "color s z = c" "parent s z = kp k"
    using rbrep_reads [OF r] l rr by simp_all
  have zb: "z \<noteq> b" "z \<noteq> 0" "z \<noteq> y" "b \<noteq> y" "a \<noteq> y" "b \<noteq> a" "b \<noteq> z" "a \<noteq> z"
    using r y by (auto simp: rbrep_plug l rr)
  have "set [a, b, z, y] \<inter> (set (kl k) \<union> set (kr k)) = {}" "a \<noteq> 0" "b \<noteq> 0"
    using r y(2) by (auto simp: rbrep_plug l rr)
  then have kz: "kp k \<noteq> a" "kp k \<noteq> b" "kp k \<noteq> y" "kp k \<noteq> z" "a \<noteq> kp k" "b \<noteq> kp k" "y \<noteq> kp k"
    using kp_in [of k] zb y(1) by auto
  have f1: "root s1 = root s" "left s1 = left s" "right s1 = (right s)(y := b)"
    "parent s1 = (parent s)(b := y)" "color s1 = color s" "rb_state.more s1 = rb_state.more s"
    "parent s1 z = kp k"
    using rd zb by (simp_all add: s1)
  have f2: "root s2 = (if kp k = 0 then y else root s)"
    "left s2 = (if kp k \<noteq> 0 \<and> z = left s (kp k) then (left s)(kp k := y) else left s)"
    "right s2 = (if kp k \<noteq> 0 \<and> z \<noteq> left s (kp k) then (right s)(y := b, kp k := y)
                 else (right s)(y := b))"
    "parent s2 = (parent s)(b := y, y := kp k)" "color s2 = color s"
    "rb_state.more s2 = rb_state.more s"
    unfolding s2 transplant_sel f1(7) using y(1) by (simp_all only: f1 if_False)
  have "left s2 z = a" unfolding f2 using kz(4) rd(2) by auto
  then have f: "root s3 = (if kp k = 0 then y else root s)"
    "left s3 = (if kp k \<noteq> 0 \<and> z = left s (kp k) then (left s)(kp k := y) else left s)(y := a)"
    "right s3 = (if kp k \<noteq> 0 \<and> z \<noteq> left s (kp k) then (right s)(y := b, kp k := y)
                 else (right s)(y := b))"
    "parent s3 = (parent s)(b := y, y := kp k, a := y)" "color s3 = (color s)(y := c)"
    "rb_state.more s3 = rb_state.more s"
    using rd(3) by (simp_all add: s3 f2)
  have "rbrep s3 (plug k (Nd c l y r))"
  proof (cases k rule: kl.cases)
    case 1
    then show ?thesis
      using r y rd zb by (simp add: rbrep_def f l rr frame_simps)
  next
    case (2 c' p r' k')
    then show ?thesis
      using r y rd zb kz by (simp add: rbrep_plug f l rr frame_simps)
  next
    case (3 c' l' p k')
    then have "z \<noteq> rp l'" using r by (cases l') (auto simp: rbrep_plug)
    then show ?thesis
      using r y rd zb kz 3 by (simp add: rbrep_plug f l rr frame_simps)
  qed
  moreover have "rb_frame (set (kl k @ inord l @ y # inord r @ kr k)) s s3"
    using kp_in [of k] by (simp add: rb_frame_def f l rr) blast
  ultimately show ?thesis by (simp add: rbto_def)
qed

lemma replace_node_adjacent:
  assumes r: "rbrep s (plug k (Nd c l z (Nd cy Lf y yr)))" and n: "l \<noteq> Lf"
    and s2: "s2 = transplant s z y"
    and s3: "s3 = s2\<lparr>left := (left s2)(y := left s2 z),
                    parent := (parent s2)(left s2 z := y), color := (color s2)(y := color s2 z)\<rparr>"
  shows "rbto s (kl k @ inord l @ y # inord yr @ kr k) s3 (plug k (Nd c l y yr))"
proof -
  obtain cl ll a rl where l: "l = Nd cl ll a rl" using n by (cases l) auto
  have rd: "right s z = y" "left s z = a" "color s z = c" "parent s z = kp k"
    using rbrep_reads [OF r] l by simp_all
  have zb: "z \<noteq> y" "a \<noteq> y" "y \<noteq> a" "a \<noteq> z" "y \<noteq> 0" "z \<noteq> 0"
    using r by (auto simp: rbrep_plug l)
  have "set [a, z, y] \<inter> (set (kl k) \<union> set (kr k)) = {}" "a \<noteq> 0"
    using r by (auto simp: rbrep_plug l)
  then have kz: "kp k \<noteq> a" "kp k \<noteq> y" "kp k \<noteq> z" "a \<noteq> kp k" "y \<noteq> kp k"
    using kp_in [of k] zb by auto
  have f2: "root s2 = (if kp k = 0 then y else root s)"
    "left s2 = (if kp k \<noteq> 0 \<and> z = left s (kp k) then (left s)(kp k := y) else left s)"
    "right s2 = (if kp k \<noteq> 0 \<and> z \<noteq> left s (kp k) then (right s)(kp k := y) else right s)"
    "parent s2 = (parent s)(y := kp k)" "color s2 = color s"
    "rb_state.more s2 = rb_state.more s"
    unfolding s2 transplant_sel rd(4) using zb(5) by (simp_all only: if_False)
  have "left s2 z = a" unfolding f2 using kz(3) rd(2) by auto
  then have f: "root s3 = (if kp k = 0 then y else root s)"
    "left s3 = (if kp k \<noteq> 0 \<and> z = left s (kp k) then (left s)(kp k := y) else left s)(y := a)"
    "right s3 = (if kp k \<noteq> 0 \<and> z \<noteq> left s (kp k) then (right s)(kp k := y) else right s)"
    "parent s3 = (parent s)(y := kp k, a := y)" "color s3 = (color s)(y := c)"
    "rb_state.more s3 = rb_state.more s"
    using rd(3) by (simp_all add: s3 f2)
  have "rbrep s3 (plug k (Nd c l y yr))"
  proof (cases k rule: kl.cases)
    case 1
    then show ?thesis
      using r rd zb by (simp add: rbrep_def f l frame_simps)
  next
    case (2 c' p r' k')
    then show ?thesis
      using r rd zb kz by (simp add: rbrep_plug f l frame_simps)
  next
    case (3 c' l' p k')
    then have "z \<noteq> rp l'" using r by (cases l') (auto simp: rbrep_plug)
    then show ?thesis
      using r rd zb kz 3 by (simp add: rbrep_plug f l frame_simps)
  qed
  moreover have "rb_frame (set (kl k @ inord l @ y # inord yr @ kr k)) s s3"
    using kp_in [of k] by (simp add: rb_frame_def f l) blast
  ultimately show ?thesis by (simp add: rbto_def)
qed


section \<open>Erasure as a whole\<close>

lemma era_inv_of_rbt:
  assumes "rbt (plug k (Nd RB_BLACK l z r))" "l = Lf \<and> t = r \<or> r = Lf \<and> t = l"
  shows "era_inv k t"
  using assms by (auto simp: rbt_def era_inv_def invc_plug invh_plug colr_plug)

lemma rbt_of_rbt_red:
  assumes "rbt (plug k (Nd RB_RED l z r))" "l = Lf \<and> t = r \<or> r = Lf \<and> t = l"
  shows "rbt (plug k t)"
  using assms by (auto simp: rbt_def invc_plug invh_plug colr_plug split: if_splits)

lemma leftmost_path: "t \<noteq> Lf \<Longrightarrow> \<exists>j c y r. t = plug j (Nd c Lf y r) \<and> kl j = []"
proof (induction t)
  case Lf
  then show ?case by simp
next
  case (Nd c l a r)
  show ?case
  proof (cases "l = Lf")
    case True
    then have "Nd c l a r = plug [] (Nd c Lf a r) \<and> kl [] = []" by simp
    then show ?thesis by blast
  next
    case False
    then obtain j c' y r' where "l = plug j (Nd c' Lf y r')" "kl j = []" using Nd.IH by blast
    then have "Nd c l a r = plug (j @ [SL c a r]) (Nd c' Lf y r') \<and> kl (j @ [SL c a r]) = []"
      by (simp add: plug_append)
    then show ?thesis by blast
  qed
qed

lemma rbt_plug_cong:
  assumes "kinvc k = kinvc k'" "\<And>n. kinvh k n = kinvh k' n" "kcol k = kcol k'"
    and "k = [] \<longleftrightarrow> k' = []" "k \<noteq> [] \<Longrightarrow> scol (last k) = scol (last k')"
  shows "rbt (plug k t) = rbt (plug k' t)"
  using assms by (cases "k = []") (simp_all add: rbt_def invc_plug invh_plug colr_plug)

lemma rb_erase_finish:
  assumes "rb_erase_splice s z = Some (s1, c, rp t, xp)" "rbto s ws s1 (plug k t)"
    and "rbt (plug k' (Nd c l' z' r'))" "l' = Lf \<and> t = r' \<or> r' = Lf \<and> t = l'"
    and "kinvc k = kinvc k'" "\<And>n. kinvh k n = kinvh k' n" "map scol k = map scol k'"
    and "t = Lf \<Longrightarrow> xp = kp k"
  shows "\<exists>s' T. rb_erase s z = Some s' \<and> rbto s ws s' T \<and> rbt T"
proof -
  have kc: "kcol k = kcol k'" using assms(7) by (cases k; cases k') auto
  have ke: "k = [] \<longleftrightarrow> k' = []" using assms(7) by (metis map_is_Nil_conv)
  have kl: "scol (last k) = scol (last k')" if "k \<noteq> []"
    using assms(7) that by (metis last_map map_is_Nil_conv)
  show ?thesis
  proof (cases c)
    case RB_BLACK
    then have "era_inv k t"
      using era_inv_of_rbt [of k' l' z' r' t] assms(3-6) ke kl by (auto simp: era_inv_def)
    with erase_fixup_ok [OF assms(2) _ assms(8)] assms(1) RB_BLACK show ?thesis
      by (simp add: rb_erase_def)
  next
    case RB_RED
    then have "rbt (plug k t)"
      using rbt_of_rbt_red [of k' l' z' r' t] assms(3,4) rbt_plug_cong [OF assms(5,6) kc ke kl]
      by simp
    with assms(1,2) RB_RED show ?thesis by (auto simp: rb_erase_def)
  qed
qed


lemma kinv_rename:
  "kinvc (j @ SR c l y # k) = kinvc (j @ SR c l z # k)"
  "kinvh (j @ SR c l y # k) n = kinvh (j @ SR c l z # k) n"
proof -
  have "kcol (j @ SR c l y # k) = kcol (j @ SR c l z # k)" for j by (cases j) auto
  then show "kinvc (j @ SR c l y # k) = kinvc (j @ SR c l z # k)"
    by (induction j rule: kl.induct) auto
  show "kinvh (j @ SR c l y # k) n = kinvh (j @ SR c l z # k) n"
    by (induction j n rule: kinvh.induct) auto
qed

lemma rb_erase_one_child:
  assumes r: "rbrep s (plug k (Nd c l z r))" and b: "rbt (plug k (Nd c l z r))"
    and e: "l = Lf \<and> t = r \<or> r = Lf \<and> t = l"
  shows "\<exists>s' T. rb_erase s z = Some s' \<and> rbto s (kl k @ inord t @ kr k) s' T \<and> rbt T"
proof (rule rb_erase_finish [where k = k and k' = k and t = t])
  have "l = rtree.Lf \<longleftrightarrow> rp l = 0" "r = rtree.Lf \<longleftrightarrow> rp r = 0"
    using r by (auto simp: rbrep_plug rp_eq_0)
  then show "rb_erase_splice s z = Some (transplant s z (rp t), c, rp t, kp k)"
    using rbrep_reads [OF r] e by (auto simp: rb_erase_splice_def)
  show "rbto s (kl k @ inord t @ kr k) (transplant s z (rp t)) (plug k t)"
    using transplant_child [OF r] e by blast
qed (use b e in auto)


lemma rb_erase_two_adjacent:
  assumes r: "rbrep s (plug k (Nd c l z (Nd cy Lf y yr)))" and n: "l \<noteq> Lf"
  shows "\<exists>s'. rb_erase_two s z y = (s', cy, rp yr, y) \<and>
    rbto s (kl k @ inord l @ y # inord yr @ kr k) s' (plug k (Nd c l y yr))"
proof -
  let ?s2 = "transplant s z y"
  let ?s3 = "?s2\<lparr>left := (left ?s2)(y := left ?s2 z),
                 parent := (parent ?s2)(left ?s2 z := y), color := (color ?s2)(y := color ?s2 z)\<rparr>"
  have "rbrep s (plug (SR c l z # k) (Nd cy Lf y yr))" using r by simp
  from rbrep_reads [OF this] have "rb_erase_two s z y = (?s3, cy, rp yr, y)"
    unfolding rb_erase_two_def by (simp add: Let_def del: transplant_sel)
  with replace_node_adjacent [OF r n refl refl] show ?thesis by blast
qed

lemma rb_erase_two_far:
  assumes r: "rbrep s (plug k (Nd c l z (plug j (Nd cy Lf y yr))))" and n: "l \<noteq> Lf" and j: "j \<noteq> []"
  shows "\<exists>s'. rb_erase_two s z y = (s', cy, rp yr, kp j) \<and>
    rbto s (kl k @ inord l @ y # inord (plug j yr) @ kr k) s' (plug k (Nd c l y (plug j yr)))"
proof -
  let ?s1 = "transplant s y (rp yr)"
  let ?s2 = "?s1\<lparr>right := (right ?s1)(y := right ?s1 z), parent := (parent ?s1)(right ?s1 z := y)\<rparr>"
  let ?s3 = "transplant ?s2 z y"
  let ?s4 = "?s3\<lparr>left := (left ?s3)(y := left ?s3 z),
                 parent := (parent ?s3)(left ?s3 z := y), color := (color ?s3)(y := color ?s3 z)\<rparr>"
  have y: "rbrep s (plug (j @ SR c l z # k) (Nd cy Lf y yr))" using r by (simp add: plug_append)
  note rd = rbrep_reads [OF y]
  have t1: "rbto s (kl (j @ SR c l z # k) @ inord yr @ kr (j @ SR c l z # k)) ?s1
      (plug (j @ SR c l z # k) yr)"
    by (rule transplant_child [OF y]) simp
  then have r1: "rbrep ?s1 (plug k (Nd c l z (plug j yr)))" by (simp add: rbto_def plug_append)
  have ny: "y \<notin> set (inord (plug k (Nd c l z (plug j yr))))" "y \<noteq> 0" "z \<notin> set (kl j) \<union> set (kr j)"
    using r rd(1) by (auto simp: rbrep_plug)
  have nj: "plug j yr \<noteq> Lf" using j by (cases j rule: kl.cases) (auto dest: arg_cong [of _ _ inord])
  have t2: "rbto ?s1 (kl k @ inord l @ y # inord (plug j yr) @ kr k) ?s4
      (plug k (Nd c l y (plug j yr)))"
    by (rule replace_node [OF r1 n nj ny(2,1) refl refl refl])
  have kj: "kp (j @ SR c l z # k) = kp j" "kp j \<in> set (kl j) \<union> set (kr j)"
    using j by (cases j rule: kl.cases; simp)+
  then have "rb_frame (set (kl k @ inord l @ y # inord (plug j yr) @ kr k)) s ?s1"
    using rd(2) by (cases yr) (auto simp: rb_frame_def)
  with t2 have t3: "rbto s (kl k @ inord l @ y # inord (plug j yr) @ kr k) ?s4
      (plug k (Nd c l y (plug j yr)))"
    unfolding rbto_def by (blast intro: rb_frame_trans)
  have "right ?s1 z = rp (plug j yr)" using rbrep_reads(4) [OF r1] .
  moreover have "rp (plug j yr) \<in> set (inord (plug j yr))" by (rule rp_in [OF nj])
  ultimately have "right ?s1 z \<noteq> y" using ny(1) by auto
  moreover have "rp yr \<noteq> y" using ny(1,2) rp_in [of yr] by (cases "yr = Lf") auto
  ultimately have "parent ?s2 y = kp j" using rd(2) kj(1) by simp
  moreover have "rb_erase_two s z y = (?s4, cy, rp yr, parent ?s2 y)"
    using rd kj ny(3) unfolding rb_erase_two_def by (auto simp: Let_def simp del: transplant_sel)
  ultimately show ?thesis using t3 by metis
qed


lemma rb_erase_two_children:
  assumes r: "rbrep s (plug k (Nd c l z r))" and b: "rbt (plug k (Nd c l z r))"
    and n: "l \<noteq> Lf" "r \<noteq> Lf"
  shows "\<exists>s' T. rb_erase s z = Some s' \<and> rbto s (kl k @ inord l @ inord r @ kr k) s' T \<and> rbt T"
proof -
  obtain j cy y yr where j: "r = plug j (Nd cy Lf y yr)" "kl j = []"
    using leftmost_path [OF n(2)] by blast
  have rr: "rep (parent s) (left s) (right s) (color s) z r" "left s z \<noteq> 0" "right s z = rp r" "rp r \<noteq> 0"
    using r n by (auto simp: rbrep_plug rp_eq_0)
  have sp: "rb_erase_splice s z = Some (rb_erase_two s z y)"
    using rb_min_rep [OF rr(1)] rr j by (simp add: rb_erase_splice_def)
  have by': "rbt (plug (j @ SR c l z # k) (Nd cy Lf y yr))"
    using b j by (simp add: plug_append)
  obtain s1 xp where s1: "rb_erase_two s z y = (s1, cy, rp yr, xp)" "xp = kp (j @ SR c l y # k)"
    "rbto s (kl k @ inord l @ inord r @ kr k) s1 (plug (j @ SR c l y # k) yr)"
  proof (cases "j = []")
    case True
    with rb_erase_two_adjacent [of s k c l z cy y yr] r n(1) j that show ?thesis by auto
  next
    case False
    moreover from this have "kp (j @ SR c l y # k) = kp j" by (cases j) auto
    ultimately show ?thesis
      using rb_erase_two_far [of s k c l z j cy y yr] r n(1) j that by (auto simp: plug_append)
  qed
  show ?thesis
    by (rule rb_erase_finish [OF _ s1(3) by']) (use sp s1 kinv_rename in auto)
qed

text \<open>
  \<^verbatim>\<open>rb_erase\<close> returns on every red-black tree that holds \<open>z\<close>, takes \<open>z\<close> out of the sequence of
  nodes, keeps the red-black invariants and writes to no node outside the remaining tree.
\<close>

lemma rb_erase_ok:
  assumes r: "rbrep s t" and b: "rbt t" and z: "inord t = xs @ z # ys"
  shows "\<exists>s' t'. rb_erase s z = Some s' \<and> rbrep s' t' \<and> rbt t' \<and> inord t' = xs @ ys \<and>
    rb_frame (set (xs @ ys)) s s'"
proof -
  have "z \<in> set (inord t)" using z by simp
  then obtain k c l r' where t: "t = plug k (Nd c l z r')" using in_tree_plug by blast
  have "distinct (inord t)" using r by (simp add: rbrep_def)
  then have "z \<notin> set xs" "z \<notin> set ys" using z by auto
  then have e: "xs = kl k @ inord l \<and> ys = inord r' @ kr k"
    using z append_Cons_eq_iff [of z xs ys "kl k @ inord l" "inord r' @ kr k"] by (simp add: t)
  consider "l = Lf" | "r' = Lf" | "l \<noteq> Lf" "r' \<noteq> Lf" by blast
  then have "\<exists>s' T. rb_erase s z = Some s' \<and> rbto s (xs @ ys) s' T \<and> rbt T"
  proof cases
    case 1
    then show ?thesis using rb_erase_one_child [of s k c l z r' r'] r b e by (simp add: t)
  next
    case 2
    then show ?thesis using rb_erase_one_child [of s k c l z r' l] r b e by (simp add: t)
  next
    case 3
    then show ?thesis using rb_erase_two_children [of s k c l z r'] r b e by (simp add: t)
  qed
  then show ?thesis by (auto simp: rbto_def)
qed


section \<open>The tree as a sequence of nodes\<close>

text \<open>
  What the clients of the tree see: a sequence of distinct non-null nodes that can be walked
  from its head, and from which a node can be taken. \<open>payload\<close> is the rest of the caller's
  structure, which the tree never touches.
\<close>

locale node_sequence =
  fixes seq :: "'s \<Rightarrow> ptr list \<Rightarrow> bool"
    and first :: "'s \<Rightarrow> ptr option"
    and nxt :: "'s \<Rightarrow> ptr \<Rightarrow> ptr option"
    and erase :: "'s \<Rightarrow> ptr \<Rightarrow> 's option"
    and payload :: "'s \<Rightarrow> 'p"
  assumes seq_nodes: "seq s xs \<Longrightarrow> distinct xs \<and> 0 \<notin> set xs"
    and seq_first: "seq s xs \<Longrightarrow> first s = Some (first_or_null xs)"
    and seq_next: "seq s (xs @ a # ys) \<Longrightarrow> nxt s a = Some (first_or_null ys)"
    and seq_erase: "seq s (xs @ a # ys) \<Longrightarrow>
      \<exists>s'. erase s a = Some s' \<and> seq s' (xs @ ys) \<and> payload s' = payload s"
begin

text \<open>Two sequences of one state are equal: the walk from the head determines it.\<close>

lemma seq_suffix_unique:
  "seq s (xs @ ys) \<Longrightarrow> seq s (xs' @ ys') \<Longrightarrow> first_or_null ys = first_or_null ys' \<Longrightarrow> ys = ys'"
proof (induction ys arbitrary: xs xs' ys')
  case Nil
  then show ?case using seq_nodes [of s "xs' @ ys'"] by (cases ys') auto
next
  case (Cons y ys)
  then obtain zs where ys': "ys' = y # zs"
    using seq_nodes [of s "xs @ y # ys"] by (cases ys') auto
  have "first_or_null ys = first_or_null zs"
    using seq_next [OF Cons.prems(1)] seq_next [of s xs' y zs] Cons.prems(2) ys' by simp
  then have "ys = zs"
    using Cons.IH [of "xs @ [y]" "xs' @ [y]" zs] Cons.prems ys' by simp
  then show ?case using ys' by simp
qed

lemma seq_unique: "seq s xs \<Longrightarrow> seq s ys \<Longrightarrow> xs = ys"
  using seq_suffix_unique [of s "[]" xs "[]" ys] seq_first [of s xs] seq_first [of s ys] by simp

end

definition rb_seq :: "'a rb_state_scheme \<Rightarrow> ptr list \<Rightarrow> bool" where
  "rb_seq s xs \<longleftrightarrow> (\<exists>t. rbrep s t \<and> rbt t \<and> inord t = xs)"

interpretation rbs: node_sequence rb_seq rb_first rb_next rb_erase rb_state.more
proof
  fix s :: "'a rb_state_scheme" and xs ys :: "ptr list" and a :: ptr
  show "distinct xs \<and> 0 \<notin> set xs" if "rb_seq s xs"
    using that rep_nonnull by (fastforce simp: rb_seq_def rbrep_def)
  show "rb_first s = Some (first_or_null xs)" if "rb_seq s xs"
    using that rb_first_rep by (auto simp: rb_seq_def)
  show "rb_next s a = Some (first_or_null ys)" if "rb_seq s (xs @ a # ys)"
    using that rb_next_rep by (fastforce simp: rb_seq_def)
  show "\<exists>s'. rb_erase s a = Some s' \<and> rb_seq s' (xs @ ys) \<and> rb_state.more s' = rb_state.more s"
    if "rb_seq s (xs @ a # ys)"
    using that rb_erase_ok unfolding rb_seq_def rb_frame_def by metis
qed

lemma rb_seq_empty: "root s = 0 \<Longrightarrow> rb_seq s []"
  unfolding rb_seq_def by (rule exI [of _ Lf]) (simp add: rbrep_def rbt_def)

section \<open>Properties of the tree\<close>

fun height :: "rtree \<Rightarrow> nat" where
  "height Lf = 0"
| "height (Nd c l a r) = Suc (max (height l) (height r))"

text \<open>A tree of three nodes on which the properties are applied.\<close>

definition rb_sample :: rb_state where
  "rb_sample = \<lparr>root = 2, parent = (\<lambda>_. 0)(1 := 2, 3 := 2), left = (\<lambda>_. 0)(2 := 1),
     right = (\<lambda>_. 0)(2 := 3), color = (\<lambda>_. RB_RED)(2 := RB_BLACK)\<rparr>"

definition rb_sample_tree :: rtree where
  "rb_sample_tree = Nd RB_BLACK (Nd RB_RED Lf 1 Lf) 2 (Nd RB_RED Lf 3 Lf)"

lemma rb_sample_rep: "rbrep rb_sample rb_sample_tree" "rbt rb_sample_tree" "inord rb_sample_tree = [1, 2, 3]"
  by (simp_all add: rbrep_def rb_sample_def rb_sample_tree_def rbt_def)

lemma rb_sample_seq: "rb_seq rb_sample ([1] @ 2 # [3])" "rb_seq rb_sample [1, 2, 3]"
  unfolding rb_seq_def using rb_sample_rep by auto

lemma bh_height: "invc t \<Longrightarrow> invh t \<Longrightarrow> height t \<le> 2 * bh t + (if colr t = RB_RED then 1 else 0)"
  by (induction t) (auto split: if_splits)

lemma bh_size: "invh t \<Longrightarrow> 2 ^ bh t \<le> length (inord t) + 1"
  by (induction t) (auto simp: algebra_simps)

lemma rbt_height: "rbt t \<Longrightarrow> 2 ^ (height t div 2) \<le> length (inord t) + 1"
proof -
  assume t: "rbt t"
  then have "height t \<le> 2 * bh t" using bh_height [of t] by (auto simp: rbt_def)
  then have "height t div 2 \<le> bh t" by simp
  then have "(2 :: nat) ^ (height t div 2) \<le> 2 ^ bh t" by (simp add: power_increasing)
  also have "\<dots> \<le> length (inord t) + 1" using t bh_size [of t] by (simp add: rbt_def)
  finally show ?thesis .
qed

text \<open>
  C1. Linking a new node at any free child slot of a valid tree and rebalancing returns, gives
  a valid red-black tree whose nodes in order are the old ones with the new node at that slot,
  and writes only nodes of the tree and nothing of the structures around them.
\<close>

theorem rb_insert_correct:
  assumes "rbrep s (plug k Lf)" "rbt (plug k Lf)" "v \<noteq> 0" "v \<notin> set (inord (plug k Lf))"
  shows "\<exists>s'. rb_insert_color (rb_link_node s v (kp k) (slot_of k)) v = Some s' \<and>
    rb_seq s' (kl k @ v # kr k) \<and> rb_frame (set (kl k @ v # kr k)) s s'"
  using rb_insert_ok [OF assms] unfolding rb_seq_def by blast

theorem rb_insert_correct_witness:
  "\<exists>s'. rb_insert_color (rb_link_node rb_sample 7 3 (Slot_left 3)) 7 = Some s' \<and>
    rb_seq s' [1, 2, 7, 3] \<and> rb_frame {1, 2, 3, 7} rb_sample s'"
  using rb_insert_correct [of rb_sample
      "[SL RB_RED 3 Lf, SR RB_BLACK (Nd RB_RED Lf 1 Lf) 2]" 7] rb_sample_rep
  by (simp add: rb_sample_tree_def insert_commute)

text \<open>
  C2. Erasing any node of a valid tree returns, gives a valid red-black tree whose nodes in
  order are the others, and writes only nodes that stay in the tree.
\<close>

theorem rb_erase_correct:
  assumes "rb_seq s (xs @ z # ys)"
  shows "\<exists>s'. rb_erase s z = Some s' \<and> rb_seq s' (xs @ ys) \<and> rb_frame (set (xs @ ys)) s s'"
  using assms rb_erase_ok unfolding rb_seq_def by metis

theorem rb_erase_correct_witness:
  "\<exists>s'. rb_erase rb_sample 2 = Some s' \<and> rb_seq s' [1, 3] \<and> rb_frame {1, 3} rb_sample s'"
  using rb_erase_correct [OF rb_sample_seq(1)] by simp

text \<open>
  C27. \<^verbatim>\<open>rb_first\<close> returns the first node of a valid tree and \<^verbatim>\<open>rb_next\<close> the successor of each
  node, \<^verbatim>\<open>NULL\<close> after the last, so that the two enumerate the tree in order; both return, and
  no path of the tree is longer than twice the logarithm of the number of its nodes.
\<close>

theorem rb_iterate_correct:
  assumes "rb_seq s (xs @ a # ys)"
  shows "rb_first s = Some (first_or_null (xs @ [a])) \<and> rb_next s a = Some (first_or_null ys) \<and>
    (\<exists>t. rbrep s t \<and> inord t = xs @ a # ys \<and> 2 ^ (height t div 2) \<le> length (xs @ a # ys) + 1)"
  using rbs.seq_first [OF assms] rbs.seq_next [OF assms] assms rbt_height
  unfolding rb_seq_def by (fastforce simp: first_or_null_append)

theorem rb_iterate_correct_witness:
  "rb_first rb_sample = Some 1 \<and> rb_next rb_sample 2 = Some 3 \<and>
    (\<exists>t. rbrep rb_sample t \<and> inord t = [1, 2, 3] \<and> 2 ^ (height t div 2) \<le> (4 :: nat))"
  using rb_iterate_correct [OF rb_sample_seq(1)] by (simp add: numeral_eq_Suc)

end
