(* ===== verification/Vma.thy ===== *)
theory Vma
  imports Rbtree_Erase
begin

text \<open>
  The per-address-space tree of virtual memory areas, \<^verbatim>\<open>kernel/mm/vma.c\<close>, over the red-black
  tree of \<^verbatim>\<open>kernel/lib/rbtree.c\<close>. A \<^verbatim>\<open>struct vma\<close> embeds its tree node at offset 0, so the
  address of the node is the address of the area and \<^verbatim>\<open>node_to_vma\<close> is the identity (its
  \<^verbatim>\<open>NULL\<close> case included). The allocator and the page-table teardown that the file calls are
  the fields of an operations record; the contract that the proofs need of them is the locale
  \<open>kernel_memory\<close>.
\<close>

section \<open>The code\<close>

record vma_state = rb_state +
  vstart :: "ptr \<Rightarrow> vaddr_t"
  vend :: "ptr \<Rightarrow> vaddr_t"
  vflags :: "ptr \<Rightarrow> u32"

record 'e mm_ops =
  op_kzalloc :: "u64 \<Rightarrow> 'e \<Rightarrow> (ptr \<times> 'e) option"
  op_kfree :: "ptr \<Rightarrow> 'e \<Rightarrow> 'e option"
  op_unmap :: "vaddr_t \<Rightarrow> u64 \<Rightarrow> 'e \<Rightarrow> 'e option"

text \<open>\<^verbatim>\<open>sizeof(struct vma)\<close>: three pointers and a padded colour, two addresses, padded flags.\<close>

definition sizeof_vma :: u64 where "sizeof_vma = 56"

abbreviation set_vstart :: "vma_state \<Rightarrow> ptr \<Rightarrow> vaddr_t \<Rightarrow> vma_state" where
  "set_vstart s v a \<equiv> s\<lparr>vstart := (vstart s)(v := a)\<rparr>"

abbreviation set_vend :: "vma_state \<Rightarrow> ptr \<Rightarrow> vaddr_t \<Rightarrow> vma_state" where
  "set_vend s v a \<equiv> s\<lparr>vend := (vend s)(v := a)\<rparr>"

abbreviation set_vflags :: "vma_state \<Rightarrow> ptr \<Rightarrow> u32 \<Rightarrow> vma_state" where
  "set_vflags s v f \<equiv> s\<lparr>vflags := (vflags s)(v := f)\<rparr>"

text \<open>The bytes \<^verbatim>\<open>kzalloc\<close> clears, read as the fields of a \<^verbatim>\<open>struct vma\<close>.\<close>

definition vma_zero :: "vma_state \<Rightarrow> ptr \<Rightarrow> vma_state" where
  "vma_zero s v =
     s\<lparr>parent := (parent s)(v := NULL), left := (left s)(v := NULL), right := (right s)(v := NULL),
       color := (color s)(v := RB_RED), vstart := (vstart s)(v := 0), vend := (vend s)(v := 0),
       vflags := (vflags s)(v := 0)\<rparr>"

partial_function (option) vma_insert_walk ::
  "vma_state \<Rightarrow> ptr \<Rightarrow> slot \<Rightarrow> ptr \<Rightarrow> (int + slot \<times> ptr) option" where
  "vma_insert_walk s v slot par =
     (let cur = slot_read s slot in
      if cur = NULL then Some (Inr (slot, par))
      else if vend s v \<le> vstart s cur then vma_insert_walk s v (Slot_left cur) cur
      else if vend s cur \<le> vstart s v then vma_insert_walk s v (Slot_right cur) cur
      else Some (Inl (- EEXIST)))"

definition vma_insert :: "vma_state \<Rightarrow> ptr \<Rightarrow> (int \<times> vma_state) option" where
  "vma_insert s v =
     do {
       r \<leftarrow> vma_insert_walk s v Slot_root NULL;
       case r of
         Inl err \<Rightarrow> Some (err, s)
       | Inr (slot, par) \<Rightarrow>
           do {
             s \<leftarrow> rb_insert_color (rb_link_node s v par slot) v;
             Some (0, s)
           }
     }"

partial_function (option) vma_find_walk :: "vma_state \<Rightarrow> vaddr_t \<Rightarrow> ptr \<Rightarrow> ptr option" where
  "vma_find_walk s addr n =
     (if n = NULL then Some NULL
      else if addr < vstart s n then vma_find_walk s addr (left s n)
      else if vend s n \<le> addr then vma_find_walk s addr (right s n)
      else Some n)"

definition vma_find :: "vma_state \<Rightarrow> vaddr_t \<Rightarrow> ptr option" where
  "vma_find s addr = vma_find_walk s addr (root s)"

definition vma_remove :: "vma_state \<Rightarrow> ptr \<Rightarrow> vma_state option" where
  "vma_remove s v = rb_erase s v"

definition vma_first :: "vma_state \<Rightarrow> ptr option" where
  "vma_first s = rb_first s"

definition vma_next :: "vma_state \<Rightarrow> ptr \<Rightarrow> ptr option" where
  "vma_next s v = rb_next s v"

text \<open>
  The part of \<^verbatim>\<open>vma_split_at\<close> after the allocation, with both of its roll-backs. The result is
  the error code, the value stored through \<^verbatim>\<open>out\<close> (\<^verbatim>\<open>NULL\<close> where nothing is stored), the tree
  and the allocator.
\<close>

definition vma_split_commit ::
  "'e mm_ops \<Rightarrow> vma_state \<Rightarrow> 'e \<Rightarrow> ptr \<Rightarrow> vaddr_t \<Rightarrow> ptr \<Rightarrow> (int \<times> ptr \<times> vma_state \<times> 'e) option" where
  "vma_split_commit ops s e vma boundary upper =
     do {
       let original_end = vend s vma;
       s \<leftarrow> vma_remove s vma;
       (err, s) \<leftarrow> vma_insert (set_vend s vma boundary) vma;
       if err \<noteq> 0 then
         do {
           (_, s) \<leftarrow> vma_insert (set_vend s vma original_end) vma;
           e \<leftarrow> op_kfree ops upper e;
           Some (err, NULL, s, e)
         }
       else
         do {
           (err, s) \<leftarrow> vma_insert s upper;
           if err \<noteq> 0 then
             do {
               s \<leftarrow> vma_remove s vma;
               (_, s) \<leftarrow> vma_insert (set_vend s vma original_end) vma;
               e \<leftarrow> op_kfree ops upper e;
               Some (err, NULL, s, e)
             }
           else Some (0, upper, s, e)
         }
     }"

definition vma_split_at ::
  "'e mm_ops \<Rightarrow> vma_state \<Rightarrow> 'e \<Rightarrow> ptr \<Rightarrow> vaddr_t \<Rightarrow> (int \<times> ptr \<times> vma_state \<times> 'e) option" where
  "vma_split_at ops s e vma boundary =
     (if vma = NULL then Some (- EINVAL, NULL, s, e)
      else if boundary \<le> vstart s vma \<or> vend s vma \<le> boundary then Some (- EINVAL, NULL, s, e)
      else if boundary AND PAGE_MASK \<noteq> 0 then Some (- EINVAL, NULL, s, e)
      else do {
        (upper, e) \<leftarrow> op_kzalloc ops sizeof_vma e;
        if upper = NULL then Some (- ENOMEM, NULL, s, e)
        else do {
          let s = vma_zero s upper;
          let s = set_vstart s upper boundary;
          let s = set_vend s upper (vend s vma);
          let s = set_vflags s upper (vflags s vma);
          vma_split_commit ops s e vma boundary upper
        }
      })"

text \<open>\<^verbatim>\<open>vma_remove_range\<close>: the two boundary splits, the search for the first area, the loop.\<close>

definition vma_split_left ::
  "'e mm_ops \<Rightarrow> vma_state \<Rightarrow> 'e \<Rightarrow> vaddr_t \<Rightarrow> (int \<times> vma_state \<times> 'e) option" where
  "vma_split_left ops s e start =
     do {
       v \<leftarrow> vma_find s start;
       if v \<noteq> NULL \<and> vstart s v < start then
         do { (err, _, s, e) \<leftarrow> vma_split_at ops s e v start; Some (err, s, e) }
       else Some (0, s, e)
     }"

definition vma_split_right ::
  "'e mm_ops \<Rightarrow> vma_state \<Rightarrow> 'e \<Rightarrow> vaddr_t \<Rightarrow> (int \<times> vma_state \<times> 'e) option" where
  "vma_split_right ops s e stop =
     do {
       v \<leftarrow> vma_find s (stop - 1);
       if v \<noteq> NULL \<and> stop < vend s v then
         do { (err, _, s, e) \<leftarrow> vma_split_at ops s e v stop; Some (err, s, e) }
       else Some (0, s, e)
     }"

partial_function (option) vma_skip_loop :: "vma_state \<Rightarrow> vaddr_t \<Rightarrow> ptr \<Rightarrow> ptr option" where
  "vma_skip_loop s start v =
     (if v \<noteq> NULL \<and> vend s v \<le> start then
        do { v \<leftarrow> vma_next s v; vma_skip_loop s start v }
      else Some v)"

definition vma_first_from :: "vma_state \<Rightarrow> vaddr_t \<Rightarrow> ptr option" where
  "vma_first_from s start =
     do {
       v \<leftarrow> vma_find s start;
       if v = NULL then do { v \<leftarrow> vma_first s; vma_skip_loop s start v } else Some v
     }"

definition vma_discard ::
  "'e mm_ops \<Rightarrow> bool \<Rightarrow> vma_state \<Rightarrow> 'e \<Rightarrow> ptr \<Rightarrow> (vma_state \<times> 'e) option" where
  "vma_discard ops space s e v =
     do {
       e \<leftarrow> (if space then op_unmap ops (vstart s v) ((vend s v - vstart s v) div PAGE_SIZE) e
             else Some e);
       s \<leftarrow> vma_remove s v;
       e \<leftarrow> op_kfree ops v e;
       Some (s, e)
     }"

partial_function (option) vma_remove_loop ::
  "'e mm_ops \<Rightarrow> bool \<Rightarrow> vaddr_t \<Rightarrow> vaddr_t \<Rightarrow> vma_state \<Rightarrow> 'e \<Rightarrow> ptr \<Rightarrow> (vma_state \<times> 'e) option" where
  "vma_remove_loop ops space start stop s e v =
     (if v \<noteq> NULL \<and> vstart s v < stop then
        do {
          nxt \<leftarrow> vma_next s v;
          (s, e) \<leftarrow> (if start \<le> vstart s v \<and> vend s v \<le> stop then vma_discard ops space s e v
                     else Some (s, e));
          vma_remove_loop ops space start stop s e nxt
        }
      else Some (s, e))"

text \<open>\<open>space\<close> is whether the caller passed an address space.\<close>

definition vma_remove_range ::
  "'e mm_ops \<Rightarrow> bool \<Rightarrow> vma_state \<Rightarrow> 'e \<Rightarrow> vaddr_t \<Rightarrow> vaddr_t \<Rightarrow> (int \<times> vma_state \<times> 'e) option" where
  "vma_remove_range ops space s e start stop =
     (if stop \<le> start then Some (- EINVAL, s, e)
      else do {
        (err, s, e) \<leftarrow> vma_split_left ops s e start;
        if err \<noteq> 0 then Some (err, s, e)
        else do {
          (err, s, e) \<leftarrow> vma_split_right ops s e stop;
          if err \<noteq> 0 then Some (err, s, e)
          else do {
            v \<leftarrow> vma_first_from s start;
            (s, e) \<leftarrow> vma_remove_loop ops space start stop s e v;
            Some (0, s, e)
          }
        }
      })"

text \<open>The gap search. \<open>gap_step\<close> is the body of its loop on the candidate kept so far.\<close>

definition gap_candidate :: "u64 \<Rightarrow> vaddr_t \<Rightarrow> vaddr_t \<Rightarrow> vaddr_t \<Rightarrow> vaddr_t" where
  "gap_candidate sz prev_end gap_end best =
     (if prev_end < gap_end \<and> sz \<le> gap_end - prev_end then
        let candidate = gap_end - sz in
        if prev_end \<le> candidate \<and> PAGE_SIZE \<le> candidate \<and> (best = 0 \<or> best < candidate)
        then candidate else best
      else best)"

definition gap_final :: "u64 \<Rightarrow> vaddr_t \<Rightarrow> vaddr_t \<Rightarrow> vaddr_t \<Rightarrow> vaddr_t" where
  "gap_final sz prev_end ceiling best =
     (if prev_end < ceiling \<and> sz \<le> ceiling - prev_end then
        let candidate = ceiling - sz in
        if prev_end \<le> candidate \<and> (best = 0 \<or> best < candidate) then candidate else best
      else best)"

partial_function (option) gap_loop ::
  "vma_state \<Rightarrow> u64 \<Rightarrow> vaddr_t \<Rightarrow> ptr \<Rightarrow> vaddr_t \<Rightarrow> vaddr_t \<Rightarrow> (vaddr_t \<times> vaddr_t) option" where
  "gap_loop s sz ceiling v prev_end best =
     (if v = NULL \<or> ceiling \<le> vstart s v then Some (prev_end, best)
      else do {
        nxt \<leftarrow> vma_next s v;
        gap_loop s sz ceiling nxt (vend s v) (gap_candidate sz prev_end (vstart s v) best)
      })"

definition vma_find_gap_top_down :: "vma_state \<Rightarrow> u64 \<Rightarrow> vaddr_t \<Rightarrow> vaddr_t option" where
  "vma_find_gap_top_down s sz ceiling =
     (if sz = 0 \<or> sz AND PAGE_MASK \<noteq> 0 then Some 0
      else do {
        v \<leftarrow> vma_first s;
        if v = NULL then
          Some (if PAGE_SIZE + sz \<le> ceiling then ceiling - sz else 0)
        else do {
          (prev_end, best) \<leftarrow> gap_loop s sz ceiling v PAGE_SIZE 0;
          Some (gap_final sz prev_end ceiling best)
        }
      })"

section \<open>Areas in order\<close>

text \<open>
  The invariant of the tree: the nodes in order are non-empty intervals, each ending before
  the next begins.
\<close>

definition vsorted :: "(ptr \<Rightarrow> vaddr_t) \<Rightarrow> (ptr \<Rightarrow> vaddr_t) \<Rightarrow> ptr list \<Rightarrow> bool" where
  "vsorted st en xs \<longleftrightarrow> (\<forall>p\<in>set xs. st p < en p) \<and> sorted_wrt (\<lambda>p q. en p \<le> st q) xs"

definition vma_ok :: "vma_state \<Rightarrow> ptr list \<Rightarrow> bool" where
  "vma_ok s xs \<longleftrightarrow> rb_seq s xs \<and> vsorted (vstart s) (vend s) xs"

text \<open>The area that holds an address, and the flags an address has.\<close>

definition in_vma :: "vma_state \<Rightarrow> vaddr_t \<Rightarrow> ptr \<Rightarrow> bool" where
  "in_vma s a p \<longleftrightarrow> vstart s p \<le> a \<and> a < vend s p"

definition vma_at :: "vma_state \<Rightarrow> ptr list \<Rightarrow> vaddr_t \<Rightarrow> ptr option" where
  "vma_at s xs a = find (in_vma s a) xs"

definition vma_view :: "vma_state \<Rightarrow> ptr list \<Rightarrow> vaddr_t \<Rightarrow> u32 option" where
  "vma_view s xs a = map_option (vflags s) (vma_at s xs a)"

text \<open>Two areas share an address.\<close>

definition overlap :: "vma_state \<Rightarrow> ptr \<Rightarrow> ptr \<Rightarrow> bool" where
  "overlap s p q \<longleftrightarrow> (\<exists>a. in_vma s a p \<and> in_vma s a q)"

lemma overlap_iff:
  "vstart s p < vend s p \<Longrightarrow> vstart s q < vend s q \<Longrightarrow>
   overlap s p q \<longleftrightarrow> vstart s q < vend s p \<and> vstart s p < vend s q"
  unfolding overlap_def in_vma_def
  by (rule iffI, force, rule exI [of _ "max (vstart s p) (vstart s q)"], auto simp: max_def)

lemma vsorted_append:
  "vsorted st en (xs @ ys) \<longleftrightarrow>
     vsorted st en xs \<and> vsorted st en ys \<and> (\<forall>p\<in>set xs. \<forall>q\<in>set ys. en p \<le> st q)"
  by (auto simp: vsorted_def sorted_wrt_append)

lemma vsorted_Nil [simp]: "vsorted st en []"
  by (simp add: vsorted_def)

lemma vsorted_Cons:
  "vsorted st en (p # ys) \<longleftrightarrow>
     st p < en p \<and> (\<forall>q\<in>set ys. en p \<le> st q) \<and> vsorted st en ys"
  by (auto simp: vsorted_def)

lemma vsorted_cong:
  "(\<And>p. p \<in> set xs \<Longrightarrow> st p = st' p \<and> en p = en' p) \<Longrightarrow> vsorted st en xs = vsorted st' en' xs"
  by (induction xs) (auto simp: vsorted_Cons)

lemma vsorted_nonempty: "vsorted st en xs \<Longrightarrow> p \<in> set xs \<Longrightarrow> st p < en p"
  by (simp add: vsorted_def)

lemmas vsorted_simps = vsorted_append vsorted_Cons

text \<open>Fields outside the tree node.\<close>

lemma payload_fields:
  fixes s s' :: vma_state
  assumes "rb_state.more s' = rb_state.more s"
  shows "vstart s' = vstart s" "vend s' = vend s" "vflags s' = vflags s"
  using assms by (cases s, cases s', simp)+

lemma rb_seq_update [simp]:
  fixes s :: vma_state
  shows "rb_seq (s\<lparr>vstart := f\<rparr>) xs = rb_seq s xs" "rb_seq (s\<lparr>vend := f\<rparr>) xs = rb_seq s xs"
    "rb_seq (s\<lparr>vflags := g\<rparr>) xs = rb_seq s xs"
  by (simp_all add: rb_seq_def rbrep_def)

lemma rb_seq_zero: "p \<notin> set xs \<Longrightarrow> rb_seq (vma_zero s p) xs = rb_seq s xs"
  by (auto simp: rb_seq_def rbrep_def vma_zero_def frame_simps)

lemma vma_zero_sel [simp]:
  "vstart (vma_zero s p) = (vstart s)(p := 0)" "vend (vma_zero s p) = (vend s)(p := 0)"
  "vflags (vma_zero s p) = (vflags s)(p := 0)"
  by (simp_all add: vma_zero_def)

section \<open>Insertion\<close>

text \<open>
  What the descent from position \<open>k\<close>, where the subtree \<open>t\<close> hangs, may return: a leaf of \<open>t\<close>
  that divides its nodes into those below and those above \<open>v\<close>, or an overlap.
\<close>

definition walk_result ::
  "vma_state \<Rightarrow> ptr \<Rightarrow> step list \<Rightarrow> rtree \<Rightarrow> (int + slot \<times> ptr) \<Rightarrow> bool" where
  "walk_result s v k t w \<longleftrightarrow>
     (\<exists>k' as bs. w = Inr (slot_of k', kp k') \<and> plug k' Lf = plug k t \<and> inord t = as @ bs \<and>
        kl k' = kl k @ as \<and> kr k' = bs @ kr k \<and>
        (\<forall>c\<in>set as. vend s c \<le> vstart s v) \<and> (\<forall>c\<in>set bs. vend s v \<le> vstart s c)) \<or>
     w = Inl (- EEXIST) \<and> (\<exists>c\<in>set (inord t). overlap s v c)"

lemma walk_result_left:
  assumes "walk_result s v (SL c a r # k) l w" "\<forall>p\<in>set (a # inord r). vend s v \<le> vstart s p"
  shows "walk_result s v k (Nd c l a r) w"
  using assms(1) unfolding walk_result_def
proof (elim disjE exE conjE, goal_cases)
  case (1 k' as bs)
  then show ?case using assms(2)
    by (intro disjI1 exI [of _ k'] exI [of _ as] exI [of _ "bs @ a # inord r"]) auto
qed auto

lemma walk_result_right:
  assumes "walk_result s v (SR c l a # k) r w" "\<forall>p\<in>set (a # inord l). vend s p \<le> vstart s v"
  shows "walk_result s v k (Nd c l a r) w"
  using assms(1) unfolding walk_result_def
proof (elim disjE exE conjE, goal_cases)
  case (1 k' as bs)
  then show ?case using assms(2)
    by (intro disjI1 exI [of _ k'] exI [of _ "inord l @ a # as"] exI [of _ bs]) auto
qed auto

lemma vma_insert_walk_rep:
  assumes "rep (parent s) (left s) (right s) (color s) (kp k) t"
    and "slot_read s (slot_of k) = rp t"
    and "vsorted (vstart s) (vend s) (inord t)" "vstart s v < vend s v"
  shows "\<exists>w. vma_insert_walk s v (slot_of k) (kp k) = Some w \<and> walk_result s v k t w"
  using assms
proof (induction t arbitrary: k)
  case Lf
  have "vma_insert_walk s v (slot_of k) (kp k) = Some (Inr (slot_of k, kp k))"
    using Lf by (subst vma_insert_walk.simps) simp
  then show ?case by (auto simp: walk_result_def)
next
  case (Nd c l a r)
  have a: "a \<noteq> 0" "vstart s a < vend s a" and srt: "vsorted (vstart s) (vend s) (inord l)"
    "vsorted (vstart s) (vend s) (inord r)" "\<forall>p\<in>set (inord l). vend s p \<le> vstart s a"
    "\<forall>p\<in>set (inord r). vend s a \<le> vstart s p"
    using Nd.prems by (auto simp: vsorted_simps)
  consider (left) "vend s v \<le> vstart s a" | (right) "\<not> vend s v \<le> vstart s a" "vend s a \<le> vstart s v"
    | (clash) "\<not> vend s v \<le> vstart s a" "\<not> vend s a \<le> vstart s v" by blast
  then show ?case
  proof cases
    case left
    have "vma_insert_walk s v (slot_of k) (kp k) = vma_insert_walk s v (Slot_left a) a"
      using Nd.prems left a by (subst vma_insert_walk.simps) simp
    moreover have "\<forall>p\<in>set (a # inord r). vend s v \<le> vstart s p"
      using left srt a by fastforce
    ultimately show ?thesis
      using Nd.IH(1) [of "SL c a r # k"] Nd.prems srt walk_result_left by fastforce
  next
    case right
    have "vma_insert_walk s v (slot_of k) (kp k) = vma_insert_walk s v (Slot_right a) a"
      using Nd.prems right a by (subst vma_insert_walk.simps) simp
    moreover have "\<forall>p\<in>set (a # inord l). vend s p \<le> vstart s v"
      using right srt a by fastforce
    ultimately show ?thesis
      using Nd.IH(2) [of "SR c l a # k"] Nd.prems srt walk_result_right by fastforce
  next
    case clash
    then have "vma_insert_walk s v (slot_of k) (kp k) = Some (Inl (- EEXIST))"
      using Nd.prems a by (subst vma_insert_walk.simps) simp
    moreover have "overlap s v a"
      using clash a Nd.prems by (simp add: overlap_iff not_le)
    ultimately show ?thesis by (auto simp: walk_result_def)
  qed
qed

lemma vma_insert_cases:
  assumes "vma_ok s xs" "v \<noteq> 0" "v \<notin> set xs" "vstart s v < vend s v"
  shows "(\<exists>s' as bs. vma_insert s v = Some (0, s') \<and> xs = as @ bs \<and> vma_ok s' (as @ v # bs) \<and>
            rb_state.more s' = rb_state.more s \<and>
            (\<forall>c\<in>set as. vend s c \<le> vstart s v) \<and> (\<forall>c\<in>set bs. vend s v \<le> vstart s c)) \<or>
         (vma_insert s v = Some (- EEXIST, s) \<and> (\<exists>c\<in>set xs. overlap s v c))"
proof -
  from assms obtain t where t: "rbrep s t" "rbt t" "inord t = xs" and srt: "vsorted (vstart s) (vend s) xs"
    by (auto simp: vma_ok_def rb_seq_def)
  from vma_insert_walk_rep [of s "[]" t v] t srt assms(4)
  consider (ok) k as bs where "vma_insert_walk s v Slot_root 0 = Some (Inr (slot_of k, kp k))"
      "plug k Lf = t" "xs = as @ bs" "kl k = as" "kr k = bs"
      "\<forall>c\<in>set as. vend s c \<le> vstart s v" "\<forall>c\<in>set bs. vend s v \<le> vstart s c"
    | (clash) "vma_insert_walk s v Slot_root 0 = Some (Inl (- EEXIST))" "\<exists>c\<in>set xs. overlap s v c"
    by (auto simp: rbrep_def walk_result_def)
  then show ?thesis
  proof cases
    case ok
    from rb_insert_ok [of s k v] ok t assms obtain s' T where
      ins: "rb_insert_color (rb_link_node s v (kp k) (slot_of k)) v = Some s'" and
      T: "rbrep s' T" "rbt T" "inord T = as @ v # bs" and
      fr: "rb_frame (set (as @ v # bs)) s s'" by auto
    from fr have m: "rb_state.more s' = rb_state.more s" by (simp add: rb_frame_def)
    have "vsorted (vstart s) (vend s) (as @ v # bs)"
      using ok srt assms(4) by (auto simp: vsorted_simps)
    then have "vma_ok s' (as @ v # bs)"
      using T payload_fields [OF m] by (auto simp: vma_ok_def rb_seq_def)
    with ok ins m show ?thesis
      by (intro disjI1 exI [of _ s'] exI [of _ as] exI [of _ bs]) (simp add: vma_insert_def)
  next
    case clash
    then show ?thesis by (simp add: vma_insert_def)
  qed
qed

text \<open>A free place is found, and it is the one place the order allows.\<close>

lemma vma_insert_at:
  assumes ok: "vma_ok s (xs @ ys)" and v: "v \<noteq> 0" "v \<notin> set (xs @ ys)" "vstart s v < vend s v"
    and gap: "\<forall>c\<in>set xs. vend s c \<le> vstart s v" "\<forall>c\<in>set ys. vend s v \<le> vstart s c"
  shows "\<exists>s'. vma_insert s v = Some (0, s') \<and> vma_ok s' (xs @ v # ys) \<and>
    rb_state.more s' = rb_state.more s"
proof -
  have ne: "\<forall>c\<in>set (xs @ ys). vstart s c < vend s c"
    using ok by (simp add: vma_ok_def vsorted_def)
  have "\<not> overlap s v c" if "c \<in> set (xs @ ys)" for c
    using that gap ne v by (auto simp: overlap_iff)
  with vma_insert_cases [OF ok v] obtain s' as bs where s': "vma_insert s v = Some (0, s')"
    "xs @ ys = as @ bs" "vma_ok s' (as @ v # bs)" "rb_state.more s' = rb_state.more s"
    "\<forall>c\<in>set as. vend s c \<le> vstart s v" "\<forall>c\<in>set bs. vend s v \<le> vstart s c" by blast
  have "False" if "c \<in> set (xs @ ys)" "vend s c \<le> vstart s v" "vend s v \<le> vstart s c" for c
  proof -
    have "vstart s c < vend s c" using that ne by blast
    with that v(3) show False by order
  qed
  then have "set xs \<inter> set bs = {}" "set as \<inter> set ys = {}"
    using gap s' by (metis Un_iff disjoint_iff set_append)+
  with s' append_split_unique [of xs ys as bs] show ?thesis by blast
qed

section \<open>Lookup, removal and iteration\<close>

lemma vma_at_Some:
  "vma_at s xs a = Some p \<Longrightarrow> \<exists>as bs. xs = as @ p # bs \<and> in_vma s a p"
  unfolding vma_at_def find_Some_iff by (metis id_take_nth_drop)

lemma vma_at_None: "vma_at s xs a = None \<longleftrightarrow> (\<forall>p\<in>set xs. \<not> in_vma s a p)"
  by (auto simp: vma_at_def find_None_iff)

text \<open>Of disjoint areas at most one holds an address, so the order of the search is irrelevant.\<close>

lemma vsorted_unique:
  "vsorted (vstart s) (vend s) xs \<Longrightarrow> p \<in> set xs \<Longrightarrow> q \<in> set xs \<Longrightarrow> in_vma s a p \<Longrightarrow> in_vma s a q \<Longrightarrow> p = q"
  by (induction xs) (fastforce simp: vsorted_Cons in_vma_def)+

lemma vma_at_eq:
  assumes "vsorted (vstart s) (vend s) xs"
  shows "vma_at s xs a = Some p \<longleftrightarrow> p \<in> set xs \<and> in_vma s a p"
proof
  show "vma_at s xs a = Some p \<Longrightarrow> p \<in> set xs \<and> in_vma s a p"
    by (auto dest: vma_at_Some)
  assume p: "p \<in> set xs \<and> in_vma s a p"
  then obtain q where q: "vma_at s xs a = Some q"
    using vma_at_None [of s xs a] by (cases "vma_at s xs a") auto
  with p vsorted_unique [OF assms] show "vma_at s xs a = Some p"
    by (fastforce dest: vma_at_Some)
qed

lemma vma_find_walk_rep:
  assumes "rep (parent s) (left s) (right s) (color s) q t" "vsorted (vstart s) (vend s) (inord t)"
  shows "vma_find_walk s a (rp t) = Some (case vma_at s (inord t) a of None \<Rightarrow> 0 | Some p \<Rightarrow> p)"
  using assms
proof (induction t arbitrary: q)
  case Lf
  then show ?case by (subst vma_find_walk.simps) (simp add: vma_at_def)
next
  case (Nd c l n r)
  have n: "n \<noteq> 0" "left s n = rp l" "right s n = rp r" "vstart s n < vend s n"
    and srt: "\<forall>p\<in>set (inord l). vstart s p < vend s p \<and> vend s p \<le> vstart s n"
    "\<forall>p\<in>set (inord r). vend s n \<le> vstart s p"
    using Nd.prems by (auto simp: vsorted_simps vsorted_nonempty)
  have l: "vma_find_walk s a (rp l) = Some (case vma_at s (inord l) a of None \<Rightarrow> 0 | Some p \<Rightarrow> p)"
    and r: "vma_find_walk s a (rp r) = Some (case vma_at s (inord r) a of None \<Rightarrow> 0 | Some p \<Rightarrow> p)"
    using Nd by (auto simp: vsorted_simps)
  consider "a < vstart s n" | "vstart s n \<le> a" "vend s n \<le> a" | "in_vma s a n"
    by (fastforce simp: in_vma_def)
  then show ?case
  proof cases
    case 1
    then have "vma_at s (n # inord r) a = None"
      using srt n by (fastforce simp: vma_at_None in_vma_def)
    then have "vma_at s (inord l @ n # inord r) a = vma_at s (inord l) a"
      by (simp add: vma_at_def find_append split: option.splits)
    with 1 l n show ?thesis by (subst vma_find_walk.simps) simp
  next
    case 2
    then have "vma_at s (inord l @ [n]) a = None"
      using srt n by (fastforce simp: vma_at_None in_vma_def)
    then have "vma_at s (inord l @ n # inord r) a = vma_at s (inord r) a"
      using find_append [of "in_vma s a" "inord l @ [n]" "inord r"]
      by (simp add: vma_at_def)
    with 2 r n show ?thesis by (subst vma_find_walk.simps) (simp add: leD)
  next
    case 3
    then have "vma_at s (inord (Nd c l n r)) a = Some n"
      using Nd.prems by (simp add: vma_at_eq)
    with 3 n show ?thesis by (subst vma_find_walk.simps) (auto simp: in_vma_def)
  qed
qed

lemma vma_find_rep:
  "vma_ok s xs \<Longrightarrow> vma_find s a = Some (case vma_at s xs a of None \<Rightarrow> 0 | Some p \<Rightarrow> p)"
  using vma_find_walk_rep by (fastforce simp: vma_ok_def rb_seq_def rbrep_def vma_find_def)

lemma vma_ok_nodes: "vma_ok s xs \<Longrightarrow> distinct xs \<and> 0 \<notin> set xs"
  using rbs.seq_nodes by (auto simp: vma_ok_def)

lemma vma_remove_rep:
  assumes "vma_ok s (xs @ v # ys)"
  shows "\<exists>s'. vma_remove s v = Some s' \<and> vma_ok s' (xs @ ys) \<and> rb_state.more s' = rb_state.more s"
proof -
  from assms rbs.seq_erase [of s xs v ys] obtain s' where
    s': "rb_erase s v = Some s'" "rb_seq s' (xs @ ys)" "rb_state.more s' = rb_state.more s"
    by (auto simp: vma_ok_def)
  moreover have "vma_ok s' (xs @ ys)"
    using assms s' payload_fields [OF s'(3)] by (auto simp: vma_ok_def vsorted_simps)
  ultimately show ?thesis by (simp add: vma_remove_def)
qed

lemma vma_first_rep: "vma_ok s xs \<Longrightarrow> vma_first s = Some (first_or_null xs)"
  by (simp add: vma_first_def vma_ok_def rbs.seq_first)

lemma vma_next_rep: "vma_ok s (xs @ a # ys) \<Longrightarrow> vma_next s a = Some (first_or_null ys)"
  unfolding vma_next_def vma_ok_def by (blast intro: rbs.seq_next)

lemma vma_skip_loop_rep:
  "vma_ok s (as @ bs) \<Longrightarrow>
   vma_skip_loop s a (first_or_null bs) = Some (first_or_null (dropWhile (\<lambda>p. vend s p \<le> a) bs))"
proof (induction bs arbitrary: as)
  case Nil
  then show ?case by (subst vma_skip_loop.simps) simp
next
  case (Cons b bs)
  have "b \<noteq> 0" using vma_ok_nodes [OF Cons.prems] by auto
  with Cons.prems Cons.IH [of "as @ [b]"] show ?case
    by (subst vma_skip_loop.simps) (simp add: vma_next_rep)
qed

text \<open>The cursor the removal loop starts from: everything before it ends by \<open>a\<close>.\<close>

lemma vma_first_from_rep:
  assumes "vma_ok s xs"
  shows "\<exists>as bs. xs = as @ bs \<and> vma_first_from s a = Some (first_or_null bs) \<and>
    (\<forall>p\<in>set as. vend s p \<le> a)"
proof (cases "vma_at s xs a")
  case None
  let ?P = "\<lambda>p. vend s p \<le> a"
  have "vma_first_from s a = Some (first_or_null (dropWhile ?P xs))"
    using None assms vma_skip_loop_rep [of s "[]" xs a]
    by (simp add: vma_first_from_def vma_find_rep vma_first_rep)
  then show ?thesis
    by (intro exI [of _ "takeWhile ?P xs"] exI [of _ "dropWhile ?P xs"]) (auto dest: set_takeWhileD)
next
  case (Some v)
  then obtain as bs where v: "xs = as @ v # bs" "in_vma s a v" by (auto dest: vma_at_Some)
  then have "v \<noteq> 0" using vma_ok_nodes [OF assms] by auto
  then have "vma_first_from s a = Some (first_or_null (v # bs))"
    using Some assms by (simp add: vma_first_from_def vma_find_rep)
  moreover have "\<forall>p\<in>set as. vend s p \<le> a"
    using v assms by (fastforce simp: vma_ok_def vsorted_simps in_vma_def)
  ultimately show ?thesis using v by blast
qed

end
