(* ===== verification/Vma_Range.thy ===== *)
theory Vma_Range
  imports Vma
begin

text \<open>
  What \<^verbatim>\<open>vma_split_at\<close>, \<^verbatim>\<open>vma_remove_range\<close> and \<^verbatim>\<open>vma_find_gap_top_down\<close> of
  \<^verbatim>\<open>kernel/mm/vma.c\<close> do to the map from addresses to flags that the tree stands for
  (\<open>vma_view\<close>). The first two are proved over any allocator that meets the contract
  \<open>kernel_memory\<close>; the gap search is compared with the highest free range there is.
\<close>

section \<open>The view of the addresses\<close>

lemma vma_view_Some:
  "vma_ok s xs \<Longrightarrow> vma_view s xs a = Some f \<longleftrightarrow> (\<exists>p\<in>set xs. in_vma s a p \<and> vflags s p = f)"
  by (auto simp: vma_view_def vma_ok_def vma_at_eq)

lemma vma_view_split:
  assumes ok: "vma_ok s (xs @ v # ys)" "vma_ok s' (xs @ v # p # ys)" "p \<notin> set (xs @ v # ys)"
    and b: "vstart s v < b" "b < vend s v"
    and f: "vstart s' = (vstart s)(p := b)" "vend s' = (vend s)(v := b, p := vend s v)"
      "vflags s' = (vflags s)(p := vflags s v)"
  shows "vma_view s' (xs @ v # p # ys) = vma_view s (xs @ v # ys)"
proof (rule ext, rule option_eqI)
  fix a y
  have halves: "in_vma s a v \<longleftrightarrow> in_vma s' a v \<or> in_vma s' a p"
    using ok(3) b by (auto simp: in_vma_def f)
  have rest: "in_vma s' a c = in_vma s a c \<and> vflags s' c = vflags s c" if "c \<in> set (xs @ ys)" for c
    using that ok(3) vma_ok_nodes [OF ok(2)] by (auto simp: in_vma_def f)
  have fl: "vflags s' v = vflags s v" "vflags s' p = vflags s v" using ok(3) f by auto
  show "vma_view s' (xs @ v # p # ys) a = Some y \<longleftrightarrow> vma_view s (xs @ v # ys) a = Some y"
    using rest halves fl unfolding vma_view_Some [OF ok(1)] vma_view_Some [OF ok(2)]
    by (simp add: ball_Un bex_Un) blast
qed

text \<open>Dropping whole areas that together fill a range, when no area crosses its ends.\<close>

definition straddles :: "vma_state \<Rightarrow> vaddr_t \<Rightarrow> ptr \<Rightarrow> bool" where
  "straddles s b p \<longleftrightarrow> vstart s p < b \<and> b < vend s p"

definition inside :: "vma_state \<Rightarrow> vaddr_t \<Rightarrow> vaddr_t \<Rightarrow> ptr \<Rightarrow> bool" where
  "inside s lo hi p \<longleftrightarrow> lo \<le> vstart s p \<and> vend s p \<le> hi"

lemma vma_view_drop:
  assumes ok: "vma_ok s xs" "vma_ok s' (filter (\<lambda>p. \<not> inside s lo hi p) xs)"
    and f: "rb_state.more s' = rb_state.more s"
    and str: "\<forall>p\<in>set xs. \<not> straddles s lo p \<and> \<not> straddles s hi p"
  shows "vma_view s' (filter (\<lambda>p. \<not> inside s lo hi p) xs) a =
    (if lo \<le> a \<and> a < hi then None else vma_view s xs a)"
proof (rule option_eqI)
  fix y
  note f' = payload_fields [OF f]
  have "in_vma s a p \<Longrightarrow> inside s lo hi p \<longleftrightarrow> lo \<le> a \<and> a < hi" if "p \<in> set xs" for p
    using str that by (fastforce simp: in_vma_def inside_def straddles_def)
  then show "vma_view s' (filter (\<lambda>p. \<not> inside s lo hi p) xs) a = Some y \<longleftrightarrow>
      (if lo \<le> a \<and> a < hi then None else vma_view s xs a) = Some y"
    by (auto simp: vma_view_Some [OF ok(1)] vma_view_Some [OF ok(2)] f' in_vma_def)
qed

section \<open>Splitting and range removal over any allocator\<close>

text \<open>
  The contract of the allocator and of the page-table teardown. \<open>good\<close> is the invariant of
  their state and \<open>live\<close> the set of objects handed out and not yet freed.
\<close>

locale kernel_memory =
  fixes ops :: "'e mm_ops"
    and good :: "'e \<Rightarrow> bool"
    and live :: "'e \<Rightarrow> ptr set"
  assumes kzalloc_law: "good e \<Longrightarrow>
      \<exists>p e'. op_kzalloc ops n e = Some (p, e') \<and> good e' \<and>
        (p = 0 \<and> live e' = live e \<or> p \<noteq> 0 \<and> p \<notin> live e \<and> live e' = insert p (live e))"
    and kfree_law: "good e \<Longrightarrow> p \<in> live e \<Longrightarrow>
      \<exists>e'. op_kfree ops p e = Some e' \<and> good e' \<and> live e' = live e - {p}"
    and unmap_law: "good e \<Longrightarrow>
      \<exists>e'. op_unmap ops va n e = Some e' \<and> good e' \<and> live e' = live e"
begin

text \<open>Every area of the tree is a live object.\<close>

definition vma_inv :: "vma_state \<Rightarrow> 'e \<Rightarrow> ptr list \<Rightarrow> bool" where
  "vma_inv s e xs \<longleftrightarrow> vma_ok s xs \<and> good e \<and> set xs \<subseteq> live e"

lemma split_commit:
  assumes ok: "vma_ok s (xs @ v # ys)" and p: "p \<noteq> 0" "p \<notin> set (xs @ v # ys)"
    and b: "vstart s v < b" "b < vend s v" "vstart s p = b" "vend s p = vend s v"
  shows "\<exists>s'. vma_split_commit ops s e v b p = Some (0, p, s', e) \<and> vma_ok s' (xs @ v # p # ys) \<and>
    vstart s' = vstart s \<and> vend s' = (vend s)(v := b) \<and> vflags s' = vflags s"
proof -
  note nodes = vma_ok_nodes [OF ok]
  have before: "\<forall>c\<in>set xs. vstart s c < vend s c \<and> vend s c \<le> vstart s v"
    and after: "\<forall>c\<in>set ys. vend s v \<le> vstart s c \<and> vstart s c < vend s c"
    using ok by (auto simp: vma_ok_def vsorted_simps vsorted_nonempty)
  obtain s1 where s1: "vma_remove s v = Some s1" "vma_ok s1 (xs @ ys)"
    "rb_state.more s1 = rb_state.more s" using vma_remove_rep [OF ok] by blast
  note f1 = payload_fields [OF s1(3)]
  have "vsorted (vstart s1) ((vend s1)(v := b)) (xs @ ys) = vsorted (vstart s1) (vend s1) (xs @ ys)"
    using nodes by (intro vsorted_cong) auto
  then have ok1: "vma_ok (set_vend s1 v b) (xs @ ys)" using s1(2) by (simp add: vma_ok_def)
  have "\<forall>c\<in>set xs. vend (set_vend s1 v b) c \<le> vstart (set_vend s1 v b) v"
    using before f1 b by auto
  moreover have "\<forall>c\<in>set ys. vend (set_vend s1 v b) v \<le> vstart (set_vend s1 v b) c"
    using after b f1 by fastforce
  ultimately obtain s2 where s2: "vma_insert (set_vend s1 v b) v = Some (0, s2)"
    "vma_ok s2 (xs @ v # ys)" "rb_state.more s2 = rb_state.more (set_vend s1 v b)"
    using vma_insert_at [OF ok1, of v] nodes b f1 by auto
  note f2 = payload_fields [OF s2(3)]
  have vf2: "vstart s2 = vstart s" "vend s2 = (vend s)(v := b)" using f1 f2 by simp_all
  have lo: "\<forall>c\<in>set (xs @ [v]). vend s2 c \<le> vstart s2 p"
    using before b by (fastforce simp: vf2)
  have hi: "\<forall>c\<in>set ys. vend s2 p \<le> vstart s2 c" and ne: "vstart s2 p < vend s2 p"
    using after b p by (simp_all add: vf2)
  from vma_insert_at [of s2 "xs @ [v]" ys p, OF _ p(1) _ ne lo hi] s2(2) p(2)
  obtain s3 where s3: "vma_insert s2 p = Some (0, s3)" "vma_ok s3 ((xs @ [v]) @ p # ys)"
    "rb_state.more s3 = rb_state.more s2" by auto
  have "vma_split_commit ops s e v b p = Some (0, p, s3, e)"
    using s1 s2 s3 by (simp add: vma_split_commit_def)
  then show ?thesis using s3(2) f1 vf2 f2 payload_fields [OF s3(3)] by simp
qed

text \<open>The outcome of a split at \<open>b\<close> of the area \<open>v\<close>.\<close>

lemma split_at:
  assumes inv: "vma_inv s e (xs @ v # ys)" and b: "vstart s v < b" "b < vend s v" "b AND PAGE_MASK = 0"
  shows "(\<exists>e'. vma_split_at ops s e v b = Some (- ENOMEM, 0, s, e') \<and> good e' \<and> live e' = live e) \<or>
    (\<exists>p s' e'. vma_split_at ops s e v b = Some (0, p, s', e') \<and> p \<notin> live e \<and> live e' = insert p (live e) \<and>
      vma_inv s' e' (xs @ v # p # ys) \<and> vstart s' = (vstart s)(p := b) \<and>
      vend s' = (vend s)(v := b, p := vend s v) \<and> vflags s' = (vflags s)(p := vflags s v))"
proof -
  from inv have ok: "vma_ok s (xs @ v # ys)" and e: "good e" "set (xs @ v # ys) \<subseteq> live e"
    by (auto simp: vma_inv_def)
  note nodes = vma_ok_nodes [OF ok]
  obtain p e' where p: "op_kzalloc ops sizeof_vma e = Some (p, e')" "good e'"
    "p = 0 \<and> live e' = live e \<or> p \<noteq> 0 \<and> p \<notin> live e \<and> live e' = insert p (live e)"
    using kzalloc_law [OF e(1)] by blast
  have guards: "v \<noteq> 0" "\<not> b \<le> vstart s v" "\<not> vend s v \<le> b" using nodes b by auto
  show ?thesis
  proof (cases "p = 0")
    case True
    then show ?thesis using p b guards by (simp add: vma_split_at_def)
  next
    case False
    with p e have p': "p \<noteq> 0" "p \<notin> set (xs @ v # ys)" "p \<notin> live e" "live e' = insert p (live e)" by auto
    let ?s = "set_vflags (set_vend (set_vstart (vma_zero s p) p b) p (vend s v)) p (vflags s v)"
    have "vsorted ((vstart s)(p := b)) ((vend s)(p := vend s v)) (xs @ v # ys) =
        vsorted (vstart s) (vend s) (xs @ v # ys)"
      using p' by (intro vsorted_cong) auto
    then have "vma_ok ?s (xs @ v # ys)"
      using ok p' by (simp add: vma_ok_def rb_seq_zero)
    then obtain s' where c: "vma_split_commit ops ?s e' v b p = Some (0, p, s', e')"
      "vma_ok s' (xs @ v # p # ys)" "vstart s' = vstart ?s" "vend s' = (vend ?s)(v := b)"
      "vflags s' = vflags ?s"
      using split_commit [of ?s xs v ys p b e'] p' b by auto
    have "vma_split_at ops s e v b = Some (0, p, s', e')"
      using p(1) p'(1,2) b(3) guards c(1) by (auto simp: vma_split_at_def)
    moreover have "vma_inv s' e' (xs @ v # p # ys)"
      using p(2) p' e c(2) by (auto simp: vma_inv_def)
    moreover have "vend s' = (vend s)(v := b, p := vend s v)"
      using p' c(4) by (auto simp: fun_upd_twist)
    ultimately show ?thesis using p' c(3,5) by (intro disjI2) simp
  qed
qed

lemma discard:
  assumes inv: "vma_inv s e (xs @ v # ys)"
  shows "\<exists>s' e'. vma_discard ops space s e v = Some (s', e') \<and> vma_inv s' e' (xs @ ys) \<and>
    live e' = live e - {v} \<and> rb_state.more s' = rb_state.more s"
proof -
  from inv have e: "good e" "v \<in> live e" by (auto simp: vma_inv_def)
  have "\<exists>e1. (if space then op_unmap ops (vstart s v) ((vend s v - vstart s v) div PAGE_SIZE) e
             else Some e) = Some e1 \<and> good e1 \<and> live e1 = live e"
    using unmap_law [OF e(1)] e by simp
  then obtain e1 where e1: "(if space then op_unmap ops (vstart s v) ((vend s v - vstart s v) div PAGE_SIZE) e
             else Some e) = Some e1" "good e1" "live e1 = live e" by blast
  obtain s1 where s1: "vma_remove s v = Some s1" "vma_ok s1 (xs @ ys)"
    "rb_state.more s1 = rb_state.more s" using vma_remove_rep inv unfolding vma_inv_def by blast
  obtain e2 where e2: "op_kfree ops v e1 = Some e2" "good e2" "live e2 = live e1 - {v}"
    using kfree_law [of e1 v] e e1 by auto
  have "v \<notin> set (xs @ ys)"
    using vma_ok_nodes inv by (fastforce simp: vma_inv_def)
  then have "vma_inv s1 e2 (xs @ ys)"
    using inv s1 e1 e2 by (auto simp: vma_inv_def)
  moreover have "vma_discard ops space s e v = Some (s1, e2)"
    using e1(1) s1(1) e2(1) by (simp add: vma_discard_def)
  ultimately show ?thesis using s1(3) e1(3) e2(3) by simp
qed

lemma remove_loop:
  "vma_inv s e (as @ bs) \<Longrightarrow>
   \<exists>s' e'. vma_remove_loop ops space lo hi s e (first_or_null bs) = Some (s', e') \<and>
     vma_inv s' e' (as @ filter (\<lambda>p. \<not> inside s lo hi p) bs) \<and> rb_state.more s' = rb_state.more s \<and>
     live e' = live e - {p \<in> set bs. inside s lo hi p}"
proof (induction bs arbitrary: as s e)
  case Nil
  then show ?case by (subst vma_remove_loop.simps) simp
next
  case (Cons b bs)
  then have ok: "vma_ok s (as @ b # bs)" by (simp add: vma_inv_def)
  note nodes = vma_ok_nodes [OF ok] and nxt = vma_next_rep [OF ok]
  have b0: "b \<noteq> 0" using nodes by auto
  consider (stop) "hi \<le> vstart s b" | (drop) "vstart s b < hi" "inside s lo hi b"
    | (keep) "vstart s b < hi" "\<not> inside s lo hi b" by fastforce
  then show ?case
  proof cases
    case stop
    have "\<not> inside s lo hi p" if "p \<in> set (b # bs)" for p
    proof -
      have "hi \<le> vstart s p" "vstart s p < vend s p"
        using that stop ok by (fastforce simp: vma_ok_def vsorted_simps vsorted_nonempty)+
      then show ?thesis by (auto simp: inside_def)
    qed
    then have "filter (\<lambda>p. \<not> inside s lo hi p) (b # bs) = b # bs"
      "live e - {p \<in> set (b # bs). inside s lo hi p} = live e" by (auto simp: filter_id_conv)
    moreover have "vma_remove_loop ops space lo hi s e (first_or_null (b # bs)) = Some (s, e)"
      using stop by (subst vma_remove_loop.simps) (simp add: leD)
    ultimately show ?thesis using Cons.prems by metis
  next
    case drop
    obtain s1 e1 where 1: "vma_discard ops space s e b = Some (s1, e1)" "vma_inv s1 e1 (as @ bs)"
      "live e1 = live e - {b}" "rb_state.more s1 = rb_state.more s"
      using discard [OF Cons.prems] by blast
    have "inside s1 lo hi = inside s lo hi"
      using payload_fields [OF 1(4)] by (simp add: inside_def fun_eq_iff)
    moreover have "vma_remove_loop ops space lo hi s e b =
        vma_remove_loop ops space lo hi s1 e1 (first_or_null bs)"
      using drop b0 nxt 1(1) by (subst vma_remove_loop.simps) (simp add: inside_def)
    ultimately show ?thesis
      using Cons.IH [OF 1(2)] 1(3,4) drop by auto
  next
    case keep
    have "vma_remove_loop ops space lo hi s e b =
        vma_remove_loop ops space lo hi s e (first_or_null bs)"
      using keep b0 nxt by (subst vma_remove_loop.simps) (auto simp: inside_def)
    moreover have "{p \<in> set (b # bs). inside s lo hi p} = {p \<in> set bs. inside s lo hi p}"
      using keep by auto
    ultimately show ?thesis
      using Cons.IH [of s e "as @ [b]"] Cons.prems keep by simp
  qed
qed

text \<open>
  The outcome of cutting the areas at \<open>b\<close>: no area crosses \<open>b\<close>, or nothing happened for want
  of memory. The flags of every address are the same, and so are the live objects outside the
  tree: nothing leaks.
\<close>

definition cut_result :: "vma_state \<Rightarrow> 'e \<Rightarrow> ptr list \<Rightarrow> vaddr_t \<Rightarrow> int \<Rightarrow> vma_state \<Rightarrow> 'e \<Rightarrow> ptr list \<Rightarrow> bool" where
  "cut_result s e xs b r s' e' xs' \<longleftrightarrow>
     vma_inv s' e' xs' \<and> vma_view s' xs' = vma_view s xs \<and> live e' - set xs' = live e - set xs \<and>
     (r = 0 \<and> (\<forall>p\<in>set xs'. \<not> straddles s' b p) \<or> r = - ENOMEM) \<and>
     (\<forall>c. (\<forall>p\<in>set xs. \<not> straddles s c p) \<longrightarrow> (\<forall>p\<in>set xs'. \<not> straddles s' c p))"

lemma cut_result_none:
  "vma_inv s e xs \<Longrightarrow> \<forall>p\<in>set xs. \<not> straddles s b p \<Longrightarrow> cut_result s e xs b 0 s e xs"
  by (simp add: cut_result_def)

lemma cut_result_split:
  assumes inv: "vma_inv s e xs" and v: "v \<in> set xs" "straddles s b v" and b: "b AND PAGE_MASK = 0"
  shows "\<exists>r p s' e' xs'. vma_split_at ops s e v b = Some (r, p, s', e') \<and> cut_result s e xs b r s' e' xs'"
proof -
  from v(1) obtain as bs where xs: "xs = as @ v # bs" by (meson split_list)
  with inv have ok: "vma_ok s (as @ v # bs)" by (simp add: vma_inv_def)
  from v(2) have str: "vstart s v < b" "b < vend s v" by (auto simp: straddles_def)
  from split_at [OF inv [unfolded xs] str b] show ?thesis
  proof (elim disjE exE conjE, goal_cases)
    case (1 e')
    then have "cut_result s e xs b (- ENOMEM) s e' xs"
      using inv by (simp add: cut_result_def vma_inv_def)
    with 1 show ?case by blast
  next
    case (2 p s' e')
    have p: "p \<notin> set xs" using inv 2(2) by (auto simp: vma_inv_def)
    have ok': "vma_ok s' (as @ v # p # bs)" using 2 by (simp add: vma_inv_def)
    have view: "vma_view s' (as @ v # p # bs) = vma_view s xs"
      using vma_view_split [OF ok ok' _ str] p xs 2 by simp
    have cross: "straddles s' c q \<Longrightarrow> c \<noteq> b \<and> (\<exists>q\<in>set xs. straddles s c q)"
      if "q \<in> set (as @ v # p # bs)" for c q
    proof -
      assume st: "straddles s' c q"
      show ?thesis
      proof (cases "q \<in> {v, p}")
        case True
        with st str p xs 2 have "straddles s c v \<and> c \<noteq> b"
          by (fastforce simp: straddles_def split: if_splits)
        with v show ?thesis by blast
      next
        case False
        with that xs have q: "q \<in> set xs" "q \<noteq> v" by auto
        then have sq: "straddles s c q" using st 2 False by (simp add: straddles_def)
        have "\<not> in_vma s b q"
          using vsorted_unique [of s xs q v b] ok xs q v str by (auto simp: vma_ok_def in_vma_def less_imp_le)
        with sq have "c \<noteq> b" by (auto simp: straddles_def in_vma_def)
        with sq q show ?thesis by blast
      qed
    qed
    have "live e' - set (as @ v # p # bs) = live e - set xs"
      using 2 xs by auto
    with 2 view cross have "cut_result s e xs b 0 s' e' (as @ v # p # bs)"
      unfolding cut_result_def by blast
    with 2 show ?case by blast
  qed
qed

lemma split_left:
  assumes inv: "vma_inv s e xs" and b: "b AND PAGE_MASK = 0"
  shows "\<exists>r s' e' xs'. vma_split_left ops s e b = Some (r, s', e') \<and> cut_result s e xs b r s' e' xs'"
proof -
  from inv have ok: "vma_ok s xs" and srt: "vsorted (vstart s) (vend s) xs"
    by (auto simp: vma_inv_def vma_ok_def)
  note nodes = vma_ok_nodes [OF ok]
  show ?thesis
  proof (cases "\<exists>v\<in>set xs. straddles s b v")
    case True
    then obtain v where v: "v \<in> set xs" "straddles s b v" by blast
    then have at: "vma_at s xs b = Some v"
      using vma_at_eq [OF srt] by (auto simp: straddles_def in_vma_def)
    have "v \<noteq> 0" using v nodes by metis
    with at have "vma_split_left ops s e b = do { (err, _, s, e) \<leftarrow> vma_split_at ops s e v b; Some (err, s, e) }"
      using v by (simp add: vma_split_left_def vma_find_rep [OF ok] straddles_def)
    with cut_result_split [OF inv v b] show ?thesis by fastforce
  next
    case False
    then have "vma_split_left ops s e b = Some (0, s, e)"
      using vma_at_eq [OF srt, of b]
      by (auto simp: vma_split_left_def vma_find_rep [OF ok] straddles_def in_vma_def split: option.splits)
    with cut_result_none [OF inv] False show ?thesis by blast
  qed
qed

lemma split_right:
  assumes inv: "vma_inv s e xs" and b: "b AND PAGE_MASK = 0" "0 < b"
  shows "\<exists>r s' e' xs'. vma_split_right ops s e b = Some (r, s', e') \<and> cut_result s e xs b r s' e' xs'"
proof -
  from inv have ok: "vma_ok s xs" and srt: "vsorted (vstart s) (vend s) xs"
    by (auto simp: vma_inv_def vma_ok_def)
  note nodes = vma_ok_nodes [OF ok]
  have below: "x \<le> b - 1 \<longleftrightarrow> x < b" for x
    using b(2) by (rule word_le_minus_one_iff)
  show ?thesis
  proof (cases "\<exists>v\<in>set xs. straddles s b v")
    case True
    then obtain v where v: "v \<in> set xs" "straddles s b v" by blast
    then have "in_vma s (b - 1) v"
      using below [of "b - 1"] by (auto simp: straddles_def in_vma_def below)
    then have at: "vma_at s xs (b - 1) = Some v"
      using vma_at_eq [OF srt] v by auto
    have "v \<noteq> 0" using v nodes by metis
    with at have "vma_split_right ops s e b = do { (err, _, s, e) \<leftarrow> vma_split_at ops s e v b; Some (err, s, e) }"
      using v by (simp add: vma_split_right_def vma_find_rep [OF ok] straddles_def)
    with cut_result_split [OF inv v b(1)] show ?thesis by fastforce
  next
    case False
    then have "vma_split_right ops s e b = Some (0, s, e)"
      using vma_at_eq [OF srt, of "b - 1"]
      by (auto simp: vma_split_right_def vma_find_rep [OF ok] straddles_def in_vma_def below split: option.splits)
    with cut_result_none [OF inv] False show ?thesis by blast
  qed
qed

lemma remove_range:
  assumes inv: "vma_inv s e xs" and r: "lo < hi" "lo AND PAGE_MASK = 0" "hi AND PAGE_MASK = 0"
  shows "\<exists>r s' e' xs'. vma_remove_range ops space s e lo hi = Some (r, s', e') \<and> vma_inv s' e' xs' \<and>
    live e' - set xs' = live e - set xs \<and>
    (r = 0 \<and> vma_view s' xs' = (\<lambda>a. if lo \<le> a \<and> a < hi then None else vma_view s xs a) \<or>
     r = - ENOMEM \<and> vma_view s' xs' = vma_view s xs)"
proof -
  have hi: "0 < hi" and ng: "\<not> hi \<le> lo" using r(1) by (meson le_less_trans word_zero_le, simp)
  obtain r1 s1 e1 xs1 where 1: "vma_split_left ops s e lo = Some (r1, s1, e1)" "cut_result s e xs lo r1 s1 e1 xs1"
    using split_left [OF inv r(2)] by blast
  then have inv1: "vma_inv s1 e1 xs1" by (simp add: cut_result_def)
  obtain r2 s2 e2 xs2 where 2: "vma_split_right ops s1 e1 hi = Some (r2, s2, e2)" "cut_result s1 e1 xs1 hi r2 s2 e2 xs2"
    using split_right [OF inv1 r(3) hi] by blast
  then have inv2: "vma_inv s2 e2 xs2" by (simp add: cut_result_def)
  have rc: "r1 = 0 \<or> r1 = - ENOMEM \<and> r1 \<noteq> 0" "r2 = 0 \<or> r2 = - ENOMEM \<and> r2 \<noteq> 0"
    using 1(2) 2(2) by (auto simp: cut_result_def ENOMEM_def)
  consider (fail1) "r1 \<noteq> 0" | (fail2) "r1 = 0" "r2 \<noteq> 0" | (ok) "r1 = 0" "r2 = 0" by blast
  then show ?thesis
  proof cases
    case fail1
    then have "vma_remove_range ops space s e lo hi = Some (- ENOMEM, s1, e1)"
      using rc 1(1) ng by (simp add: vma_remove_range_def)
    with 1(2) show ?thesis unfolding cut_result_def by blast
  next
    case fail2
    then have "vma_remove_range ops space s e lo hi = Some (- ENOMEM, s2, e2)"
      using rc 1(1) 2(1) ng by (simp add: vma_remove_range_def)
    with 1(2) 2(2) show ?thesis unfolding cut_result_def by metis
  next
    case ok
    have str: "\<forall>p\<in>set xs2. \<not> straddles s2 lo p \<and> \<not> straddles s2 hi p"
      using ok rc 1(2) 2(2) by (auto simp: cut_result_def ENOMEM_def)
    have ok2: "vma_ok s2 xs2" using inv2 by (simp add: vma_inv_def)
    let ?keep = "filter (\<lambda>p. \<not> inside s2 lo hi p)"
    obtain as bs where ab: "xs2 = as @ bs" "vma_first_from s2 lo = Some (first_or_null bs)"
      "\<forall>p\<in>set as. vend s2 p \<le> lo" using vma_first_from_rep [OF ok2] by blast
    obtain s3 e3 where 3: "vma_remove_loop ops space lo hi s2 e2 (first_or_null bs) = Some (s3, e3)"
      "vma_inv s3 e3 (as @ ?keep bs)" "rb_state.more s3 = rb_state.more s2"
      "live e3 = live e2 - {p \<in> set bs. inside s2 lo hi p}"
      using remove_loop inv2 ab(1) by meson
    have ne: "vstart s2 p < vend s2 p" if "p \<in> set as" for p
      using that ok2 ab(1) by (auto simp: vma_ok_def vsorted_def)
    have "\<not> inside s2 lo hi p" if "p \<in> set as" for p
      using ne [OF that] ab(3) that by (fastforce simp: inside_def)
    then have "?keep as = as" by (simp add: filter_id_conv)
    then have k: "as @ ?keep bs = ?keep xs2" using ab(1) by simp
    have v2: "vma_view s2 xs2 = vma_view s xs"
      using 1(2) 2(2) by (simp add: cut_result_def)
    have "vma_view s3 (?keep xs2) = (\<lambda>a. if lo \<le> a \<and> a < hi then None else vma_view s xs a)"
      using vma_view_drop [OF ok2 _ 3(3) str] 3(2) k v2 by (auto simp: vma_inv_def)
    moreover have "live e3 - set (?keep xs2) = live e2 - set xs2"
      using 3(4) k [symmetric] ab(1) by auto
    moreover have "live e2 - set xs2 = live e - set xs"
      using 1(2) 2(2) by (simp add: cut_result_def)
    moreover have "vma_remove_range ops space s e lo hi = Some (0, s3, e3)"
      using ok 1(1) 2(1) ng ab(2) 3(1) by (simp add: vma_remove_range_def)
    ultimately show ?thesis using 3(2) k
      by (intro exI [of _ 0] exI [of _ s3] exI [of _ e3] exI [of _ "?keep xs2"]) simp
  qed
qed

end

section \<open>The gap search\<close>

text \<open>The range of \<open>sz\<close> bytes at \<open>a\<close> meets no area.\<close>

definition range_free :: "vma_state \<Rightarrow> ptr list \<Rightarrow> nat \<Rightarrow> nat \<Rightarrow> bool" where
  "range_free s xs sz a \<longleftrightarrow>
     (\<forall>p\<in>set xs. a + sz \<le> unat (vstart s p) \<or> unat (vend s p) \<le> a)"

text \<open>\<open>a\<close> is a base the search may return: above the first page, below the ceiling, free.\<close>

definition gap_fits :: "vma_state \<Rightarrow> ptr list \<Rightarrow> nat \<Rightarrow> nat \<Rightarrow> nat \<Rightarrow> bool" where
  "gap_fits s xs sz ceiling a \<longleftrightarrow> 4096 \<le> a \<and> a + sz \<le> ceiling \<and> range_free s xs sz a"

lemma range_free_simps [simp]:
  "range_free s [] sz a"
  "range_free s (xs @ ys) sz a \<longleftrightarrow> range_free s xs sz a \<and> range_free s ys sz a"
  "range_free s (p # ys) sz a \<longleftrightarrow>
     (a + sz \<le> unat (vstart s p) \<or> unat (vend s p) \<le> a) \<and> range_free s ys sz a"
  by (auto simp: range_free_def)

lemma gap_candidate_unat:
  assumes "0 < sz" "4096 \<le> prev"
  shows "unat (gap_candidate sz prev ge best) =
    (if unat prev + unat sz \<le> unat ge \<and> (best = 0 \<or> unat best < unat ge - unat sz)
     then unat ge - unat sz else unat best)"
proof (cases "unat prev + unat sz \<le> unat ge")
  case True
  have sz: "0 < unat sz" using assms(1) by (simp add: word_less_nat_alt)
  have d: "unat (ge - prev) = unat ge - unat prev" "unat (ge - sz) = unat ge - unat sz"
    using True by (simp_all add: unat_sub word_le_nat_alt)
  have p: "4096 \<le> unat prev" using assms(2) by (simp add: word_le_nat_alt)
  show ?thesis using True sz p d
    by (auto simp: gap_candidate_def Let_def word_le_nat_alt word_less_nat_alt page_consts)
next
  case False
  have "\<not> (prev < ge \<and> sz \<le> ge - prev)"
    using False by (auto simp: word_less_nat_alt word_le_nat_alt unat_sub)
  then show ?thesis using False by (auto simp: gap_candidate_def)
qed

lemma gap_final_candidate:
  "4096 \<le> prev \<Longrightarrow> gap_final sz prev ceiling best = gap_candidate sz prev ceiling best"
  by (auto simp: gap_final_def gap_candidate_def Let_def page_consts)

text \<open>
  What the loop keeps after the areas \<open>as\<close>: the best candidate is free and no base below the
  end of the last area is better.
\<close>

definition gap_inv :: "vma_state \<Rightarrow> ptr list \<Rightarrow> nat \<Rightarrow> nat \<Rightarrow> nat \<Rightarrow> nat \<Rightarrow> bool" where
  "gap_inv s as sz ceiling prev best \<longleftrightarrow> 4096 \<le> prev \<and>
     (\<forall>p\<in>set as. unat (vend s p) \<le> prev) \<and>
     (best \<noteq> 0 \<longrightarrow> gap_fits s as sz ceiling best \<and> best + sz \<le> prev) \<and>
     (\<forall>a. 4096 \<le> a \<and> a < prev \<and> range_free s as sz a \<longrightarrow> best \<noteq> 0 \<and> a \<le> best)"

lemma gap_inv_step:
  assumes inv: "gap_inv s as (unat sz) (unat ceiling) (unat prev) (unat best)" and sz: "0 < sz"
    and b: "prev = 4096 \<and> as = [] \<or> prev \<le> vstart s b" "vstart s b < vend s b" "4096 \<le> vend s b"
      "vstart s b < ceiling"
  shows "gap_inv s (as @ [b]) (unat sz) (unat ceiling) (unat (vend s b))
    (unat (gap_candidate sz prev (vstart s b) best))"
proof -
  have prev: "4096 \<le> prev" using inv by (simp add: gap_inv_def word_le_nat_alt)
  have n: "unat prev = 4096 \<and> as = [] \<or> unat prev \<le> unat (vstart s b)"
    "unat (vstart s b) < unat (vend s b)" "4096 \<le> unat (vend s b)"
    "unat (vstart s b) < unat ceiling" "0 < unat sz"
    using b sz by (auto simp: word_le_nat_alt word_less_nat_alt)
  have le: "unat prev \<le> unat (vend s b)" using n by auto
  have as: "p \<in> set as \<Longrightarrow> unat (vend s p) \<le> unat prev" for p
    using inv by (simp add: gap_inv_def)
  have free: "unat prev \<le> a \<Longrightarrow> range_free s as (unat sz) a" for a
    using as by (fastforce simp: range_free_def)
  note c = gap_candidate_unat [OF sz prev, of "vstart s b" best]
  show ?thesis
  proof (cases "unat prev + unat sz \<le> unat (vstart s b)")
    case True
    have better: "best = 0 \<or> unat best < unat (vstart s b) - unat sz"
      using inv True n by (auto simp: gap_inv_def)
    then have c': "unat (gap_candidate sz prev (vstart s b) best) = unat (vstart s b) - unat sz"
      using True c by simp
    have r: "unat prev \<le> unat (vstart s b) - unat sz"
      "unat (vstart s b) - unat sz + unat sz = unat (vstart s b)" using True by simp_all
    have p4: "4096 \<le> unat prev" using inv by (simp add: gap_inv_def)
    have fits: "gap_fits s (as @ [b]) (unat sz) (unat ceiling) (unat (vstart s b) - unat sz)"
      using r p4 n free [OF r(1)] by (simp add: gap_fits_def)
    have "a \<le> unat (vstart s b) - unat sz" if "4096 \<le> a" "a < unat (vend s b)"
      "range_free s (as @ [b]) (unat sz) a" for a
      using that by auto
    moreover have "unat (vstart s b) - unat sz \<noteq> 0" using r p4 by linarith
    moreover have "\<forall>p\<in>set (as @ [b]). unat (vend s p) \<le> unat (vend s b)"
      using as le by fastforce
    moreover have "unat (vstart s b) - unat sz + unat sz \<le> unat (vend s b)" using r n by simp
    ultimately show ?thesis
      unfolding gap_inv_def c' using n(3) fits by blast
  next
    case False
    have c': "unat (gap_candidate sz prev (vstart s b) best) = unat best" using False c by simp
    have "unat best \<noteq> 0 \<and> a \<le> unat best" if "4096 \<le> a" "a < unat (vend s b)"
      "range_free s (as @ [b]) (unat sz) a" for a
      using that inv n False by (auto simp: gap_inv_def)
    moreover have "gap_fits s (as @ [b]) (unat sz) (unat ceiling) (unat best)" if "unat best \<noteq> 0"
      using that inv n by (auto simp: gap_inv_def gap_fits_def)
    moreover have "\<forall>p\<in>set (as @ [b]). unat (vend s p) \<le> unat (vend s b)"
      using as le by fastforce
    moreover have "unat best + unat sz \<le> unat (vend s b)" if "unat best \<noteq> 0"
      using that inv le by (auto simp: gap_inv_def)
    ultimately show ?thesis
      unfolding gap_inv_def c' using n(3) by blast
  qed
qed

lemma gap_loop_rep:
  assumes "vma_ok s (as @ bs)" "gap_inv s as (unat sz) (unat ceiling) (unat prev) (unat best)"
    and "0 < sz" "\<forall>p\<in>set (as @ bs). 4096 \<le> vend s p"
    and "prev = (if as = [] then 4096 else vend s (last as))"
  shows "\<exists>prev' best' cs ds. gap_loop s sz ceiling (first_or_null bs) prev best = Some (prev', best') \<and>
    as @ bs = cs @ ds \<and> gap_inv s cs (unat sz) (unat ceiling) (unat prev') (unat best') \<and>
    (\<forall>p\<in>set ds. ceiling \<le> vstart s p)"
  using assms
proof (induction bs arbitrary: as prev best)
  case Nil
  then show ?case by (subst gap_loop.simps) force
next
  case (Cons b bs)
  note ok = Cons.prems(1)
  have b0: "b \<noteq> 0" using vma_ok_nodes [OF ok] by auto
  show ?case
  proof (cases "ceiling \<le> vstart s b")
    case True
    have "\<forall>p\<in>set (b # bs). ceiling \<le> vstart s p"
      using True ok by (fastforce simp: vma_ok_def vsorted_simps vsorted_nonempty)
    then show ?thesis using True Cons.prems by (subst gap_loop.simps) force
  next
    case False
    have "prev = 4096 \<and> as = [] \<or> prev \<le> vstart s b"
      using Cons.prems(1,5) by (auto simp: vma_ok_def vsorted_simps)
    moreover have "vstart s b < vend s b" "4096 \<le> vend s b"
      using ok Cons.prems(4) by (auto simp: vma_ok_def vsorted_simps)
    ultimately have "gap_inv s (as @ [b]) (unat sz) (unat ceiling) (unat (vend s b))
        (unat (gap_candidate sz prev (vstart s b) best))"
      using gap_inv_step Cons.prems(2,3) False by force
    from Cons.IH [OF _ this] Cons.prems
    show ?thesis using False b0 vma_next_rep [OF ok] by (subst gap_loop.simps) simp
  qed
qed

text \<open>\<open>a\<close> is the highest base of a free range of \<open>sz\<close> bytes, or \<open>0\<close> when there is none.\<close>

definition highest_gap :: "vma_state \<Rightarrow> ptr list \<Rightarrow> nat \<Rightarrow> nat \<Rightarrow> nat \<Rightarrow> bool" where
  "highest_gap s xs sz ceiling r \<longleftrightarrow>
     (r \<noteq> 0 \<longrightarrow> gap_fits s xs sz ceiling r) \<and> (\<forall>a. gap_fits s xs sz ceiling a \<longrightarrow> r \<noteq> 0 \<and> a \<le> r)"

lemma highest_gap_final:
  assumes inv: "gap_inv s cs (unat sz) (unat ceiling) (unat prev) (unat best)" and sz: "0 < sz"
    and ds: "\<forall>p\<in>set ds. ceiling \<le> vstart s p"
  shows "highest_gap s (cs @ ds) (unat sz) (unat ceiling) (unat (gap_final sz prev ceiling best))"
proof -
  have prev: "4096 \<le> prev" "4096 \<le> unat prev" using inv by (simp_all add: gap_inv_def word_le_nat_alt)
  have "gap_fits s (cs @ ds) (unat sz) (unat ceiling) a \<longleftrightarrow> gap_fits s cs (unat sz) (unat ceiling) a" for a
    using ds by (fastforce simp: gap_fits_def range_free_def word_le_nat_alt)
  moreover have free: "unat prev \<le> a \<Longrightarrow> range_free s cs (unat sz) a" for a
    using inv by (fastforce simp: range_free_def gap_inv_def)
  moreover note gap_final_candidate [OF prev(1), of sz ceiling best]
    gap_candidate_unat [OF sz prev(1), of ceiling best]
  moreover have "highest_gap s cs (unat sz) (unat ceiling)
    (if unat prev + unat sz \<le> unat ceiling \<and> (best = 0 \<or> unat best < unat ceiling - unat sz)
     then unat ceiling - unat sz else unat best)"
  proof (cases "unat prev + unat sz \<le> unat ceiling")
    case True
    then have r: "unat prev \<le> unat ceiling - unat sz" "unat ceiling - unat sz + unat sz = unat ceiling"
      by simp_all
    have "gap_fits s cs (unat sz) (unat ceiling) (unat ceiling - unat sz)"
      using r prev free [OF r(1)] by (simp add: gap_fits_def)
    moreover have "best = 0 \<or> unat best < unat ceiling - unat sz"
      using inv True prev sz by (auto simp: gap_inv_def word_less_nat_alt)
    ultimately show ?thesis
      using True r prev by (auto simp: highest_gap_def gap_fits_def)
  next
    case False
    have "unat best \<noteq> 0 \<and> a \<le> unat best" if "gap_fits s cs (unat sz) (unat ceiling) a" for a
      using that inv False by (auto simp: gap_inv_def gap_fits_def)
    then show ?thesis using False inv by (auto simp: highest_gap_def gap_inv_def)
  qed
  ultimately show ?thesis by (simp add: highest_gap_def)
qed

lemma find_gap_rep:
  assumes ok: "vma_ok s xs" and en: "\<forall>p\<in>set xs. 4096 \<le> vend s p"
    and sz: "sz \<noteq> 0" "sz AND PAGE_MASK = 0" "unat sz + 4096 < 2 ^ 64"
  shows "\<exists>r. vma_find_gap_top_down s sz ceiling = Some r \<and>
    highest_gap s xs (unat sz) (unat ceiling) (unat r)"
proof (cases "xs = []")
  case True
  have "unat (4096 + sz) = 4096 + unat sz"
    using sz(3) by (subst unat_add_lem [THEN iffD1]) simp_all
  then have le: "PAGE_SIZE + sz \<le> ceiling \<longleftrightarrow> 4096 + unat sz \<le> unat ceiling"
    by (simp add: page_consts word_le_nat_alt)
  let ?r = "if PAGE_SIZE + sz \<le> ceiling then ceiling - sz else 0"
  have "unat ?r = (if 4096 + unat sz \<le> unat ceiling then unat ceiling - unat sz else 0)"
    using le by (auto simp: unat_sub word_le_nat_alt)
  then have "highest_gap s xs (unat sz) (unat ceiling) (unat ?r)"
    using True by (auto simp: highest_gap_def gap_fits_def)
  moreover have "vma_find_gap_top_down s sz ceiling = Some ?r"
    using sz True vma_first_rep [OF ok] by (simp add: vma_find_gap_top_down_def)
  ultimately show ?thesis by blast
next
  case False
  have sz0: "0 < sz" using sz by (simp add: word_neq_0_conv)
  have "gap_inv s [] (unat sz) (unat ceiling) (unat (4096 :: vaddr_t)) (unat (0 :: vaddr_t))"
    by (simp add: gap_inv_def)
  from gap_loop_rep [of s "[]" xs, OF _ this sz0] ok en
  obtain prev best cs ds where g: "gap_loop s sz ceiling (first_or_null xs) 4096 0 = Some (prev, best)"
    "xs = cs @ ds" "gap_inv s cs (unat sz) (unat ceiling) (unat prev) (unat best)"
    "\<forall>p\<in>set ds. ceiling \<le> vstart s p" by auto
  have "first_or_null xs \<noteq> 0" using False vma_ok_nodes [OF ok] by (simp add: first_or_null_eq_0)
  then have "vma_find_gap_top_down s sz ceiling = Some (gap_final sz prev ceiling best)"
    using sz g(1) vma_first_rep [OF ok] by (simp add: vma_find_gap_top_down_def page_consts)
  with highest_gap_final [OF g(3) sz0 g(4)] g(2) show ?thesis by blast
qed

section \<open>Properties of the area tree\<close>

lemma vma_view_insert:
  assumes ok: "vma_ok s (as @ bs)" "vma_ok s' (as @ v # bs)" "rb_state.more s' = rb_state.more s"
    and gap: "\<forall>c\<in>set (as @ bs). \<not> overlap s v c"
  shows "vma_view s' (as @ v # bs) a = (if in_vma s a v then Some (vflags s v) else vma_view s (as @ bs) a)"
proof (rule option_eqI)
  fix y
  note f = payload_fields [OF ok(3)]
  have "\<forall>c\<in>set (as @ bs). in_vma s a v \<longrightarrow> \<not> in_vma s a c"
    using gap by (auto simp: overlap_def)
  then show "vma_view s' (as @ v # bs) a = Some y \<longleftrightarrow>
      (if in_vma s a v then Some (vflags s v) else vma_view s (as @ bs) a) = Some y"
    by (auto simp: vma_view_Some [OF ok(1)] vma_view_Some [OF ok(2)] f in_vma_def)
qed

text \<open>A tree of three areas, and an area outside it, on which the properties are applied.\<close>

definition vma_sample :: vma_state where
  "vma_sample = \<lparr>root = 2, parent = (\<lambda>_. 0)(1 := 2, 3 := 2), left = (\<lambda>_. 0)(2 := 1),
     right = (\<lambda>_. 0)(2 := 3), color = (\<lambda>_. RB_RED)(2 := RB_BLACK),
     vstart = (\<lambda>_. 0)(1 := 0x1000, 2 := 0x4000, 3 := 0x9000, 7 := 0x5000, 8 := 0x2000),
     vend = (\<lambda>_. 0)(1 := 0x3000, 2 := 0x5000, 3 := 0xA000, 7 := 0x7000, 8 := 0x6000),
     vflags = (\<lambda>_. 1)(7 := 3)\<rparr>"

lemma vma_sample_ok: "vma_ok vma_sample [1, 2, 3]"
  unfolding vma_ok_def rb_seq_def
  by (intro conjI exI [of _ rb_sample_tree])
    (simp_all add: rbrep_def vma_sample_def rb_sample_tree_def rbt_def vsorted_Cons)

text \<open>
  C12. Inserting a non-empty area fails with \<^verbatim>\<open>-EEXIST\<close> and leaves the tree alone when the area
  shares an address with one in the tree. Otherwise it succeeds: the tree stays ordered and
  disjoint, it holds one area more, and the addresses of the new area get its flags while all
  others keep theirs.
\<close>

theorem vma_insert_correct:
  assumes ok: "vma_ok s xs" and v: "v \<noteq> 0" "v \<notin> set xs" "vstart s v < vend s v"
  shows "if \<exists>c\<in>set xs. overlap s v c then vma_insert s v = Some (- EEXIST, s)
    else \<exists>s' xs'. vma_insert s v = Some (0, s') \<and> vma_ok s' xs' \<and> set xs' = insert v (set xs) \<and>
      vma_view s' xs' = (\<lambda>a. if in_vma s a v then Some (vflags s v) else vma_view s xs a)"
proof (cases "\<exists>c\<in>set xs. overlap s v c")
  case True
  have "\<not> (\<exists>s' as bs. xs = as @ bs \<and> (\<forall>c\<in>set as. vend s c \<le> vstart s v) \<and>
      (\<forall>c\<in>set bs. vend s v \<le> vstart s c))"
    using True by (fastforce simp: overlap_def in_vma_def)
  with vma_insert_cases [OF ok v] True show ?thesis by auto
next
  case False
  with vma_insert_cases [OF ok v] obtain s' as bs where s': "vma_insert s v = Some (0, s')"
    "xs = as @ bs" "vma_ok s' (as @ v # bs)" "rb_state.more s' = rb_state.more s" by blast
  with vma_view_insert [of s as bs s' v] ok False show ?thesis by fastforce
qed

theorem vma_insert_correct_witness:
  "vma_insert vma_sample 8 = Some (- EEXIST, vma_sample) \<and>
   (\<exists>s' xs'. vma_insert vma_sample 7 = Some (0, s') \<and> vma_ok s' xs' \<and> set xs' = {7, 1, 2, 3} \<and>
     vma_view s' xs' 0x6FFF = Some 3 \<and> vma_view s' xs' 0x7000 = None)"
proof
  have "overlap vma_sample 8 2" by (simp add: overlap_iff vma_sample_def)
  then show "vma_insert vma_sample 8 = Some (- EEXIST, vma_sample)"
    using vma_insert_correct [OF vma_sample_ok, of 8] by (auto simp: vma_sample_def)
  have "\<not> overlap vma_sample 7 c" if "c \<in> {1, 2, 3}" for c
    using that by (auto simp: overlap_iff vma_sample_def)
  then have "\<not> (\<exists>c\<in>set [1, 2, 3]. overlap vma_sample 7 c)" by auto
  moreover have "(7 :: ptr) \<noteq> 0" "(7 :: ptr) \<notin> set [1, 2, 3]" "vstart vma_sample 7 < vend vma_sample 7"
    by (simp_all add: vma_sample_def)
  ultimately obtain s' xs' where s': "vma_insert vma_sample 7 = Some (0, s')" "vma_ok s' xs'"
    "set xs' = insert 7 (set [1, 2, 3])" and view: "vma_view s' xs' =
       (\<lambda>a. if in_vma vma_sample a 7 then Some (vflags vma_sample 7) else vma_view vma_sample [1, 2, 3] a)"
    using vma_insert_correct [OF vma_sample_ok, of 7] by (metis (no_types, lifting))
  have "vma_view s' xs' 0x6FFF = Some 3" "vma_view s' xs' 0x7000 = None"
    unfolding view by (simp_all add: vma_sample_def in_vma_def vma_view_def vma_at_def)
  with s' show "\<exists>s' xs'. vma_insert vma_sample 7 = Some (0, s') \<and> vma_ok s' xs' \<and> set xs' = {7, 1, 2, 3} \<and>
     vma_view s' xs' 0x6FFF = Some 3 \<and> vma_view s' xs' 0x7000 = None"
    by auto
qed

text \<open>
  C28. \<^verbatim>\<open>vma_find\<close> returns the area that holds the address when there is one and \<^verbatim>\<open>NULL\<close>
  otherwise; it always returns, and areas are disjoint, so the answer is the only one possible.
\<close>

theorem vma_find_correct:
  assumes "vma_ok s xs"
  shows "\<exists>r. vma_find s a = Some r \<and>
    (if \<exists>p\<in>set xs. in_vma s a p then r \<in> set xs \<and> in_vma s a r \<and> (\<forall>p\<in>set xs. in_vma s a p \<longrightarrow> p = r)
     else r = 0)"
  using vma_find_rep [OF assms, of a] vma_at_None [of s xs a] vma_at_eq [of s xs a] assms
    vsorted_unique [of s xs] by (cases "vma_at s xs a") (auto simp: vma_ok_def)

theorem vma_find_correct_witness:
  "vma_find vma_sample 0x4FFF = Some 2 \<and> vma_find vma_sample 0x3000 = Some 0"
  using vma_find_correct [OF vma_sample_ok, of "0x4FFF"] vma_find_correct [OF vma_sample_ok, of "0x3000"]
  by (simp add: vma_sample_def in_vma_def)

text \<open>
  C22. For a page-aligned size the gap search returns the highest address, at least one page and
  low enough to end by the ceiling, at which that many bytes meet no area, and \<open>0\<close> exactly when
  there is no such address. The size is assumed not to be the one that wraps around with the
  lowest page.
\<close>

theorem vma_find_gap_correct:
  assumes ok: "vma_ok s xs" and al: "\<forall>p\<in>set xs. vend s p AND PAGE_MASK = 0"
    and sz: "sz \<noteq> 0" "sz AND PAGE_MASK = 0" "unat sz + 4096 < 2 ^ 64"
  shows "\<exists>r. vma_find_gap_top_down s sz ceiling = Some r \<and>
    highest_gap s xs (unat sz) (unat ceiling) (unat r)"
proof (rule find_gap_rep [OF ok _ sz])
  show "\<forall>p\<in>set xs. 4096 \<le> vend s p"
  proof
    fix p assume p: "p \<in> set xs"
    then have "vstart s p < vend s p" using ok by (auto simp: vma_ok_def vsorted_nonempty)
    then have "0 < unat (vend s p)" by (simp add: word_less_nat_alt)
    moreover have "4096 dvd unat (vend s p)" using al p by (simp add: page_aligned_iff)
    ultimately show "4096 \<le> vend s p" by (auto simp: word_le_nat_alt dest: dvd_imp_le)
  qed
qed

theorem vma_find_gap_correct_witness:
  "\<exists>r. vma_find_gap_top_down vma_sample 0x2000 0x10000 = Some r \<and>
    highest_gap vma_sample [1, 2, 3] 0x2000 0x10000 (unat r)"
  using vma_find_gap_correct [OF vma_sample_ok, where sz = "0x2000" and ceiling = "0x10000"]
  by (simp add: vma_sample_def page_consts)



end
