(* ===== verification/Vma_Heap.thy ===== *)
theory Vma_Heap
  imports Kmalloc Vma_Range
begin

text \<open>
  The address-space code of \<^verbatim>\<open>kernel/mm/vma.c\<close> on the kernel heap of \<^verbatim>\<open>kernel/mm/slab.c\<close>: the
  allocator contract under which splitting and range removal were proved holds of the model of
  \<^verbatim>\<open>kzalloc\<close> and \<^verbatim>\<open>kfree\<close>, so the results hold of the two components together. The trees here have
  no address space attached (\<^verbatim>\<open>space\<close> is null), so the page-table teardown is never called.
\<close>

definition heap_ops :: "kmem_state mm_ops" where
  "heap_ops = \<lparr>op_kzalloc = (\<lambda>n e. kzalloc e (unat n)), op_kfree = (\<lambda>p e. kfree e p), op_unmap = (\<lambda>_ _ e. Some e)\<rparr>"

interpretation kmem: kernel_memory heap_ops kmem_inv live
proof
  fix e :: kmem_state and n :: u64 and p :: ptr and va :: vaddr_t
  assume inv: "kmem_inv e"
  show "\<exists>p e'. op_kzalloc heap_ops n e = Some (p, e') \<and> kmem_inv e' \<and>
      (p = 0 \<and> live e' = live e \<or> p \<noteq> 0 \<and> p \<notin> live e \<and> live e' = insert p (live e))"
    using kzalloc_result [OF inv, of "unat n"] by (auto simp: heap_ops_def alloc_outcome_def)
  show "\<exists>e'. op_kfree heap_ops p e = Some e' \<and> kmem_inv e' \<and> live e' = live e - {p}" if "p \<in> live e"
    using kfree_result [OF inv that] by (auto simp: heap_ops_def)
  show "\<exists>e'. op_unmap heap_ops va n e = Some e' \<and> kmem_inv e' \<and> live e' = live e"
    using inv by (simp add: heap_ops_def)
qed

text \<open>One area of three pages at a heap object, as a tree.\<close>

definition one_vma :: "ptr \<Rightarrow> vma_state" where
  "one_vma p = \<lparr>root = p, parent = (\<lambda>_. 0), left = (\<lambda>_. 0), right = (\<lambda>_. 0), color = (\<lambda>_. RB_BLACK),
     vstart = (\<lambda>_. 0x1000), vend = (\<lambda>_. 0x4000), vflags = (\<lambda>_. 1)\<rparr>"

lemma one_vma_inv: "p \<noteq> 0 \<Longrightarrow> kmem_inv e \<Longrightarrow> p \<in> live e \<Longrightarrow> kmem.vma_inv (one_vma p) e [p]"
  unfolding kmem.vma_inv_def vma_ok_def rb_seq_def
  by (intro conjI exI [of _ "Nd RB_BLACK Lf p Lf"]) (simp_all add: rbrep_def one_vma_def rbt_def vsorted_Cons)

text \<open>
  C21. Splitting an area at a page boundary inside it either fails for want of memory and changes
  neither the tree nor the set of live heap objects, or replaces the area by its two parts, the
  upper one a fresh heap object: every address keeps its flags, the tree stays a valid ordered
  red-black tree of live objects, and the heap stays well-formed.
\<close>

theorem vma_split_at_correct:
  assumes "vma_ok s (xs @ v # ys)" "kmem_inv e" "set (xs @ v # ys) \<subseteq> live e"
    and b: "vstart s v < b" "b < vend s v" "b AND PAGE_MASK = 0"
  shows "(\<exists>e'. vma_split_at heap_ops s e v b = Some (- ENOMEM, 0, s, e') \<and> kmem_inv e' \<and> live e' = live e) \<or>
    (\<exists>p s' e'. vma_split_at heap_ops s e v b = Some (0, p, s', e') \<and> p \<notin> live e \<and> live e' = insert p (live e) \<and>
      kmem_inv e' \<and> vma_ok s' (xs @ v # p # ys) \<and> vstart s' p = b \<and> vend s' v = b \<and>
      vma_view s' (xs @ v # p # ys) = vma_view s (xs @ v # ys))"
proof -
  have inv: "kmem.vma_inv s e (xs @ v # ys)" using assms by (simp add: kmem.vma_inv_def)
  from kmem.split_at [OF inv b] show ?thesis
  proof (elim disjE exE conjE, goal_cases)
    case (2 p s' e')
    have "p \<notin> set (xs @ v # ys)" using 2(2) assms(3) by blast
    then have "vma_view s' (xs @ v # p # ys) = vma_view s (xs @ v # ys)" "p \<noteq> v"
      using vma_view_split [OF assms(1) _ _ b(1,2) 2(5-7)] 2(4) by (auto simp: kmem.vma_inv_def)
    then show ?case using 2 by (auto simp: kmem.vma_inv_def)
  qed blast
qed

theorem vma_split_at_correct_witness:
  "\<exists>v e. v \<noteq> 0 \<and> ((\<exists>e'. vma_split_at heap_ops (one_vma v) e v 0x2000 = Some (- ENOMEM, 0, one_vma v, e')) \<or>
    (\<exists>p s' e'. vma_split_at heap_ops (one_vma v) e v 0x2000 = Some (0, p, s', e') \<and> live e' = {p, v} \<and>
      vma_view s' [v, p] 0x3000 = Some 1))"
proof -
  obtain v e where v: "v \<noteq> 0" "kmem_inv e" "live e = {v}" using kmem_sample_object by blast
  have ok: "vma_ok (one_vma v) ([] @ v # [])" using one_vma_inv [of v e] v by (simp add: kmem.vma_inv_def)
  have "vma_view (one_vma v) [v] 0x3000 = Some 1" by (simp add: vma_view_def vma_at_def in_vma_def one_vma_def)
  moreover have "vstart (one_vma v) v < 0x2000" "0x2000 < vend (one_vma v) v" "(0x2000 :: u64) AND PAGE_MASK = 0"
    "set ([] @ v # []) \<subseteq> live e" using v by (simp_all add: one_vma_def page_consts)
  note vma_split_at_correct [OF ok v(2) this(4,1,2,3)]
  ultimately show ?thesis using v by (intro exI [of _ v] exI [of _ e]) auto
qed



end
