(* ===== verification/Kstring.thy ===== *)
theory Kstring
  imports Jnu_Prelude
begin

text \<open>
  The memory and string primitives of \<^verbatim>\<open>kernel/lib/string.c\<close>. Memory is a function from addresses
  to bytes and every loop is a recursion over it in the order of the source. The loops that only a
  terminating zero byte ends are \<open>partial_function\<close>s: not returning is \<open>None\<close>.
\<close>

type_synonym mem = "nat \<Rightarrow> u8"

section \<open>The code\<close>

fun memcpy :: "mem \<Rightarrow> ptr \<Rightarrow> ptr \<Rightarrow> nat \<Rightarrow> mem" where
  "memcpy m d s 0 = m"
| "memcpy m d s (Suc n) = memcpy (m(d := m s)) (d + 1) (s + 1) n"

fun copy_down :: "mem \<Rightarrow> ptr \<Rightarrow> ptr \<Rightarrow> nat \<Rightarrow> mem" where
  "copy_down m d s 0 = m"
| "copy_down m d s (Suc n) = copy_down (m(d - 1 := m (s - 1))) (d - 1) (s - 1) n"

definition memmove :: "mem \<Rightarrow> ptr \<Rightarrow> ptr \<Rightarrow> nat \<Rightarrow> mem" where
  "memmove m d s n =
     (if d = s \<or> n = 0 then m
      else if d < s then memcpy m d s n
      else copy_down m (d + n) (s + n) n)"

fun memset_loop :: "mem \<Rightarrow> ptr \<Rightarrow> u8 \<Rightarrow> nat \<Rightarrow> mem" where
  "memset_loop m d v 0 = m"
| "memset_loop m d v (Suc n) = memset_loop (m(d := v)) (d + 1) v n"

definition memset :: "mem \<Rightarrow> ptr \<Rightarrow> int \<Rightarrow> nat \<Rightarrow> mem" where
  "memset m d c n = memset_loop m d (word_of_int c) n"

fun memcmp :: "mem \<Rightarrow> ptr \<Rightarrow> ptr \<Rightarrow> nat \<Rightarrow> int" where
  "memcmp m p q 0 = 0"
| "memcmp m p q (Suc n) = (if m p \<noteq> m q then uint (m p) - uint (m q) else memcmp m (p + 1) (q + 1) n)"

partial_function (option) strlen_loop :: "mem \<Rightarrow> ptr \<Rightarrow> ptr option" where
  "strlen_loop m p = (if m p \<noteq> 0 then strlen_loop m (p + 1) else Some p)"

definition strlen :: "mem \<Rightarrow> ptr \<Rightarrow> nat option" where
  "strlen m s = do { p \<leftarrow> strlen_loop m s; Some (p - s) }"

function strnlen_loop :: "mem \<Rightarrow> ptr \<Rightarrow> nat \<Rightarrow> nat \<Rightarrow> nat" where
  "strnlen_loop m s maxlen i = (if i < maxlen \<and> m (s + i) \<noteq> 0 then strnlen_loop m s maxlen (i + 1) else i)"
  by auto
termination by (relation "measure (\<lambda>(m, s, maxlen, i). maxlen - i)") auto

declare strnlen_loop.simps [simp del]

definition strnlen :: "mem \<Rightarrow> ptr \<Rightarrow> nat \<Rightarrow> nat" where
  "strnlen m s maxlen = strnlen_loop m s maxlen 0"

partial_function (option) strcmp :: "mem \<Rightarrow> ptr \<Rightarrow> ptr \<Rightarrow> int option" where
  "strcmp m a b = (if m a \<noteq> 0 \<and> m a = m b then strcmp m (a + 1) (b + 1) else Some (uint (m a) - uint (m b)))"

fun strncmp :: "mem \<Rightarrow> ptr \<Rightarrow> ptr \<Rightarrow> nat \<Rightarrow> int" where
  "strncmp m a b 0 = 0"
| "strncmp m a b (Suc n) =
     (if m a \<noteq> 0 \<and> m a = m b then strncmp m (a + 1) (b + 1) n else uint (m a) - uint (m b))"

text \<open>\<open>NULL\<close> is the result when the byte does not occur before the end of the string.\<close>

partial_function (option) strchr :: "mem \<Rightarrow> ptr \<Rightarrow> u8 \<Rightarrow> ptr option" where
  "strchr m s ch = (if m s = ch then Some s else if m s = 0 then Some NULL else strchr m (s + 1) ch)"

section \<open>Copying and filling\<close>

lemma memcpy_result:
  assumes "d \<le> s \<or> s + n \<le> d"
  shows "memcpy m d s n x = (if d \<le> x \<and> x < d + n then m (s + (x - d)) else m x)"
  using assms
proof (induction m d s n rule: memcpy.induct)
  case (2 m d s n)
  have "d + 1 \<le> s + 1 \<or> s + 1 + n \<le> d + 1" using 2(2) by linarith
  note IH = 2(1) [OF this]
  show ?case
  proof (cases "d + 1 \<le> x \<and> x < d + 1 + n")
    case True
    then have "s + 1 + (x - (d + 1)) = s + (x - d)" "s + (x - d) \<noteq> d" using 2(2) by linarith+
    then show ?thesis unfolding memcpy.simps IH using True by simp
  next
    case False
    then show ?thesis unfolding memcpy.simps IH by auto
  qed
qed auto

lemma copy_down_result:
  assumes "s \<le> d"
  shows "copy_down m (d + n) (s + n) n x = (if d \<le> x \<and> x < d + n then m (s + (x - d)) else m x)"
proof (induction n arbitrary: m)
  case (Suc n)
  have "copy_down m (d + Suc n) (s + Suc n) (Suc n) = copy_down (m(d + n := m (s + n))) (d + n) (s + n) n" by simp
  then have e: "copy_down m (d + Suc n) (s + Suc n) (Suc n) x = (if d \<le> x \<and> x < d + n
      then (m(d + n := m (s + n))) (s + (x - d)) else (m(d + n := m (s + n))) x)"
    by (simp only: Suc)
  have "d \<le> x \<and> x < d + n \<Longrightarrow> s + (x - d) \<noteq> d + n" using assms by linarith
  moreover have "x = d + n \<Longrightarrow> s + (x - d) = s + n" by simp
  ultimately show ?case unfolding e using less_Suc_eq [of x "d + n"] by auto
qed auto

lemma memset_loop_result: "memset_loop m d v n x = (if d \<le> x \<and> x < d + n then v else m x)"
  by (induction n arbitrary: m d) auto

lemma memset_result: "memset m d c n x = (if d \<le> x \<and> x < d + n then word_of_int c else m x)"
  by (simp add: memset_def memset_loop_result)

section \<open>Comparing\<close>

lemma memcmp_zero: "memcmp m p q n = 0 \<longleftrightarrow> (\<forall>i<n. m (p + i) = m (q + i))"
proof (induction m p q n rule: memcmp.induct)
  case (2 m p q n)
  have "uint (m p) = uint (m q) \<longleftrightarrow> m p = m q" by (simp add: word_uint_eq_iff)
  with 2 show ?case by (auto simp: All_less_Suc2)
qed simp

text \<open>A string in memory: its bytes, none of them zero, and the zero that ends it.\<close>

definition cstr :: "mem \<Rightarrow> ptr \<Rightarrow> u8 list \<Rightarrow> bool" where
  "cstr m p xs \<longleftrightarrow> 0 \<notin> set xs \<and> (\<forall>i<length xs. m (p + i) = xs ! i) \<and> m (p + length xs) = 0"

lemma cstr_Nil [simp]: "cstr m p [] \<longleftrightarrow> m p = 0"
  by (simp add: cstr_def)

lemma cstr_Cons [simp]: "cstr m p (x # xs) \<longleftrightarrow> x \<noteq> 0 \<and> m p = x \<and> cstr m (p + 1) xs"
  by (auto simp: cstr_def All_less_Suc2)

lemma strlen_loop_result: "cstr m p xs \<Longrightarrow> strlen_loop m p = Some (p + length xs)"
  by (induction xs arbitrary: p) (subst strlen_loop.simps; simp)+

lemma strlen_result: "cstr m p xs \<Longrightarrow> strlen m p = Some (length xs)"
  by (simp add: strlen_def strlen_loop_result)

lemma strnlen_loop_result: "cstr m p xs \<Longrightarrow> i \<le> min k (length xs) \<Longrightarrow> strnlen_loop m p k i = min k (length xs)"
proof (induction "length xs - i" arbitrary: i)
  case 0
  then show ?case by (subst strnlen_loop.simps) (auto simp: cstr_def)
next
  case (Suc n)
  show ?case
  proof (cases "i < k")
    case True
    then have "m (p + i) \<noteq> 0" using Suc(2,3) by (metis cstr_def nth_mem zero_less_Suc zero_less_diff)
    then show ?thesis using Suc True by (subst strnlen_loop.simps) simp
  next
    case False
    then show ?thesis using Suc(4) by (subst strnlen_loop.simps) simp
  qed
qed

lemma strnlen_result: "cstr m p xs \<Longrightarrow> strnlen m p k = min k (length xs)"
  by (simp add: strnlen_def strnlen_loop_result)

text \<open>The order of strings as the byte order of their first difference, a prefix coming first.\<close>

fun str_diff :: "u8 list \<Rightarrow> u8 list \<Rightarrow> int" where
  "str_diff [] [] = 0"
| "str_diff [] (y # ys) = - uint y"
| "str_diff (x # xs) [] = uint x"
| "str_diff (x # xs) (y # ys) = (if x = y then str_diff xs ys else uint x - uint y)"

lemma str_diff_zero: "0 \<notin> set xs \<Longrightarrow> 0 \<notin> set ys \<Longrightarrow> str_diff xs ys = 0 \<longleftrightarrow> xs = ys"
  by (induction xs ys rule: str_diff.induct) (auto simp: uint_0_iff simp flip: word_uint_eq_iff)

lemma str_diff_flip: "str_diff ys xs = - str_diff xs ys"
  by (induction xs ys rule: str_diff.induct) auto

lemma strcmp_result: "cstr m a xs \<Longrightarrow> cstr m b ys \<Longrightarrow> strcmp m a b = Some (str_diff xs ys)"
proof (induction xs ys arbitrary: a b rule: str_diff.induct)
  case (4 x xs y ys)
  then show ?case by (subst strcmp.simps) auto
qed (subst strcmp.simps; auto)+

lemma strncmp_result: "cstr m a xs \<Longrightarrow> cstr m b ys \<Longrightarrow> strncmp m a b n = str_diff (take n xs) (take n ys)"
proof (induction m a b n arbitrary: xs ys rule: strncmp.induct)
  case (2 m a b n)
  then show ?case by (cases xs; cases ys) auto
qed simp

lemma strchr_result:
  "cstr m p xs \<Longrightarrow> c \<noteq> 0 \<Longrightarrow>
   strchr m p c = Some (if c \<in> set xs then p + length (takeWhile (\<lambda>x. x \<noteq> c) xs) else NULL)"
proof (induction xs arbitrary: p)
  case Nil
  then show ?case by (subst strchr.simps) simp
next
  case (Cons x xs)
  then show ?case by (subst strchr.simps) auto
qed

lemma str_diff_neg: "0 \<notin> set ys \<Longrightarrow> str_diff xs ys < 0 \<longleftrightarrow> (xs, ys) \<in> lexord {(x, y). x < y}"
proof (induction xs ys rule: str_diff.induct)
  case (2 y ys)
  then have "0 < uint y" by (simp add: uint_0_iff order_less_le)
  then show ?case by simp
next
  case (3 x xs)
  have "0 \<le> uint x" by simp
  then show ?case by (simp del: uint_bounded)
next
  case (4 x xs y ys)
  then show ?case by (auto simp: word_less_def)
qed simp

section \<open>Properties\<close>

text \<open>
  C34. \<^verbatim>\<open>memmove\<close> gives every byte of the destination the value the corresponding source byte had
  before the call and changes no other byte, whatever way the two ranges overlap.
\<close>

theorem memmove_correct:
  "memmove m d s n = (\<lambda>x. if d \<le> x \<and> x < d + n then m (s + (x - d)) else m x)"
proof
  fix x
  consider "d = s \<or> n = 0" | "d < s" "n \<noteq> 0" | "s < d" "n \<noteq> 0" by linarith
  then show "memmove m d s n x = (if d \<le> x \<and> x < d + n then m (s + (x - d)) else m x)"
  proof cases
    case 2
    then show ?thesis using memcpy_result [of d s n m x] by (simp add: memmove_def)
  next
    case 3
    then show ?thesis using copy_down_result [of s d m n x] by (simp add: memmove_def)
  qed (auto simp: memmove_def)
qed

text \<open>
  C35. On two terminated strings \<^verbatim>\<open>strcmp\<close> returns: zero exactly when they are equal, a negative
  number exactly when the first comes before the second in the order of unsigned bytes, and the
  opposite number with the arguments exchanged. Cut off at the length \<^verbatim>\<open>strncmp\<close> compares, the same
  holds of \<^verbatim>\<open>strncmp\<close>.
\<close>

theorem strcmp_correct:
  assumes "cstr m a xs" "cstr m b ys"
  shows "\<exists>r. strcmp m a b = Some r \<and> strcmp m b a = Some (- r) \<and> (r = 0 \<longleftrightarrow> xs = ys) \<and>
    (r < 0 \<longleftrightarrow> (xs, ys) \<in> lexord {(x, y). x < y}) \<and>
    (strncmp m a b n = 0 \<longleftrightarrow> take n xs = take n ys) \<and>
    (strncmp m a b n < 0 \<longleftrightarrow> (take n xs, take n ys) \<in> lexord {(x, y). x < y})"
proof -
  have z: "0 \<notin> set xs" "0 \<notin> set ys" "0 \<notin> set (take n xs)" "0 \<notin> set (take n ys)"
    using assms by (auto simp: cstr_def dest: in_set_takeD)
  show ?thesis
    using strcmp_result [OF assms] strcmp_result [OF assms(2,1)] strncmp_result [OF assms, of n]
      str_diff_flip [of ys xs] str_diff_zero z str_diff_neg z
    by simp
qed

text \<open>Two strings in one memory: \<open>ab\<close> at 10 and \<open>ac\<close> at 20.\<close>

definition str_sample :: mem where
  "str_sample = (\<lambda>_. 0)(10 := 97, 11 := 98, 20 := 97, 21 := 99)"

theorem strcmp_correct_witness:
  "\<exists>r. strcmp str_sample 10 20 = Some r \<and> r < 0 \<and> strncmp str_sample 10 20 1 = 0"
proof -
  have "cstr str_sample 10 [97, 98]" "cstr str_sample 20 [97, 99]" by (simp_all add: str_sample_def)
  from strcmp_correct [OF this, of 1] show ?thesis by auto
qed

end
