(* ===== verification/Initramfs.thy ===== *)
theory Initramfs
  imports Kstring
begin

text \<open>
  The boot file system: the cpio parser \<^verbatim>\<open>kernel/initramfs/cpio_newc.c\<close> and the lookup on top of it,
  \<^verbatim>\<open>kernel/initramfs/initramfs.c\<close>. Sizes and offsets are natural numbers below \<open>2\<^sup>6\<^sup>4\<close> with the
  wrap-around of \<^verbatim>\<open>size_t\<close> written out; a pointer into the archive is the address in memory.
\<close>

section \<open>The parser\<close>

definition CPIO_NEWC_MAGIC :: "u8 list" where "CPIO_NEWC_MAGIC = [48, 55, 48, 55, 48, 49]"
definition CPIO_NEWC_HEADER_SIZE :: nat where "CPIO_NEWC_HEADER_SIZE = 110"
definition CPIO_NEWC_TRAILER :: "u8 list" where
  "CPIO_NEWC_TRAILER = [84, 82, 65, 73, 76, 69, 82, 33, 33, 33]"

record cpio_newc_entry =
  e_name :: ptr
  e_name_len :: nat
  e_data :: ptr
  e_data_len :: nat
  e_mode :: u32
  e_next_off :: nat

definition no_entry :: cpio_newc_entry where
  "no_entry = \<lparr>e_name = 0, e_name_len = 0, e_data = 0, e_data_len = 0, e_mode = 0, e_next_off = 0\<rparr>"

definition size_add :: "nat \<Rightarrow> nat \<Rightarrow> nat" where
  "size_add a b = (a + b) mod 2 ^ 64"

definition align4 :: "nat \<Rightarrow> nat" where
  "align4 v = (let w = size_add v 3 in w - w mod 4)"

text \<open>\<open>None\<close> is \<^verbatim>\<open>-ERANGE\<close>.\<close>

definition checked_add :: "nat \<Rightarrow> nat \<Rightarrow> nat option" where
  "checked_add a b = (let v = size_add a b in if v < a then None else Some v)"

definition hexval :: "u8 \<Rightarrow> int" where
  "hexval c =
     (if 48 \<le> c \<and> c \<le> 57 then uint c - 48
      else if 97 \<le> c \<and> c \<le> 102 then uint c - 97 + 10
      else if 65 \<le> c \<and> c \<le> 70 then uint c - 65 + 10
      else - 1)"

fun parse_hex_loop :: "mem \<Rightarrow> ptr \<Rightarrow> nat \<Rightarrow> u32 \<Rightarrow> u32 option" where
  "parse_hex_loop m p 0 v = Some v"
| "parse_hex_loop m p (Suc k) v =
     (let n = hexval (m p) in
      if n < 0 then None else parse_hex_loop m (p + 1) k (push_bit 4 v OR of_int n))"

text \<open>\<open>None\<close> is \<^verbatim>\<open>-EINVAL\<close>.\<close>

definition parse_hex8 :: "mem \<Rightarrow> ptr \<Rightarrow> u32 option" where
  "parse_hex8 m p = parse_hex_loop m p 8 0"

text \<open>\<^verbatim>\<open>memcmp\<close> with a constant.\<close>

fun memcmp_lit :: "mem \<Rightarrow> ptr \<Rightarrow> u8 list \<Rightarrow> int" where
  "memcmp_lit m p [] = 0"
| "memcmp_lit m p (c # cs) = (if m p \<noteq> c then uint (m p) - uint c else memcmp_lit m (p + 1) cs)"

definition cpio_entry_at :: "mem \<Rightarrow> ptr \<Rightarrow> nat \<Rightarrow> nat \<Rightarrow> u32 \<Rightarrow> nat \<Rightarrow> nat \<Rightarrow> int \<times> cpio_newc_entry" where
  "cpio_entry_at m base archive_len off mode namesize filesize =
     (case checked_add off CPIO_NEWC_HEADER_SIZE of None \<Rightarrow> (- ERANGE, no_entry) | Some name_off \<Rightarrow>
      case checked_add name_off namesize of None \<Rightarrow> (- ERANGE, no_entry) | Some data_off \<Rightarrow>
      if archive_len < data_off then (- EINVAL, no_entry)
      else if m (base + (data_off - 1)) \<noteq> 0 then (- EINVAL, no_entry)
      else let data_off = align4 data_off in
      case checked_add data_off filesize of None \<Rightarrow> (- ERANGE, no_entry) | Some next_off \<Rightarrow>
      if archive_len < next_off then (- EINVAL, no_entry)
      else let next_off = align4 next_off in
      if archive_len < next_off then (- EINVAL, no_entry)
      else
        let e = \<lparr>e_name = base + name_off, e_name_len = namesize - 1, e_data = base + data_off,
                 e_data_len = filesize, e_mode = mode, e_next_off = next_off\<rparr>
        in if e_name_len e = length CPIO_NEWC_TRAILER \<and> memcmp_lit m (e_name e) CPIO_NEWC_TRAILER = 0
           then (0, e) else (1, e))"

definition cpio_newc_next :: "mem \<Rightarrow> ptr \<Rightarrow> nat \<Rightarrow> nat \<Rightarrow> int \<times> cpio_newc_entry" where
  "cpio_newc_next m base archive_len off =
     (if base = NULL then (- EINVAL, no_entry)
      else if archive_len \<le> off then (0, no_entry)
      else if archive_len - off < CPIO_NEWC_HEADER_SIZE then (- EINVAL, no_entry)
      else
        let hdr = base + off in
        if memcmp_lit m hdr CPIO_NEWC_MAGIC \<noteq> 0 then (- EINVAL, no_entry)
        else
          case parse_hex8 m (hdr + 14) of None \<Rightarrow> (- EINVAL, no_entry) | Some mode \<Rightarrow>
          case parse_hex8 m (hdr + 54) of None \<Rightarrow> (- EINVAL, no_entry) | Some filesize \<Rightarrow>
          case parse_hex8 m (hdr + 94) of None \<Rightarrow> (- EINVAL, no_entry) | Some namesize \<Rightarrow>
          if namesize = 0 then (- EINVAL, no_entry)
          else cpio_entry_at m base archive_len off mode (unat namesize) (unat filesize))"

section \<open>The file system\<close>

record initrd_state =
  initrd_base :: ptr
  initrd_len :: nat
  initrd_ready :: bool

record initramfs_file =
  if_name :: ptr
  if_name_len :: nat
  if_data :: ptr
  if_size :: nat
  if_mode :: u32

partial_function (option) skip_slash :: "mem \<Rightarrow> ptr \<Rightarrow> ptr option" where
  "skip_slash m path = (if m path = 47 then skip_slash m (path + 1) else Some path)"

definition path_match :: "mem \<Rightarrow> cpio_newc_entry \<Rightarrow> ptr \<Rightarrow> bool option" where
  "path_match m e path =
     do {
       path \<leftarrow> skip_slash m path;
       n \<leftarrow> strlen m path;
       Some (n = e_name_len e \<and> memcmp m path (e_name e) (e_name_len e) = 0)
     }"

text \<open>The scan of the whole archive at boot; the result is the return code and the number of files.\<close>

partial_function (option) init_scan :: "mem \<Rightarrow> ptr \<Rightarrow> nat \<Rightarrow> nat \<Rightarrow> nat \<Rightarrow> (int \<times> nat) option" where
  "init_scan m base len off files =
     (let (err, e) = cpio_newc_next m base len off in
      if err < 0 then Some (err, files)
      else if err = 0 then Some (0, files)
      else init_scan m base len (e_next_off e) (files + 1))"

definition initramfs_init :: "mem \<Rightarrow> initrd_state \<Rightarrow> ptr \<Rightarrow> nat \<Rightarrow> (int \<times> initrd_state) option" where
  "initramfs_init m s base len =
     (if base = NULL \<or> len = 0 then Some (- EINVAL, s)
      else
        let s = \<lparr>initrd_base = base, initrd_len = len, initrd_ready = False\<rparr> in
        do {
          (err, files) \<leftarrow> init_scan m base len 0 0;
          if err < 0 then Some (err, s) else Some (0, s\<lparr>initrd_ready := True\<rparr>)
        })"

partial_function (option) lookup_scan ::
  "mem \<Rightarrow> ptr \<Rightarrow> nat \<Rightarrow> nat \<Rightarrow> ptr \<Rightarrow> (int \<times> cpio_newc_entry) option" where
  "lookup_scan m base len off path =
     (let (err, e) = cpio_newc_next m base len off in
      if 0 < err then
        do {
          hit \<leftarrow> path_match m e path;
          if hit then Some (1, e) else lookup_scan m base len (e_next_off e) path
        }
      else Some (err, e))"

definition initramfs_lookup :: "mem \<Rightarrow> initrd_state \<Rightarrow> ptr \<Rightarrow> (int \<times> initramfs_file option) option" where
  "initramfs_lookup m s path =
     (if \<not> initrd_ready s then Some (- ENODEV, None)
      else if path = NULL then Some (- EINVAL, None)
      else do {
        (err, e) \<leftarrow> lookup_scan m (initrd_base s) (initrd_len s) 0 path;
        if 0 < err then
          Some (0, Some \<lparr>if_name = e_name e, if_name_len = e_name_len e, if_data = e_data e,
                         if_size = e_data_len e, if_mode = e_mode e\<rparr>)
        else if err < 0 then Some (err, None)
        else Some (- ENOENT, None)
      })"

text \<open>The result is the number of bytes read and the memory after the copy into \<open>buf\<close>.\<close>

definition initramfs_read_at :: "mem \<Rightarrow> initramfs_file \<Rightarrow> nat \<Rightarrow> ptr \<Rightarrow> nat \<Rightarrow> int \<times> mem" where
  "initramfs_read_at m file off buf len =
     (if buf = NULL then (- EINVAL, m)
      else if if_size file \<le> off then (0, m)
      else
        let avail = if_size file - off;
            len = (if avail < len then avail else len)
        in (int len, memcpy m buf (if_data file + off) len))"

section \<open>Bounds\<close>

text \<open>An archive that fits in the address space, with room to round its length up.\<close>

definition fits :: "nat \<Rightarrow> bool" where
  "fits len \<longleftrightarrow> len + 3 < 2 ^ 64"

lemma align4_eq: "v + 3 < 2 ^ 64 \<Longrightarrow> align4 v = (v + 3) div 4 * 4"
  by (simp add: align4_def size_add_def Let_def minus_mod_eq_div_mult [symmetric])

lemma align4_bounds:
  assumes "v + 3 < 2 ^ 64"
  shows "v \<le> align4 v" "align4 v < v + 4" "4 dvd align4 v"
  using align4_eq [OF assms] by auto

lemma checked_add_Some: "a < 2 ^ 64 \<Longrightarrow> b < 2 ^ 64 \<Longrightarrow> checked_add a b = Some v \<longleftrightarrow> a + b < 2 ^ 64 \<and> v = a + b"
proof -
  assume "a < 2 ^ 64" "b < 2 ^ 64"
  then have "\<not> a + b < 2 ^ 64 \<Longrightarrow> (a + b) mod 2 ^ 64 = a + b - 2 ^ 64" by (simp add: mod_if)
  then show ?thesis using \<open>a < 2 ^ 64\<close> \<open>b < 2 ^ 64\<close>
    by (cases "a + b < 2 ^ 64") (auto simp: checked_add_def size_add_def Let_def)
qed

lemma trailer_length [simp]: "length CPIO_NEWC_TRAILER = 10"
  by (simp add: CPIO_NEWC_TRAILER_def)

lemma cpio_entry_at_bounds:
  assumes fit: "fits len" and off: "off < len" "0 < namesize" "namesize < 2 ^ 32" "filesize < 2 ^ 32"
    and r: "cpio_entry_at m base len off mode namesize filesize = (r, e)" "0 \<le> r"
  shows "e_name e = base + off + 110 \<and> e_name_len e = namesize - 1 \<and> e_data_len e = filesize \<and> e_mode e = mode \<and>
    e_name e + e_name_len e < e_data e \<and> e_data e + e_data_len e \<le> base + e_next_off e \<and> e_next_off e \<le> len \<and>
    m (e_name e + e_name_len e) = 0 \<and> e_data e = base + align4 (off + 110 + namesize) \<and>
    e_next_off e = align4 (align4 (off + 110 + namesize) + filesize) \<and>
    (r = 0 \<longleftrightarrow> namesize - 1 = 10 \<and> memcmp_lit m (base + off + 110) CPIO_NEWC_TRAILER = 0) \<and> r \<le> 1"
proof -
  have len: "len + 3 < 2 ^ 64" using fit by (simp add: fits_def)
  have er: "\<not> (0 :: int) \<le> - ERANGE" "\<not> (0 :: int) \<le> - EINVAL" by (simp_all add: ERANGE_def EINVAL_def)
  have o64: "off < 2 ^ 64" "(110 :: nat) < 2 ^ 64" "namesize < 2 ^ 64" "filesize < 2 ^ 64" using off len by simp_all
  have a1: "checked_add off CPIO_NEWC_HEADER_SIZE = Some (off + 110)"
  proof (rule ccontr)
    assume "\<not> ?thesis"
    then have "checked_add off CPIO_NEWC_HEADER_SIZE = None"
      using checked_add_Some [OF o64(1,2)] by (cases "checked_add off 110") (auto simp: CPIO_NEWC_HEADER_SIZE_def)
    then show False using r er by (auto simp: cpio_entry_at_def)
  qed
  then have s1: "off + 110 < 2 ^ 64" using checked_add_Some [OF o64(1,2)] by (simp add: CPIO_NEWC_HEADER_SIZE_def)
  let ?d = "off + 110 + namesize"
  have a2: "checked_add (off + 110) namesize = Some ?d"
  proof (rule ccontr)
    assume "\<not> ?thesis"
    then have "checked_add (off + 110) namesize = None"
      using checked_add_Some [OF s1 o64(3)] by (cases "checked_add (off + 110) namesize") auto
    then show False using r er a1 by (auto simp: cpio_entry_at_def)
  qed
  have d: "?d \<le> len" "m (base + (?d - 1)) = 0"
    using r er a1 a2 by (auto simp: cpio_entry_at_def split: if_splits)
  note al = align4_bounds [of ?d]
  have ad: "align4 ?d < 2 ^ 64" using al d len by linarith
  let ?n = "align4 ?d + filesize"
  have a3: "checked_add (align4 ?d) filesize = Some ?n"
  proof (rule ccontr)
    assume "\<not> ?thesis"
    then have "checked_add (align4 ?d) filesize = None"
      using checked_add_Some [OF ad o64(4)] by (cases "checked_add (align4 ?d) filesize") auto
    then show False using r er a1 a2 d by (auto simp: cpio_entry_at_def Let_def)
  qed
  have n: "?n \<le> len" "align4 ?n \<le> len"
    using r er a1 a2 a3 d by (auto simp: cpio_entry_at_def Let_def split: if_splits)
  note al2 = align4_bounds [of ?n]
  have "(r, e) = (if namesize - 1 = 10 \<and> memcmp_lit m (base + (off + 110)) CPIO_NEWC_TRAILER = 0 then 0 else 1,
      \<lparr>e_name = base + (off + 110), e_name_len = namesize - 1, e_data = base + align4 ?d,
       e_data_len = filesize, e_mode = mode, e_next_off = align4 ?n\<rparr>)"
    using r(1) a1 a2 a3 d n by (auto simp: cpio_entry_at_def Let_def split: if_splits)
  moreover have "base + (off + 110) + (namesize - 1) = base + (?d - 1)" using off(2) by simp
  moreover have "base + (?d - 1) < base + align4 ?d" using al(1) d len off(2) by linarith
  moreover have "?n \<le> align4 ?n" using al2(1) n len by linarith
  ultimately show ?thesis using d n by (auto simp: ac_simps)
qed

lemma cpio_next_bounds:
  assumes fit: "fits len" and r: "cpio_newc_next m base len off = (r, e)" "0 < r"
  shows "r = 1 \<and> off < len \<and> base + off + 110 = e_name e \<and> e_name e + e_name_len e < e_data e \<and>
    e_data e + e_data_len e \<le> base + e_next_off e \<and> e_next_off e \<le> len \<and> off < e_next_off e \<and>
    m (e_name e + e_name_len e) = 0"
proof -
  have er: "\<not> (0 :: int) < - ERANGE" "\<not> (0 :: int) < - EINVAL" by (simp_all add: ERANGE_def EINVAL_def)
  obtain mode fs ns where h: "off < len" "(ns :: u32) \<noteq> 0"
    "cpio_entry_at m base len off mode (unat ns) (unat (fs :: u32)) = (r, e)"
    using r er by (auto simp: cpio_newc_next_def Let_def split: if_splits option.splits)
  have "unat ns < 2 ^ 32" "unat fs < 2 ^ 32" using unsigned_less [of ns] unsigned_less [of fs] by simp_all
  moreover have "0 < unat ns" using h(2) by (simp add: unat_gt_0)
  ultimately show ?thesis
    using cpio_entry_at_bounds [OF fit h(1) _ _ _ h(3)] r(2) h(1) by auto
qed

section \<open>The scans return\<close>

lemma init_scan_returns:
  assumes fit: "fits len"
  shows "\<exists>r n. init_scan m base len off k = Some (r, n) \<and> r \<le> 0"
proof (induction "len - off" arbitrary: off k rule: less_induct)
  case less
  obtain r e where n: "cpio_newc_next m base len off = (r, e)" by fastforce
  show ?case
  proof (cases "0 < r")
    case True
    note b = cpio_next_bounds [OF fit n True]
    then have "len - e_next_off e < len - off" by linarith
    then show ?thesis using less [of "e_next_off e" "k + 1"] n True by (subst init_scan.simps) simp
  next
    case False
    then show ?thesis using n by (subst init_scan.simps) (cases "r = 0"; simp)
  qed
qed

lemma skip_slash_result: "cstr m p xs \<Longrightarrow> skip_slash m p = Some (p + length (takeWhile (\<lambda>c. c = 47) xs)) \<and>
    cstr m (p + length (takeWhile (\<lambda>c. c = 47) xs)) (dropWhile (\<lambda>c. c = 47) xs)"
proof (induction xs arbitrary: p)
  case Nil
  then show ?case by (subst skip_slash.simps) simp
next
  case (Cons x xs)
  show ?case using Cons(1) [of "p + 1"] Cons(2) by (subst skip_slash.simps) auto
qed

text \<open>The bytes at an address.\<close>

definition holds :: "mem \<Rightarrow> ptr \<Rightarrow> u8 list \<Rightarrow> bool" where
  "holds m p xs \<longleftrightarrow> (\<forall>i<length xs. m (p + i) = xs ! i)"

lemma holds_simps [simp]: "holds m p []" "holds m p (x # xs) \<longleftrightarrow> m p = x \<and> holds m (p + 1) xs"
  by (auto simp: holds_def All_less_Suc2)

lemma holds_append: "holds m p (xs @ ys) \<longleftrightarrow> holds m p xs \<and> holds m (p + length xs) ys"
  by (induction xs arbitrary: p) auto

lemma holds_inj: "holds m p xs \<Longrightarrow> holds m p ys \<Longrightarrow> length xs = length ys \<Longrightarrow> xs = ys"
  by (auto simp: holds_def intro: nth_equalityI)

lemma memcmp_lit_zero: "memcmp_lit m p xs = 0 \<longleftrightarrow> holds m p xs"
  by (induction m p xs rule: memcmp_lit.induct) (auto simp flip: word_uint_eq_iff)

text \<open>A path names a file when the path without its leading slashes is the file's name.\<close>

lemma path_match_result:
  assumes "cstr m path xs" "holds m (e_name e) ns" "e_name_len e = length ns"
  shows "path_match m e path = Some (dropWhile (\<lambda>c. c = 47) xs = ns)"
proof -
  let ?q = "path + length (takeWhile (\<lambda>c. c = 47) xs)" and ?d = "dropWhile (\<lambda>c. c = 47) xs"
  have s: "skip_slash m path = Some ?q" "cstr m ?q ?d" using skip_slash_result [OF assms(1)] by simp_all
  then have l: "strlen m ?q = Some (length ?d)" by (simp add: strlen_result)
  have "holds m ?q ?d" using s(2) by (simp add: cstr_def holds_def)
  then have "length ?d = length ns \<Longrightarrow> memcmp m ?q (e_name e) (length ns) = 0 \<longleftrightarrow> ?d = ns"
    using assms(2) unfolding memcmp_zero holds_def by (metis nth_equalityI)
  then show ?thesis using s l assms(3) by (auto simp: path_match_def)
qed

lemma lookup_scan_returns:
  assumes fit: "fits len" and path: "cstr m path xs"
  shows "\<exists>r e. lookup_scan m base len off path = Some (r, e) \<and> r \<le> 1"
proof (induction "len - off" arbitrary: off rule: less_induct)
  case less
  obtain r e where n: "cpio_newc_next m base len off = (r, e)" by fastforce
  show ?case
  proof (cases "0 < r")
    case True
    note b = cpio_next_bounds [OF fit n True]
    define ns where "ns = map (\<lambda>i. m (e_name e + i)) [0..<e_name_len e]"
    have "holds m (e_name e) ns" "e_name_len e = length ns" by (simp_all add: holds_def ns_def)
    note pm = path_match_result [OF path this]
    have "len - e_next_off e < len - off" using b by linarith
    then show ?thesis using less [of "e_next_off e"] n True pm by (subst lookup_scan.simps) simp
  next
    case False
    then show ?thesis using n by (subst lookup_scan.simps) simp
  qed
qed

section \<open>Archives\<close>

text \<open>
  The newc format as its documentation describes it: eight upper-case hexadecimal digits per
  number, a header of 110 bytes, the name with its zero byte, and padding to a multiple of four
  before and after the contents. The header fields the kernel ignores are arbitrary.
\<close>

definition hexdigit :: "nat \<Rightarrow> u8" where
  "hexdigit d = of_nat (if d < 10 then 48 + d else 55 + d)"

definition hexn :: "nat \<Rightarrow> u32 \<Rightarrow> u8 list" where
  "hexn k v = map (\<lambda>i. hexdigit (unat (drop_bit (4 * i) v AND 15))) (rev [0..<k])"

record cpio_file =
  cf_name :: "u8 list"
  cf_data :: "u8 list"
  cf_mode :: u32

definition pad4 :: "nat \<Rightarrow> nat" where
  "pad4 n = (n + 3) div 4 * 4"

definition data_at :: "nat \<Rightarrow> cpio_file \<Rightarrow> nat" where
  "data_at off f = pad4 (off + 110 + length (cf_name f) + 1)"

definition member_end :: "nat \<Rightarrow> cpio_file \<Rightarrow> nat" where
  "member_end off f = pad4 (data_at off f + length (cf_data f))"

definition member_at :: "mem \<Rightarrow> ptr \<Rightarrow> nat \<Rightarrow> cpio_file \<Rightarrow> bool" where
  "member_at m base off f \<longleftrightarrow> length (cf_name f) + 1 < 2 ^ 32 \<and> length (cf_data f) < 2 ^ 32 \<and>
     holds m (base + off) CPIO_NEWC_MAGIC \<and> holds m (base + off + 14) (hexn 8 (cf_mode f)) \<and>
     holds m (base + off + 54) (hexn 8 (of_nat (length (cf_data f)))) \<and>
     holds m (base + off + 94) (hexn 8 (of_nat (length (cf_name f) + 1))) \<and>
     holds m (base + off + 110) (cf_name f @ [0]) \<and> holds m (base + data_at off f) (cf_data f)"

fun archive_at :: "mem \<Rightarrow> ptr \<Rightarrow> nat \<Rightarrow> nat \<Rightarrow> cpio_file list \<Rightarrow> bool" where
  "archive_at m base len off [] \<longleftrightarrow> (\<exists>t. cf_name t = CPIO_NEWC_TRAILER \<and> member_at m base off t \<and> member_end off t \<le> len)"
| "archive_at m base len off (f # fs) \<longleftrightarrow> cf_name f \<noteq> CPIO_NEWC_TRAILER \<and> member_at m base off f \<and>
     member_end off f \<le> len \<and> archive_at m base len (member_end off f) fs"

lemma hexval_digit: "d < 16 \<Longrightarrow> hexval (hexdigit d) = int d"
proof -
  assume d: "d < 16"
  then have "unat (hexdigit d) = (if d < 10 then 48 + d else 55 + d)"
    by (simp add: hexdigit_def unsigned_of_nat take_bit_nat_eq_self)
  then have "uint (hexdigit d) = int (if d < 10 then 48 + d else 55 + d)" by (simp add: uint_nat)
  then show ?thesis using d by (auto simp: hexval_def word_le_def)
qed

lemma nibble_step: "push_bit 4 (drop_bit (4 * Suc k) v) OR (drop_bit (4 * k) v AND 15) = drop_bit (4 * k) (v :: u32)"
proof (rule bit_word_eqI)
  fix n :: nat assume "n < LENGTH(32)"
  have m: "(15 :: u32) = mask 4" by (simp add: mask_eq_exp_minus_1)
  show "bit (push_bit 4 (drop_bit (4 * Suc k) v) OR (drop_bit (4 * k) v AND 15)) n = bit (drop_bit (4 * k) v) n"
    using \<open>n < LENGTH(32)\<close> unfolding m by (cases "n < 4") (auto simp: bit_simps)
qed

lemma parse_hexn: "holds m p (hexn k v) \<Longrightarrow> parse_hex_loop m p k (drop_bit (4 * k) v) = Some v"
proof (induction k arbitrary: p)
  case (Suc k)
  let ?d = "unat (drop_bit (4 * k) v AND 15)"
  have "drop_bit (4 * k) v AND 15 = take_bit 4 (drop_bit (4 * k) v)"
    by (simp add: take_bit_eq_mask mask_eq_exp_minus_1)
  then have "?d < 16" using take_bit_nat_less_exp [of 4 "unat (drop_bit (4 * k) v)"] by (simp add: unsigned_take_bit_eq)
  then have "hexval (m p) = int ?d" "holds m (p + 1) (hexn k v)" using Suc(2) hexval_digit by (auto simp: hexn_def)
  moreover have "push_bit 4 (drop_bit (4 * Suc k) v) OR of_int (int ?d) = drop_bit (4 * k) v"
    using nibble_step [of k v] by simp
  ultimately show ?case using Suc(1) [of "p + 1"] by (simp only: parse_hex_loop.simps Let_def) simp
qed (simp add: hexn_def)

lemma parse_hex8_hexn: "holds m p (hexn 8 v) \<Longrightarrow> parse_hex8 m p = Some v"
proof -
  assume "holds m p (hexn 8 v)"
  moreover have "drop_bit (4 * 8) v = 0" by (rule bit_word_eqI) (simp add: bit_simps)
  ultimately show ?thesis using parse_hexn [of m p 8 v] by (simp add: parse_hex8_def)
qed

lemma pad4_ge: "n \<le> pad4 n"
proof -
  have "n + 3 = (n + 3) div 4 * 4 + (n + 3) mod 4" by simp
  moreover have "(n + 3) mod 4 < 4" by simp
  ultimately show ?thesis unfolding pad4_def by linarith
qed

text \<open>A writer for the format, and that what it writes is an archive.\<close>

definition cpio_member :: "nat \<Rightarrow> cpio_file \<Rightarrow> u8 list" where
  "cpio_member off f = CPIO_NEWC_MAGIC @ hexn 8 0 @ hexn 8 (cf_mode f) @ hexn 8 0 @ hexn 8 0 @ hexn 8 1 @ hexn 8 0 @
     hexn 8 (of_nat (length (cf_data f))) @ hexn 8 0 @ hexn 8 0 @ hexn 8 0 @ hexn 8 0 @
     hexn 8 (of_nat (length (cf_name f) + 1)) @ hexn 8 0 @ cf_name f @ [0] @
     replicate (data_at off f - (off + 110 + length (cf_name f) + 1)) 0 @ cf_data f @
     replicate (member_end off f - (data_at off f + length (cf_data f))) 0"

definition trailer :: cpio_file where
  "trailer = \<lparr>cf_name = CPIO_NEWC_TRAILER, cf_data = [], cf_mode = 0\<rparr>"

fun cpio_bytes :: "nat \<Rightarrow> cpio_file list \<Rightarrow> u8 list" where
  "cpio_bytes off [] = cpio_member off trailer"
| "cpio_bytes off (f # fs) = cpio_member off f @ cpio_bytes (member_end off f) fs"

definition file_ok :: "cpio_file \<Rightarrow> bool" where
  "file_ok f \<longleftrightarrow> length (cf_name f) + 1 < 2 ^ 32 \<and> length (cf_data f) < 2 ^ 32 \<and> cf_name f \<noteq> CPIO_NEWC_TRAILER"

lemma lengths [simp]: "length (hexn k v) = k" "length CPIO_NEWC_MAGIC = 6"
  by (simp_all add: hexn_def CPIO_NEWC_MAGIC_def)

lemma member_ge: "off + 110 + length (cf_name f) + 1 \<le> data_at off f" "data_at off f + length (cf_data f) \<le> member_end off f"
  by (simp_all only: data_at_def member_end_def pad4_ge)

lemma member_length: "off + length (cpio_member off f) = member_end off f"
  using member_ge [of off f] by (simp add: cpio_member_def)

lemma member_holds:
  assumes h: "holds m (base + off) (cpio_member off f)" and "length (cf_name f) + 1 < 2 ^ 32" "length (cf_data f) < 2 ^ 32"
  shows "member_at m base off f"
proof -
  have "base + off + (6 + 8 * 13) + length (cf_name f) + 1 + (data_at off f - (off + 110 + length (cf_name f) + 1)) =
      base + data_at off f" using member_ge(1) [of off f] by simp
  then show ?thesis
    using h assms(2,3) unfolding cpio_member_def holds_append lengths member_at_def
    by (simp add: add.assoc)
qed

lemma trailer_ok: "length (cf_name trailer) + 1 < 2 ^ 32" "length (cf_data trailer) < 2 ^ 32" "cf_name trailer = CPIO_NEWC_TRAILER"
  by (simp_all add: trailer_def)

lemma bytes_archive:
  "holds m (base + off) (cpio_bytes off fs) \<Longrightarrow> \<forall>f\<in>set fs. file_ok f \<Longrightarrow> off + length (cpio_bytes off fs) \<le> len \<Longrightarrow>
   archive_at m base len off fs"
proof (induction fs arbitrary: off)
  case Nil
  then show ?case using member_holds [of m base off trailer] trailer_ok member_length [of off trailer] by auto
next
  case (Cons f fs)
  have e: "base + off + length (cpio_member off f) = base + member_end off f" using member_length [of off f] by simp
  have "holds m (base + off) (cpio_member off f)" "holds m (base + member_end off f) (cpio_bytes (member_end off f) fs)"
    using Cons(2) unfolding cpio_bytes.simps holds_append e by simp_all
  moreover have "member_end off f + length (cpio_bytes (member_end off f) fs) \<le> len" "member_end off f \<le> len"
    using Cons(4) member_length [of off f] by simp_all
  ultimately show ?case
    using Cons(1) [of "member_end off f"] Cons(3) member_holds [of m base off f] by (simp add: file_ok_def)
qed

section \<open>Reading an archive\<close>

definition entry_of :: "ptr \<Rightarrow> nat \<Rightarrow> cpio_file \<Rightarrow> cpio_newc_entry" where
  "entry_of base off f = \<lparr>e_name = base + off + 110, e_name_len = length (cf_name f), e_data = base + data_at off f,
     e_data_len = length (cf_data f), e_mode = cf_mode f, e_next_off = member_end off f\<rparr>"

lemma next_member:
  assumes fit: "fits len" and base: "base \<noteq> 0" and f: "member_at m base off f" and len: "member_end off f \<le> len"
  shows "cpio_newc_next m base len off = (if cf_name f = CPIO_NEWC_TRAILER then 0 else 1, entry_of base off f)"
proof -
  have L: "len + 3 < 2 ^ 64" using fit by (simp add: fits_def)
  have sz: "length (cf_name f) + 1 < 2 ^ 32" "length (cf_data f) < 2 ^ 32"
    and h: "holds m (base + off) CPIO_NEWC_MAGIC" "holds m (base + off + 14) (hexn 8 (cf_mode f))"
      "holds m (base + off + 54) (hexn 8 (of_nat (length (cf_data f))))"
      "holds m (base + off + 94) (hexn 8 (of_nat (length (cf_name f) + 1)))"
      "holds m (base + off + 110) (cf_name f)" "m (base + off + 110 + length (cf_name f)) = 0"
    using f by (simp_all add: member_at_def holds_append)
  note ge = member_ge [of off f]
  have bounds: "off + 110 + length (cf_name f) + 1 \<le> len" "data_at off f + length (cf_data f) \<le> len" using ge len by linarith+
  define ds :: u32 where "ds = of_nat (length (cf_data f))"
  define ns :: u32 where "ns = of_nat (length (cf_name f) + 1)"
  have "unat (of_nat n :: u32) = n" if "n < 2 ^ 32" for n
    using that by (simp add: unsigned_of_nat take_bit_nat_eq_self)
  note un = this [OF sz(2), folded ds_def] this [OF sz(1), folded ns_def]
  have P: "parse_hex8 m (base + off + 54) = Some ds" "parse_hex8 m (base + off + 94) = Some ns" "ns \<noteq> 0"
    using parse_hex8_hexn [OF h(3)] parse_hex8_hexn [OF h(4)] un(2) unfolding ds_def [symmetric] ns_def [symmetric] by auto
  have al: "align4 (off + 110 + (length (cf_name f) + 1)) = data_at off f"
    "align4 (data_at off f + length (cf_data f)) = member_end off f"
    using align4_eq [of "off + 110 + (length (cf_name f) + 1)"] align4_eq [of "data_at off f + length (cf_data f)"] bounds L
    by (simp_all add: data_at_def member_end_def pad4_def add.assoc)
  have ca: "checked_add off CPIO_NEWC_HEADER_SIZE = Some (off + 110)"
    "checked_add (off + 110) (length (cf_name f) + 1) = Some (off + 110 + (length (cf_name f) + 1))"
    "checked_add (data_at off f) (length (cf_data f)) = Some (data_at off f + length (cf_data f))"
    using bounds L by (simp_all add: checked_add_Some CPIO_NEWC_HEADER_SIZE_def)
  have tr: "length (cf_name f) = 10 \<and> memcmp_lit m (base + (off + 110)) CPIO_NEWC_TRAILER = 0 \<longleftrightarrow> cf_name f = CPIO_NEWC_TRAILER"
    using h(5) holds_inj [of m "base + off + 110" "cf_name f" CPIO_NEWC_TRAILER] unfolding memcmp_lit_zero by (auto simp: add.assoc)
  have "cpio_entry_at m base len off (cf_mode f) (length (cf_name f) + 1) (length (cf_data f)) =
      (if cf_name f = CPIO_NEWC_TRAILER then 0 else 1, entry_of base off f)"
    unfolding cpio_entry_at_def ca option.case al Let_def using bounds len h(6) tr
    by (auto simp: entry_of_def ac_simps)
  moreover have "\<not> len \<le> off" "\<not> len - off < CPIO_NEWC_HEADER_SIZE" using bounds by (simp_all add: CPIO_NEWC_HEADER_SIZE_def)
  ultimately show ?thesis
    using base h(1) parse_hex8_hexn [OF h(2)] P un unfolding cpio_newc_next_def Let_def memcmp_lit_zero by simp
qed

lemma init_scan_archive:
  assumes "fits len" "base \<noteq> 0"
  shows "archive_at m base len off fs \<Longrightarrow> init_scan m base len off k = Some (0, k + length fs)"
proof (induction fs arbitrary: off k)
  case Nil
  then show ?case using next_member [OF assms] by (subst init_scan.simps) auto
next
  case (Cons f fs)
  then show ?case using next_member [OF assms, of m off f] by (subst init_scan.simps) (auto simp: entry_of_def)
qed

lemma lookup_scan_archive:
  assumes "fits len" "base \<noteq> 0" "cstr m path xs"
  shows "archive_at m base len off fs \<Longrightarrow>
    (case find (\<lambda>f. cf_name f = dropWhile (\<lambda>c. c = 47) xs) fs of
       None \<Rightarrow> \<exists>e. lookup_scan m base len off path = Some (0, e)
     | Some f \<Rightarrow> \<exists>o'. lookup_scan m base len off path = Some (1, entry_of base o' f) \<and> member_at m base o' f \<and> member_end o' f \<le> len)"
proof (induction fs arbitrary: off)
  case Nil
  then show ?case using next_member [OF assms(1,2)] by (subst lookup_scan.simps) auto
next
  case (Cons f fs)
  then have f: "member_at m base off f" "member_end off f \<le> len" "cf_name f \<noteq> CPIO_NEWC_TRAILER" by simp_all
  have n: "cpio_newc_next m base len off = (1, entry_of base off f)" using next_member [OF assms(1,2) f(1,2)] f(3) by simp
  have "holds m (e_name (entry_of base off f)) (cf_name f)" "e_name_len (entry_of base off f) = length (cf_name f)"
    using f(1) by (simp_all add: member_at_def holds_append entry_of_def)
  note pm = path_match_result [OF assms(3) this]
  show ?case
  proof (cases "dropWhile (\<lambda>c. c = 47) xs = cf_name f")
    case True
    then show ?thesis using n pm f(1,2) by (subst lookup_scan.simps) auto
  next
    case False
    then have "lookup_scan m base len off path = lookup_scan m base len (member_end off f) path"
      using n pm by (subst lookup_scan.simps) (simp add: entry_of_def)
    then show ?thesis using Cons(1) [of "member_end off f"] Cons(2) False by (simp split: option.splits)
  qed
qed

lemma read_at_file:
  assumes f: "member_at m base o' f" "member_end o' f \<le> len" and b: "buf \<noteq> 0" "buf + n \<le> base \<or> base + len \<le> buf"
    and s: "if_data file = base + data_at o' f" "if_size file = length (cf_data f)"
  shows "initramfs_read_at m file off buf n = (int (min n (length (cf_data f) - off)),
    \<lambda>x. if buf \<le> x \<and> x < buf + min n (length (cf_data f) - off) then cf_data f ! (off + (x - buf)) else m x)"
proof (cases "length (cf_data f) \<le> off")
  case True
  then show ?thesis using b(1) s(2) by (auto simp: initramfs_read_at_def fun_eq_iff)
next
  case False
  let ?k = "min n (length (cf_data f) - off)" and ?s = "base + data_at o' f + off"
  have "?s + ?k \<le> base + len" using member_ge(2) [of o' f] f(2) False by linarith
  then have "buf \<le> ?s \<or> ?s + ?k \<le> buf" using b(2) by linarith
  note mc = memcpy_result [OF this]
  have dat: "m (base + data_at o' f + i) = cf_data f ! i" if "i < length (cf_data f)" for i
    using f(1) that by (simp add: member_at_def holds_def)
  have "memcpy m buf ?s ?k = (\<lambda>x. if buf \<le> x \<and> x < buf + ?k then cf_data f ! (off + (x - buf)) else m x)"
  proof
    fix x
    have e: "?s + (x - buf) = base + data_at o' f + (off + (x - buf))" by simp
    have "off + (x - buf) < length (cf_data f)" if "buf \<le> x \<and> x < buf + ?k" using that by linarith
    then show "memcpy m buf ?s ?k x = (if buf \<le> x \<and> x < buf + ?k then cf_data f ! (off + (x - buf)) else m x)"
      unfolding mc e using dat by (metis (no_types))
  qed
  moreover have "(if length (cf_data f) - off < n then length (cf_data f) - off else n) = ?k" by simp
  moreover have "initramfs_read_at m file off buf n =
      (int (if length (cf_data f) - off < n then length (cf_data f) - off else n),
       memcpy m buf ?s (if length (cf_data f) - off < n then length (cf_data f) - off else n))"
    using False b(1) s by (simp add: initramfs_read_at_def Let_def)
  ultimately show ?thesis by (simp only:)
qed

section \<open>Properties\<close>

text \<open>
  C36. Whatever bytes the archive holds, an entry that the parser reports lies inside it: the name
  with its terminating zero and the contents come in this order between the header and the next
  offset, and the next offset is larger than the current one and within the archive.
\<close>

theorem cpio_newc_next_in_bounds:
  assumes "fits len" "cpio_newc_next m base len off = (r, e)" "0 < r"
  shows "r = 1 \<and> base + off + 110 = e_name e \<and> e_name e + e_name_len e < e_data e \<and>
    e_data e + e_data_len e \<le> base + e_next_off e \<and> e_next_off e \<le> len \<and> off < e_next_off e \<and>
    m (e_name e + e_name_len e) = 0"
  using cpio_next_bounds [OF assms] by blast

text \<open>A memory with an archive of one file, \<^verbatim>\<open>init\<close>, at 1000 and the path \<^verbatim>\<open>/init\<close> at 10.\<close>

definition init_file :: cpio_file where
  "init_file = \<lparr>cf_name = [105, 110, 105, 116], cf_data = [79, 75], cf_mode = 0x81A4\<rparr>"

definition initrd_sample :: mem where
  "initrd_sample = (\<lambda>a. if 1000 \<le> a \<and> a < 1000 + length (cpio_bytes 0 [init_file])
     then cpio_bytes 0 [init_file] ! (a - 1000)
     else if a < 10 then 0 else ([47, 105, 110, 105, 116] @ replicate 1000 0) ! (a - 10))"

lemma initrd_sample_length: "length (cpio_bytes 0 [init_file]) = 244"
  using member_length [of 0 init_file] member_length [of "member_end 0 init_file" trailer]
  by (simp add: member_end_def data_at_def pad4_def init_file_def trailer_def)

lemma initrd_sample_ok:
  "holds initrd_sample 1000 (cpio_bytes 0 [init_file])" "cstr initrd_sample 10 [47, 105, 110, 105, 116]" "file_ok init_file"
  by (simp_all add: holds_def initrd_sample_def initrd_sample_length file_ok_def init_file_def CPIO_NEWC_TRAILER_def
      del: cpio_bytes.simps)

lemma initrd_sample_archive: "archive_at initrd_sample 1000 244 0 [init_file]"
  using bytes_archive [of initrd_sample 1000 0 "[init_file]" 244] initrd_sample_ok initrd_sample_length by simp

theorem cpio_newc_next_in_bounds_witness:
  "\<exists>e. cpio_newc_next initrd_sample 1000 244 0 = (1, e) \<and> e_name e + e_name_len e < e_data e \<and> e_next_off e \<le> 244"
proof -
  have "cpio_newc_next initrd_sample 1000 244 0 = (1, entry_of 1000 0 init_file)"
    using next_member [of 244 1000 initrd_sample 0 init_file] initrd_sample_archive by (simp add: fits_def)
  then show ?thesis using cpio_newc_next_in_bounds [of 244 initrd_sample 1000 0 1] by (auto simp: fits_def)
qed

text \<open>
  C37. Loading an archive and looking a path up both end, on any contents whatever: the scans make
  progress at every member, so a malformed archive gives an error and never an endless loop.
\<close>

theorem initramfs_terminates:
  assumes "fits len" "fits (initrd_len s)" "cstr m path xs"
  shows "(\<exists>r s'. initramfs_init m s base len = Some (r, s') \<and> r \<le> 0) \<and>
    (\<exists>r f. initramfs_lookup m s path = Some (r, f) \<and> r \<le> 0)"
proof
  obtain r n where "init_scan m base len 0 0 = Some (r, n)" using init_scan_returns [OF assms(1)] by blast
  then show "\<exists>r s'. initramfs_init m s base len = Some (r, s') \<and> r \<le> 0"
    by (simp add: initramfs_init_def EINVAL_def Let_def)
  obtain r2 e where "lookup_scan m (initrd_base s) (initrd_len s) 0 path = Some (r2, e)"
    using lookup_scan_returns [OF assms(2,3)] by blast
  then show "\<exists>r f. initramfs_lookup m s path = Some (r, f) \<and> r \<le> 0"
    by (auto simp: initramfs_lookup_def errno_defs)
qed

theorem initramfs_terminates_witness:
  "(\<exists>r s'. initramfs_init initrd_sample \<lparr>initrd_base = 1, initrd_len = 7, initrd_ready = True\<rparr> 2000 500 = Some (r, s') \<and> r \<le> 0) \<and>
   (\<exists>r f. initramfs_lookup initrd_sample \<lparr>initrd_base = 1, initrd_len = 7, initrd_ready = True\<rparr> 10 = Some (r, f) \<and> r \<le> 0)"
  by (rule initramfs_terminates [OF _ _ initrd_sample_ok(2)]) (simp_all add: fits_def)

text \<open>
  C17. What the writer of the format puts into an archive is what the kernel reads out of it. The
  archive loads without an error. A path finds the first file whose name is the path without its
  leading slashes, with its mode and size, and is \<^verbatim>\<open>-ENOENT\<close> when there is none. Reading at an offset
  into a buffer outside the archive returns as many bytes as were asked for and are left, stores
  exactly those bytes of the file in the buffer, and changes nothing else.
\<close>

theorem initramfs_roundtrip:
  assumes "base \<noteq> 0" "holds m base (cpio_bytes 0 fs)" "len = length (cpio_bytes 0 fs)" "fits len" "\<forall>f\<in>set fs. file_ok f"
    "path \<noteq> 0" "cstr m path xs"
  shows "\<exists>s'. initramfs_init m s base len = Some (0, s') \<and>
    (case find (\<lambda>f. cf_name f = dropWhile (\<lambda>c. c = 47) xs) fs of
       None \<Rightarrow> initramfs_lookup m s' path = Some (- ENOENT, None)
     | Some f \<Rightarrow> \<exists>file. initramfs_lookup m s' path = Some (0, Some file) \<and> if_mode file = cf_mode f \<and>
         if_size file = length (cf_data f) \<and>
         (\<forall>off n buf. buf \<noteq> 0 \<and> (buf + n \<le> base \<or> base + len \<le> buf) \<longrightarrow>
            initramfs_read_at m file off buf n = (int (min n (length (cf_data f) - off)),
              \<lambda>x. if buf \<le> x \<and> x < buf + min n (length (cf_data f) - off) then cf_data f ! (off + (x - buf)) else m x)))"
proof -
  have arch: "archive_at m base len 0 fs" using bytes_archive [of m base 0 fs len] assms by simp
  have "len \<noteq> 0" using assms(3) by (cases fs) (simp_all add: cpio_member_def CPIO_NEWC_MAGIC_def)
  let ?s = "\<lparr>initrd_base = base, initrd_len = len, initrd_ready = True\<rparr>"
  have init: "initramfs_init m s base len = Some (0, ?s)"
    using init_scan_archive [OF assms(4,1) arch, of 0] assms(1) \<open>len \<noteq> 0\<close> by (simp add: initramfs_init_def Let_def)
  note lk = lookup_scan_archive [OF assms(4,1,7) arch]
  show ?thesis
  proof (cases "find (\<lambda>f. cf_name f = dropWhile (\<lambda>c. c = 47) xs) fs")
    case None
    then show ?thesis using lk init assms(6) by (auto simp: initramfs_lookup_def)
  next
    case (Some f)
    then obtain o' where o': "lookup_scan m base len 0 path = Some (1, entry_of base o' f)" "member_at m base o' f" "member_end o' f \<le> len"
      using lk by auto
    let ?file = "\<lparr>if_name = e_name (entry_of base o' f), if_name_len = e_name_len (entry_of base o' f),
      if_data = base + data_at o' f, if_size = length (cf_data f), if_mode = cf_mode f\<rparr>"
    have "initramfs_lookup m ?s path = Some (0, Some ?file)"
      using o'(1) assms(6) by (simp add: initramfs_lookup_def entry_of_def)
    moreover have "initramfs_read_at m ?file off buf n = (int (min n (length (cf_data f) - off)),
        \<lambda>x. if buf \<le> x \<and> x < buf + min n (length (cf_data f) - off) then cf_data f ! (off + (x - buf)) else m x)"
      if b: "buf \<noteq> 0" "buf + n \<le> base \<or> base + len \<le> buf" for off n buf
      by (rule read_at_file [OF o'(2,3) b]) simp_all
    ultimately show ?thesis using init Some by auto
  qed
qed

theorem initramfs_roundtrip_witness:
  "\<exists>s' fl. initramfs_init initrd_sample \<lparr>initrd_base = 0, initrd_len = 0, initrd_ready = False\<rparr> 1000 244 = Some (0, s') \<and>
     initramfs_lookup initrd_sample s' 10 = Some (0, Some fl) \<and> if_mode fl = 0x81A4 \<and>
     fst (initramfs_read_at initrd_sample fl 1 5000 7) = 1 \<and> snd (initramfs_read_at initrd_sample fl 1 5000 7) 5000 = 75"
proof -
  have f: "find (\<lambda>f. cf_name f = dropWhile (\<lambda>c. c = 47) [47, 105, 110, 105, 116]) [init_file] = Some init_file" by (simp add: init_file_def)
  have "\<forall>f\<in>set [init_file]. file_ok f" "fits 244" "(1000 :: nat) \<noteq> 0" "(10 :: nat) \<noteq> 0"
    using initrd_sample_ok(3) by (simp_all add: fits_def)
  from initramfs_roundtrip [OF this(3) initrd_sample_ok(1) initrd_sample_length [symmetric] this(2,1,4) initrd_sample_ok(2), of "\<lparr>initrd_base = 0, initrd_len = 0, initrd_ready = False\<rparr>"]
  obtain s' fl where r: "initramfs_init initrd_sample \<lparr>initrd_base = 0, initrd_len = 0, initrd_ready = False\<rparr> 1000 244 = Some (0, s')"
    "initramfs_lookup initrd_sample s' 10 = Some (0, Some fl)" "if_mode fl = cf_mode init_file"
    "\<And>off n buf. buf \<noteq> 0 \<and> (buf + n \<le> 1000 \<or> 1000 + 244 \<le> buf) \<Longrightarrow>
       initramfs_read_at initrd_sample fl off buf n = (int (min n (length (cf_data init_file) - off)),
         \<lambda>x. if buf \<le> x \<and> x < buf + min n (length (cf_data init_file) - off) then cf_data init_file ! (off + (x - buf)) else initrd_sample x)"
    unfolding f by auto
  then show ?thesis using r(4) [of 5000 7 1] by (auto simp: init_file_def)
qed

end
