(* ===== verification/Fd.thy ===== *)
theory Fd
  imports Kmalloc
begin

text \<open>
  Open files and descriptor tables: \<^verbatim>\<open>kernel/user/fd.c\<close> and \<^verbatim>\<open>include/jnu/user/fd.h\<close>. A file is a
  heap object with a reference count; a table is an array of 32 file pointers, named here by the
  address of the process that holds it. The tables' mutexes are held for the whole of each
  operation, so the operations are modelled as atomic. What \<^verbatim>\<open>vfs_close\<close> does to the file-system
  layer is the argument \<open>vc\<close>, a function on the state \<open>'v\<close> of that layer; nothing below depends
  on it. The state is extended by the scheduler and the process tree, so the operations are
  defined on every extension of it.
\<close>

section \<open>Files and tables\<close>

definition JNU_MAX_FDS :: nat where "JNU_MAX_FDS = 32"

datatype jnu_file_type = JNU_FILE_INITRAMFS | JNU_FILE_VFS | JNU_FILE_CHARDEV

record 'v file_state =
  heap :: kmem_state
  vfs :: 'v
  f_type :: "ptr \<Rightarrow> jnu_file_type"
  f_refcount :: "ptr \<Rightarrow> u32"
  f_vfs :: "ptr \<Rightarrow> ptr"
  slots :: "ptr \<Rightarrow> nat \<Rightarrow> ptr"

definition file_destroy :: "(ptr \<Rightarrow> 'v \<Rightarrow> 'v) \<Rightarrow> ('v, 'z) file_state_scheme \<Rightarrow> ptr \<Rightarrow> ('v, 'z) file_state_scheme option" where
  "file_destroy vc s f =
     (if f = NULL then Some s
      else
        let s = (if f_type s f = JNU_FILE_VFS then s\<lparr>vfs := vc (f_vfs s f) (vfs s)\<rparr> else s)
        in do { h \<leftarrow> kfree (heap s) f; Some (s\<lparr>heap := h\<rparr>) })"

definition fd_table_init :: "('v, 'z) file_state_scheme \<Rightarrow> ptr \<Rightarrow> ('v, 'z) file_state_scheme" where
  "fd_table_init s t = s\<lparr>slots := (slots s)(t := (\<lambda>_. NULL))\<rparr>"

definition file_get :: "('v, 'z) file_state_scheme \<Rightarrow> ptr \<Rightarrow> ('v, 'z) file_state_scheme" where
  "file_get s f = (if f = NULL then s else s\<lparr>f_refcount := (f_refcount s)(f := f_refcount s f + 1)\<rparr>)"

definition file_put :: "(ptr \<Rightarrow> 'v \<Rightarrow> 'v) \<Rightarrow> ('v, 'z) file_state_scheme \<Rightarrow> ptr \<Rightarrow> ('v, 'z) file_state_scheme option" where
  "file_put vc s f =
     (if f = NULL then Some s
      else
        let s = s\<lparr>f_refcount := (f_refcount s)(f := f_refcount s f - 1)\<rparr>
        in if 0 < sint (f_refcount s f) then Some s else file_destroy vc s f)"

fun fd_clone_loop :: "('v, 'z) file_state_scheme \<Rightarrow> ptr \<Rightarrow> ptr \<Rightarrow> nat list \<Rightarrow> ('v, 'z) file_state_scheme" where
  "fd_clone_loop s dst src [] = s"
| "fd_clone_loop s dst src (fd # fds) =
     (let f = slots s src fd in
      if f = NULL then fd_clone_loop (s\<lparr>slots := (slots s)(dst := (slots s dst)(fd := NULL))\<rparr>) dst src fds
      else
        let s = file_get s f
        in fd_clone_loop (s\<lparr>slots := (slots s)(dst := (slots s dst)(fd := f))\<rparr>) dst src fds)"

definition fd_table_clone :: "('v, 'z) file_state_scheme \<Rightarrow> ptr \<Rightarrow> ptr \<Rightarrow> ('v, 'z) file_state_scheme" where
  "fd_table_clone s dst src =
     (if dst = NULL \<or> src = NULL then s else fd_clone_loop s dst src [0..<JNU_MAX_FDS])"

definition fd_alloc :: "('v, 'z) file_state_scheme \<Rightarrow> ptr \<Rightarrow> ptr \<Rightarrow> int \<times> ('v, 'z) file_state_scheme" where
  "fd_alloc s t f =
     (if t = NULL \<or> f = NULL then (- EINVAL, s)
      else
        case find (\<lambda>fd. slots s t fd = NULL) [3..<JNU_MAX_FDS] of
          Some fd \<Rightarrow> (int fd, s\<lparr>slots := (slots s)(t := (slots s t)(fd := f))\<rparr>)
        | None \<Rightarrow> (- EMFILE, s))"

definition fd_get :: "('v, 'z) file_state_scheme \<Rightarrow> ptr \<Rightarrow> int \<Rightarrow> ptr" where
  "fd_get s t fd = (if t = NULL \<or> fd < 0 \<or> int JNU_MAX_FDS \<le> fd then NULL else slots s t (nat fd))"

definition fd_close :: "('v, 'z) file_state_scheme \<Rightarrow> ptr \<Rightarrow> int \<Rightarrow> ptr \<times> ('v, 'z) file_state_scheme" where
  "fd_close s t fd =
     (if t = NULL \<or> fd < 0 \<or> int JNU_MAX_FDS \<le> fd then (NULL, s)
      else (slots s t (nat fd), s\<lparr>slots := (slots s)(t := (slots s t)(nat fd := NULL))\<rparr>))"

text \<open>The loop \<^verbatim>\<open>file_put(fd_close(table, fd))\<close> over all descriptors, as the exit paths run it.\<close>

fun fd_drain :: "(ptr \<Rightarrow> 'v \<Rightarrow> 'v) \<Rightarrow> ('v, 'z) file_state_scheme \<Rightarrow> ptr \<Rightarrow> nat list \<Rightarrow> ('v, 'z) file_state_scheme option" where
  "fd_drain vc s t [] = Some s"
| "fd_drain vc s t (fd # fds) =
     do { let (f, s) = fd_close s t (int fd); s \<leftarrow> file_put vc s f; fd_drain vc s t fds }"

section \<open>Reference counts count the slots\<close>

definition holders :: "('v, 'z) file_state_scheme \<Rightarrow> ptr set \<Rightarrow> ptr \<Rightarrow> (ptr \<times> nat) set" where
  "holders s T f = {(t, fd). t \<in> T \<and> fd < JNU_MAX_FDS \<and> slots s t fd = f}"

definition file_ok :: "('v, 'z) file_state_scheme \<Rightarrow> ptr set \<Rightarrow> ptr \<Rightarrow> bool" where
  "file_ok s T f \<longleftrightarrow> f \<in> live (heap s) \<and> f_refcount s f = of_nat (card (holders s T f))"

definition fd_inv :: "('v, 'z) file_state_scheme \<Rightarrow> ptr set \<Rightarrow> bool" where
  "fd_inv s T \<longleftrightarrow> kmem_inv (heap s) \<and> finite T \<and> 0 \<notin> T \<and> card T \<le> 2 ^ 20 \<and>
     (\<forall>f. f \<noteq> 0 \<longrightarrow> holders s T f \<noteq> {} \<longrightarrow> file_ok s T f)"

lemma holders_finite: "finite T \<Longrightarrow> finite (holders s T f)"
  by (rule finite_subset [of _ "T \<times> {..<JNU_MAX_FDS}"]) (auto simp: holders_def)

lemma holders_card: "finite T \<Longrightarrow> card (holders s T f) \<le> card T * 32"
proof -
  assume "finite T"
  then have "card (holders s T f) \<le> card (T \<times> {..<JNU_MAX_FDS})" by (intro card_mono) (auto simp: holders_def)
  then show ?thesis by (simp add: JNU_MAX_FDS_def card_cartesian_product)
qed

lemma sint_of_nat_small: "n < 2 ^ 31 \<Longrightarrow> sint (of_nat n :: u32) = int n"
  by (simp add: signed_of_nat signed_take_bit_int_eq_self)

lemma file_okD:
  "fd_inv s T \<Longrightarrow> t \<in> T \<Longrightarrow> fd < JNU_MAX_FDS \<Longrightarrow> slots s t fd = f \<Longrightarrow> f \<noteq> 0 \<Longrightarrow> file_ok s T f"
  unfolding fd_inv_def holders_def by blast

text \<open>Dropping one descriptor frees its file exactly when no other slot holds it.\<close>

lemma close_put:
  assumes inv: "fd_inv s T" and t: "t \<in> T" "fd < JNU_MAX_FDS" and f: "slots s t fd = f"
  shows "\<exists>s'. (let (f, s) = fd_close s t (int fd) in file_put vc s f) = Some s' \<and> fd_inv s' T \<and>
    slots s' = (slots s)(t := (slots s t)(fd := 0)) \<and>
    live (heap s') = live (heap s) - (if f \<noteq> 0 \<and> holders s T f = {(t, fd)} then {f} else {}) \<and> same_pool (heap s) (heap s')"
proof -
  have T: "finite T" "0 \<notin> T" "card T \<le> 2 ^ 20" and h: "kmem_inv (heap s)" using inv by (simp_all add: fd_inv_def)
  let ?s = "s\<lparr>slots := (slots s)(t := (slots s t)(fd := 0))\<rparr>"
  have cl: "fd_close s t (int fd) = (f, ?s)" using t T(2) f by (auto simp: fd_close_def)
  have ho: "holders ?s T g = holders s T g - {(t, fd)}" if "g \<noteq> 0" for g using that by (auto simp: holders_def)
  have ho': "holders ?s T g = holders s T g" if "g \<noteq> 0" "g \<noteq> f" for g using that f by (auto simp: holders_def)
  show ?thesis
  proof (cases "f = 0")
    case True
    have "fd_inv ?s T" using inv ho' True by (simp add: fd_inv_def file_ok_def)
    then show ?thesis using cl True by (simp add: file_put_def)
  next
    case False
    note ok = file_okD [OF inv t f False]
    let ?n = "card (holders s T f)"
    have mem: "(t, fd) \<in> holders s T f" using t f by (simp add: holders_def)
    have n: "0 < ?n" "?n < 2 ^ 31" using mem holders_finite [OF T(1), of s f] holders_card [OF T(1), of s f] T(3)
      by (auto simp: card_gt_0_iff)
    let ?u = "?s\<lparr>f_refcount := (f_refcount s)(f := f_refcount s f - 1)\<rparr>"
    have rc: "f_refcount ?u f = of_nat (?n - 1)" using ok n by (simp add: file_ok_def of_nat_diff)
    then have sg: "sint (f_refcount ?u f) = int (?n - 1)" using sint_of_nat_small [of "?n - 1"] n by simp
    have hu: "holders ?u T g = holders ?s T g" for g by (simp add: holders_def)
    have cd: "card (holders ?u T f) = ?n - 1" using hu ho [OF False] mem by simp
    show ?thesis
    proof (cases "?n = 1")
      case False
      have "fd_inv ?u T"
        unfolding fd_inv_def
      proof (intro conjI allI impI)
        fix g :: ptr assume g: "g \<noteq> 0" "holders ?u T g \<noteq> {}"
        show "file_ok ?u T g"
        proof (cases "g = f")
          case True
          then show ?thesis using ok rc cd by (simp add: file_ok_def)
        next
          case False
          then have "file_ok s T g" "holders ?u T g = holders s T g" using inv g ho' [OF g(1)] hu by (auto simp: fd_inv_def)
          then show ?thesis using False by (simp add: file_ok_def)
        qed
      qed (use T h in simp_all)
      moreover have "holders s T f \<noteq> {(t, fd)}" using \<open>?n \<noteq> 1\<close> by auto
      moreover have "0 < ?n - 1" using n \<open>?n \<noteq> 1\<close> by linarith
      ultimately show ?thesis using cl sg \<open>f \<noteq> 0\<close> by (intro exI [of _ ?u]) (simp add: file_put_def)
    next
      case True
      then have one: "holders s T f = {(t, fd)}" using mem by (metis card_1_singletonE singletonD)
      define w where "w = (if f_type s f = JNU_FILE_VFS then ?u\<lparr>vfs := vc (f_vfs s f) (vfs s)\<rparr> else ?u)"
      have w: "heap w = heap s" "slots w = slots ?s" "f_refcount w = f_refcount ?u" by (simp_all add: w_def)
      have "f \<in> live (heap s)" using ok by (simp add: file_ok_def)
      then obtain h' where h': "kfree (heap s) f = Some h'" "kmem_inv h'" "live h' = live (heap s) - {f}" "same_pool (heap s) h'"
        using kfree_result [OF h] by blast
      have "file_destroy vc ?u f = Some (w\<lparr>heap := h'\<rparr>)"
        using False h' by (simp add: file_destroy_def w_def)
      then have run: "file_put vc ?s f = Some (w\<lparr>heap := h'\<rparr>)" using sg True False by (simp add: file_put_def)
      have hw: "holders (w\<lparr>heap := h'\<rparr>) T g = holders ?s T g" for g by (simp add: holders_def w)
      have "fd_inv (w\<lparr>heap := h'\<rparr>) T"
        unfolding fd_inv_def
      proof (intro conjI allI impI)
        fix g :: ptr assume g: "g \<noteq> 0" "holders (w\<lparr>heap := h'\<rparr>) T g \<noteq> {}"
        have "g \<noteq> f" using g(2) hw ho [OF False] one by auto
        then have "file_ok s T g" "holders (w\<lparr>heap := h'\<rparr>) T g = holders s T g"
          using inv g ho' [OF g(1)] hw by (auto simp: fd_inv_def)
        then show "file_ok (w\<lparr>heap := h'\<rparr>) T g" using \<open>g \<noteq> f\<close> h'(3) by (simp add: file_ok_def w)
      qed (use T h' in simp_all)
      then show ?thesis using cl run one False h' by (intro exI [of _ "w\<lparr>heap := h'\<rparr>"]) (simp add: w)
    qed
  qed
qed

text \<open>Draining a table frees the files that it alone held, each once.\<close>

lemma drain_result:
  assumes "fd_inv s T" "t \<in> T" "set fds \<subseteq> {..<JNU_MAX_FDS}" "distinct fds"
  shows "\<exists>s'. fd_drain vc s t fds = Some s' \<and> fd_inv s' T \<and>
    slots s' = (slots s)(t := (\<lambda>fd. if fd \<in> set fds then 0 else slots s t fd)) \<and>
    live (heap s') = live (heap s) - {f. f \<noteq> 0 \<and> holders s T f \<noteq> {} \<and> holders s T f \<subseteq> {t} \<times> set fds} \<and>
    same_pool (heap s) (heap s')"
  using assms
proof (induction fds arbitrary: s)
  case Nil
  then have "{f. f \<noteq> 0 \<and> holders s T f \<noteq> {} \<and> holders s T f \<subseteq> {t} \<times> set []} = {}" by auto
  then show ?case using Nil by simp
next
  case (Cons fd fds)
  let ?f = "slots s t fd"
  obtain s1 where s1: "(let (f, s) = fd_close s t (int fd) in file_put vc s f) = Some s1" "fd_inv s1 T"
    "slots s1 = (slots s)(t := (slots s t)(fd := 0))"
    "live (heap s1) = live (heap s) - (if ?f \<noteq> 0 \<and> holders s T ?f = {(t, fd)} then {?f} else {})" "same_pool (heap s) (heap s1)"
    using close_put [OF Cons.prems(1,2) _ refl, of fd vc] Cons.prems(3) by auto
  have sub: "set fds \<subseteq> {..<JNU_MAX_FDS}" "distinct fds" using Cons.prems(3,4) by simp_all
  obtain s2 where s2: "fd_drain vc s1 t fds = Some s2" "fd_inv s2 T"
    "slots s2 = (slots s1)(t := (\<lambda>fd. if fd \<in> set fds then 0 else slots s1 t fd))"
    "live (heap s2) = live (heap s1) - {f. f \<noteq> 0 \<and> holders s1 T f \<noteq> {} \<and> holders s1 T f \<subseteq> {t} \<times> set fds}" "same_pool (heap s1) (heap s2)"
    using Cons.IH [OF s1(2) Cons.prems(2) sub] by blast
  have ho: "holders s1 T g = holders s T g - {(t, fd)}" if "g \<noteq> 0" for g
    using that s1(3) by (auto simp: holders_def)
  have mem: "(t, fd) \<in> holders s T ?f" "\<And>g. (t, fd) \<in> holders s T g \<Longrightarrow> g = ?f"
    using Cons.prems(2,3) by (auto simp: holders_def)
  have "f \<in> live (heap s2) \<longleftrightarrow> f \<in> live (heap s) \<and> \<not> (f \<noteq> 0 \<and> holders s T f \<noteq> {} \<and> holders s T f \<subseteq> {t} \<times> set (fd # fds))" for f
  proof (cases "f = ?f \<and> f \<noteq> 0")
    case True
    then show ?thesis using s2(4) s1(4) ho [of f] mem(1) by auto
  next
    case False
    have "(t, fd) \<notin> holders s T f" if "f \<noteq> 0" using mem(2) False that by blast
    then have "f \<noteq> 0 \<Longrightarrow> holders s1 T f = holders s T f" using ho by blast
    moreover have "f \<noteq> 0 \<Longrightarrow> holders s T f \<subseteq> {t} \<times> set (fd # fds) \<longleftrightarrow> holders s T f \<subseteq> {t} \<times> set fds"
      using \<open>f \<noteq> 0 \<Longrightarrow> (t, fd) \<notin> holders s T f\<close> by auto
    ultimately show ?thesis using s2(4) s1(4) False by auto
  qed
  then have "live (heap s2) = live (heap s) - {f. f \<noteq> 0 \<and> holders s T f \<noteq> {} \<and> holders s T f \<subseteq> {t} \<times> set (fd # fds)}" by blast
  moreover have "fd_drain vc s t (fd # fds) = Some s2" using s1(1) s2(1) by (simp add: Let_def split: prod.splits)
  moreover have "slots s2 = (slots s)(t := (\<lambda>x. if x \<in> set (fd # fds) then 0 else slots s t x))"
    using s1(3) s2(3) by (simp add: fun_eq_iff)
  ultimately show ?case using s2(2) same_pool_trans [OF s1(5) s2(5)] by blast
qed

lemma drain_all:
  assumes "fd_inv s T" "t \<in> T"
  shows "\<exists>s'. fd_drain vc s t [0..<JNU_MAX_FDS] = Some s' \<and> fd_inv s' T \<and>
    slots s' = (slots s)(t := (\<lambda>fd. if fd \<in> set [0..<JNU_MAX_FDS] then 0 else slots s t fd)) \<and>
    live (heap s') = live (heap s) - {f. f \<noteq> 0 \<and> holders s T f \<noteq> {} \<and> holders s T f \<subseteq> {t} \<times> set [0..<JNU_MAX_FDS]} \<and>
    same_pool (heap s) (heap s')"
  by (rule drain_result [OF assms]) (simp_all add: atLeast0LessThan)

section \<open>Sharing and installing files\<close>

lemma fd_inv_fresh_table:
  assumes "fd_inv s T" "t \<noteq> 0" "t \<notin> T" "card T < 2 ^ 20" "\<forall>fd<JNU_MAX_FDS. slots s t fd = 0"
  shows "fd_inv s (insert t T)"
proof -
  have "holders s (insert t T) f = holders s T f" if "f \<noteq> 0" for f using assms(5) that by (auto simp: holders_def)
  then show ?thesis using assms(1-4) by (simp add: fd_inv_def file_ok_def)
qed

lemma share_step:
  assumes inv: "fd_inv s T" and t: "dst \<in> T" "src \<in> T" "fd < JNU_MAX_FDS" "slots s dst fd = 0"
    and f: "f = slots s src fd" "f \<noteq> 0"
  shows "fd_inv ((file_get s f)\<lparr>slots := (slots s)(dst := (slots s dst)(fd := f))\<rparr>) T" (is "fd_inv ?s T")
  unfolding fd_inv_def
proof (intro conjI allI impI)
  have T: "finite T" "0 \<notin> T" "card T \<le> 2 ^ 20" and h: "kmem_inv (heap s)" using inv by (simp_all add: fd_inv_def)
  show "kmem_inv (heap ?s)" "finite T" "0 \<notin> T" "card T \<le> 2 ^ 20" using T h by (simp_all add: file_get_def)
  fix g :: ptr assume g: "g \<noteq> 0" "holders ?s T g \<noteq> {}"
  have ho: "holders ?s T g = (if g = f then insert (dst, fd) (holders s T g) else holders s T g)"
    using t g(1) by (auto simp: holders_def file_get_def split: if_splits)
  have new: "(dst, fd) \<notin> holders s T g" using t(4) g(1) by (simp add: holders_def)
  show "file_ok ?s T g"
  proof (cases "g = f")
    case True
    then show ?thesis
      using file_okD [OF inv t(2,3) f(1) [symmetric] f(2)] ho new holders_finite [OF T(1), of s f] f(2)
      by (simp add: file_ok_def file_get_def add.commute)
  next
    case False
    then have "file_ok s T g" using inv g ho by (simp add: fd_inv_def)
    then show ?thesis using False ho f(2) by (simp add: file_ok_def file_get_def)
  qed
qed

lemma clone_loop_result:
  assumes "fd_inv s T" "dst \<in> T" "src \<in> T" "src \<noteq> dst" "set fds \<subseteq> {..<JNU_MAX_FDS}" "distinct fds"
    "\<forall>fd\<in>set fds. slots s dst fd = 0"
  shows "fd_inv (fd_clone_loop s dst src fds) T \<and> heap (fd_clone_loop s dst src fds) = heap s \<and>
    slots (fd_clone_loop s dst src fds) =
      (slots s)(dst := (\<lambda>fd. if fd \<in> set fds then slots s src fd else slots s dst fd))"
  using assms
proof (induction fds arbitrary: s)
  case Nil
  then show ?case by (simp add: fun_eq_iff)
next
  case (Cons fd fds)
  have p: "fd < JNU_MAX_FDS" "slots s dst fd = 0" "set fds \<subseteq> {..<JNU_MAX_FDS}" "distinct fds" "fd \<notin> set fds" using Cons.prems by auto
  show ?case
  proof (cases "slots s src fd = 0")
    case True
    let ?s = "s\<lparr>slots := (slots s)(dst := (slots s dst)(fd := 0))\<rparr>"
    have "(slots s)(dst := (slots s dst)(fd := 0)) = slots s" using p(2) by (simp add: fun_eq_iff)
    then have e: "?s = s" by simp
    have run: "fd_clone_loop s dst src (fd # fds) = fd_clone_loop s dst src fds" using True e by simp
    have z: "\<forall>fd\<in>set fds. slots s dst fd = 0" using Cons.prems(7) by simp
    have "(\<lambda>x. if x \<in> set (fd # fds) then slots s src x else slots s dst x) =
        (\<lambda>x. if x \<in> set fds then slots s src x else slots s dst x)" using True p(2) by (simp add: fun_eq_iff)
    then show ?thesis unfolding run using Cons.IH [OF Cons.prems(1-4) p(3,4) z] by metis
  next
    case False
    let ?f = "slots s src fd"
    let ?s = "(file_get s ?f)\<lparr>slots := (slots s)(dst := (slots s dst)(fd := ?f))\<rparr>"
    have sel: "heap ?s = heap s" by (simp add: file_get_def)
    have run: "fd_clone_loop s dst src (fd # fds) = fd_clone_loop ?s dst src fds" using False by (simp add: file_get_def Let_def)
    have z: "\<forall>fd\<in>set fds. slots ?s dst fd = 0" using Cons.prems(7) p(5) by auto
    have i: "fd_inv ?s T" by (rule share_step [OF Cons.prems(1-3) p(1,2) refl False])
    note ih = Cons.IH [OF i Cons.prems(2-4) p(3,4) z]
    have "(slots ?s)(dst := (\<lambda>x. if x \<in> set fds then slots ?s src x else slots ?s dst x)) =
        (slots s)(dst := (\<lambda>x. if x \<in> set (fd # fds) then slots s src x else slots s dst x))"
      using Cons.prems(4) p(5) by (auto simp: fun_eq_iff)
    then show ?thesis unfolding run using ih sel by metis
  qed
qed

lemma clone_result:
  assumes inv: "fd_inv s T" and src: "src \<in> T" and dst: "dst \<noteq> 0" "dst \<notin> T" "card T < 2 ^ 20"
  defines "s' \<equiv> fd_table_clone (fd_table_init s dst) dst src"
  shows "fd_inv s' (insert dst T)" "heap s' = heap s"
    "slots s' = (slots s)(dst := (\<lambda>fd. if fd < JNU_MAX_FDS then slots s src fd else 0))"
proof -
  let ?i = "fd_table_init s dst"
  have ne: "src \<noteq> dst" "src \<noteq> 0" using src dst(2) inv by (metis, metis fd_inv_def)
  have "holders ?i T = holders s T" using dst(2) by (auto simp: holders_def fd_table_init_def fun_eq_iff)
  then have "fd_inv ?i T" using inv unfolding fd_inv_def file_ok_def by (simp add: fd_table_init_def)
  then have "fd_inv ?i (insert dst T)" using dst by (intro fd_inv_fresh_table) (simp_all add: fd_table_init_def)
  from clone_loop_result [OF this _ _ ne(1), of "[0..<JNU_MAX_FDS]"] src
  have r: "fd_inv s' (insert dst T) \<and> heap s' = heap ?i \<and>
      slots s' = (slots ?i)(dst := (\<lambda>fd. if fd \<in> set [0..<JNU_MAX_FDS] then slots ?i src fd else slots ?i dst fd))"
    unfolding s'_def fd_table_clone_def using ne dst(1) by (simp add: fd_table_init_def atLeast0LessThan)
  then show "fd_inv s' (insert dst T)" "heap s' = heap s" by (simp_all add: fd_table_init_def)
  show "slots s' = (slots s)(dst := (\<lambda>fd. if fd < JNU_MAX_FDS then slots s src fd else 0))"
    using r ne(1) by (auto simp: fd_table_init_def fun_eq_iff)
qed

lemma find_first:
  "find P [a..<b] = Some n \<longleftrightarrow> a \<le> n \<and> n < b \<and> P n \<and> (\<forall>k. a \<le> k \<and> k < n \<longrightarrow> \<not> P k)"
proof -
  have "find P [a..<b] = Some n \<longleftrightarrow> (\<exists>i < b - a. P (a + i) \<and> n = a + i \<and> (\<forall>j < i. \<not> P (a + j)))"
    by (auto simp: find_Some_iff)
  also have "\<dots> \<longleftrightarrow> a \<le> n \<and> n < b \<and> P n \<and> (\<forall>k. a \<le> k \<and> k < n \<longrightarrow> \<not> P k)"
  proof
    assume "\<exists>i < b - a. P (a + i) \<and> n = a + i \<and> (\<forall>j < i. \<not> P (a + j))"
    then obtain i where i: "i < b - a" "P (a + i)" "n = a + i" "\<forall>j < i. \<not> P (a + j)" by blast
    have "\<not> P k" if "a \<le> k" "k < n" for k using i(4) [rule_format, of "k - a"] that i(3) by simp
    then show "a \<le> n \<and> n < b \<and> P n \<and> (\<forall>k. a \<le> k \<and> k < n \<longrightarrow> \<not> P k)" using i by auto
  next
    assume "a \<le> n \<and> n < b \<and> P n \<and> (\<forall>k. a \<le> k \<and> k < n \<longrightarrow> \<not> P k)"
    then show "\<exists>i < b - a. P (a + i) \<and> n = a + i \<and> (\<forall>j < i. \<not> P (a + j))" by (intro exI [of _ "n - a"]) auto
  qed
  finally show ?thesis .
qed

lemma alloc_slot_inv:
  assumes inv: "fd_inv s T" and t: "t \<in> T" "fd < JNU_MAX_FDS" "slots s t fd = 0"
    and f: "f \<noteq> 0" "f \<in> live (heap s)" "f_refcount s f = 1" "holders s T f = {}"
  shows "fd_inv (s\<lparr>slots := (slots s)(t := (slots s t)(fd := f))\<rparr>) T" (is "fd_inv ?s T")
  unfolding fd_inv_def
proof (intro conjI allI impI)
  show "kmem_inv (heap ?s)" "finite T" "0 \<notin> T" "card T \<le> 2 ^ 20" using inv by (simp_all add: fd_inv_def)
  fix g :: ptr assume g: "g \<noteq> 0" "holders ?s T g \<noteq> {}"
  have ho: "holders ?s T g = (if g = f then {(t, fd)} else holders s T g)" using t g(1) f(4) by (auto simp: holders_def split: if_splits)
  show "file_ok ?s T g"
  proof (cases "g = f")
    case True
    then show ?thesis using f ho by (simp add: file_ok_def)
  next
    case False
    then show ?thesis using inv g ho by (simp add: fd_inv_def file_ok_def)
  qed
qed

section \<open>Properties\<close>

text \<open>Two files in one table: the second is reached by two descriptors.\<close>

definition fd_sample :: "kmem_state \<Rightarrow> ptr \<Rightarrow> unit file_state" where
  "fd_sample h f = \<lparr>heap = h, vfs = (), f_type = (\<lambda>_. JNU_FILE_CHARDEV), f_refcount = (\<lambda>_. 2), f_vfs = (\<lambda>_. 0),
     slots = (\<lambda>t fd. if t = 1 \<and> fd \<in> {3, 4} then f else 0)\<rparr>"

lemma fd_sample_inv:
  assumes "kmem_inv h" "f \<in> live h" "f \<noteq> 0"
  shows "fd_inv (fd_sample h f) {1}" "holders (fd_sample h f) {1} f = {(1, 3), (1, 4)}"
proof -
  show ho: "holders (fd_sample h f) {1} f = {(1, 3), (1, 4)}"
    using assms(3) by (auto simp: holders_def fd_sample_def JNU_MAX_FDS_def)
  have "g = f" if "g \<noteq> 0" "holders (fd_sample h f) {1} g \<noteq> {}" for g
    using that by (auto simp: holders_def fd_sample_def split: if_splits)
  moreover have "file_ok (fd_sample h f) {1} f" using assms ho by (simp add: file_ok_def) (simp add: fd_sample_def)
  moreover have "heap (fd_sample h f) = h" by (simp add: fd_sample_def)
  ultimately show "fd_inv (fd_sample h f) {1}" using assms unfolding fd_inv_def by auto
qed

text \<open>
  C19. Giving a forked child its descriptor table and draining that table again, as its exit does,
  returns: in between every file's reference count is the number of slots that hold it, the child
  sees the parent's descriptors, and afterwards no file has been freed, the parent's table is as
  before and the counts are again those of the remaining slots.
\<close>

theorem fd_fork_exit_roundtrip:
  assumes "fd_inv s T" "parent \<in> T" "child \<noteq> 0" "child \<notin> T" "card T < 2 ^ 20"
  shows "\<exists>s' s''. fd_table_clone (fd_table_init s child) child parent = s' \<and> fd_inv s' (insert child T) \<and>
    (\<forall>fd. fd_get s' child fd = fd_get s parent fd) \<and>
    fd_drain vc s' child [0..<JNU_MAX_FDS] = Some s'' \<and> fd_inv s'' T \<and> live (heap s'') = live (heap s) \<and>
    (\<forall>t\<in>T. slots s'' t = slots s t)"
proof -
  define s' where "s' = fd_table_clone (fd_table_init s child) child parent"
  note c = clone_result [OF assms, folded s'_def]
  have "parent \<noteq> 0" using assms(1,2) by (metis fd_inv_def)
  then have get: "fd_get s' child fd = fd_get s parent fd" for fd using c(3) assms(3) by (simp add: fd_get_def nat_less_iff)
  obtain s'' where d: "fd_drain vc s' child [0..<JNU_MAX_FDS] = Some s''" "fd_inv s'' (insert child T)"
    "slots s'' = (slots s')(child := (\<lambda>fd. if fd \<in> set [0..<JNU_MAX_FDS] then 0 else slots s' child fd))"
    "live (heap s'') = live (heap s') - {f. f \<noteq> 0 \<and> holders s' (insert child T) f \<noteq> {} \<and>
       holders s' (insert child T) f \<subseteq> {child} \<times> set [0..<JNU_MAX_FDS]}"
    using drain_all [OF c(1), of child vc] by blast
  have "\<not> holders s' (insert child T) f \<subseteq> {child} \<times> A" if ne: "f \<noteq> 0" "holders s' (insert child T) f \<noteq> {}" for f A
  proof -
    from ne(2) obtain t fd where "t \<in> insert child T" "fd < JNU_MAX_FDS" "slots s' t fd = f" by (auto simp: holders_def)
    then have "(if t = child then parent else t, fd) \<in> holders s' (insert child T) f"
      using c(3) assms(2,4) by (auto simp: holders_def split: if_splits)
    moreover have "(if t = child then parent else t) \<noteq> child" using assms(2,4) by auto
    ultimately show ?thesis by auto
  qed
  then have lv: "live (heap s'') = live (heap s)" using d(4) c(2) by auto
  have sl: "slots s'' t = slots s t" if "t \<in> T" for t using d(3) c(3) that assms(4) by auto
  have "holders s'' (insert child T) f = holders s'' T f" if "f \<noteq> 0" for f
    using d(3) that by (auto simp: holders_def)
  then have "fd_inv s'' T" using d(2) assms(1) by (simp add: fd_inv_def file_ok_def)
  then show ?thesis using c(1) get d(1) lv sl s'_def by blast
qed

theorem fd_fork_exit_roundtrip_witness:
  "\<exists>h f s'. f \<noteq> 0 \<and> live h = {f} \<and>
     fd_drain (\<lambda>_ v. v) (fd_table_clone (fd_table_init (fd_sample h f) 2) 2 1) 2 [0..<JNU_MAX_FDS] = Some s' \<and> live (heap s') = {f}"
proof -
  obtain f h where h: "f \<noteq> 0" "kmem_inv h" "live h = {f}" using kmem_sample_object by blast
  have "fd_inv (fd_sample h f) {1}" using fd_sample_inv h by simp
  moreover have "live (heap (fd_sample h f)) = {f}" using h by (simp add: fd_sample_def)
  moreover obtain s'' where
    "fd_drain (\<lambda>_ v. v) (fd_table_clone (fd_table_init (fd_sample h f) 2) 2 1) 2 [0..<JNU_MAX_FDS] = Some s''"
    "live (heap s'') = live (heap (fd_sample h f))"
    using fd_fork_exit_roundtrip [OF calculation(1), of 1 2 "\<lambda>_ v. v"] by auto
  ultimately show ?thesis using h(1,3) by metis
qed



text \<open>
  C38. Installing a new file, whose only reference is the one handed over, takes the lowest free
  descriptor from 3 up, changes no other slot and keeps the counts right; with no descriptor free
  it reports \<^verbatim>\<open>-EMFILE\<close> and changes nothing.
\<close>

theorem fd_alloc_correct:
  assumes "fd_inv s T" "t \<in> T" "f \<noteq> 0" "f \<in> live (heap s)" "f_refcount s f = 1" "holders s T f = {}"
  shows "(\<exists>fd s'. fd_alloc s t f = (int fd, s') \<and> 3 \<le> fd \<and> fd < JNU_MAX_FDS \<and> slots s t fd = 0 \<and>
       (\<forall>k. 3 \<le> k \<and> k < fd \<longrightarrow> slots s t k \<noteq> 0) \<and> fd_inv s' T \<and> heap s' = heap s \<and>
       (\<forall>u k. slots s' u k = (if u = t \<and> k = fd then f else slots s u k))) \<or>
    (\<forall>fd. 3 \<le> fd \<and> fd < JNU_MAX_FDS \<longrightarrow> slots s t fd \<noteq> 0) \<and> fd_alloc s t f = (- EMFILE, s)"
proof -
  have t: "t \<noteq> 0" using assms(1,2) by (metis fd_inv_def)
  show ?thesis
  proof (cases "find (\<lambda>fd. slots s t fd = NULL) [3..<JNU_MAX_FDS]")
    case None
    then have "fd_alloc s t f = (- EMFILE, s)" using t assms(3) by (simp add: fd_alloc_def)
    moreover have "\<forall>fd. 3 \<le> fd \<and> fd < JNU_MAX_FDS \<longrightarrow> slots s t fd \<noteq> 0" using None by (simp add: find_None_iff)
    ultimately show ?thesis by blast
  next
    case (Some fd)
    then have fd: "3 \<le> fd" "fd < JNU_MAX_FDS" "slots s t fd = 0" "\<forall>k. 3 \<le> k \<and> k < fd \<longrightarrow> slots s t k \<noteq> 0"
      by (auto simp: find_first)
    note i = alloc_slot_inv [OF assms(1,2) fd(2,3) assms(3-6)]
    have "fd_alloc s t f = (int fd, s\<lparr>slots := (slots s)(t := (slots s t)(fd := f))\<rparr>)"
      using Some t assms(3) by (simp add: fd_alloc_def)
    then show ?thesis using fd i by auto
  qed
qed

theorem fd_alloc_correct_witness:
  "\<exists>h f s'. f \<noteq> 0 \<and> live h = {f} \<and>
     fd_alloc (fd_table_init ((fd_sample h f)\<lparr>f_refcount := (\<lambda>_. 1)\<rparr>) 1) 1 f = (3, s') \<and> slots s' 1 3 = f"
proof -
  obtain f h where h: "f \<noteq> 0" "kmem_inv h" "live h = {f}" using kmem_sample_object by blast
  let ?s = "fd_table_init ((fd_sample h f)\<lparr>f_refcount := (\<lambda>_. 1)\<rparr>) 1"
  have "holders ?s {1} g = {}" if "g \<noteq> 0" for g using that by (auto simp: holders_def fd_table_init_def)
  moreover have "heap ?s = h" "f_refcount ?s f = 1" "slots ?s = (\<lambda>_ _. 0)"
    by (simp_all add: fd_table_init_def fd_sample_def fun_eq_iff)
  moreover have "fd_inv ?s {1}" using calculation h by (simp add: fd_inv_def)
  ultimately obtain fd s' where r: "fd_alloc ?s 1 f = (int fd, s')" "3 \<le> fd" "\<forall>k. 3 \<le> k \<and> k < fd \<longrightarrow> (0 :: nat) \<noteq> 0"
      "\<forall>u k. slots s' u k = (if u = 1 \<and> k = fd then f else 0)"
    using fd_alloc_correct [of ?s "{1}" 1 f] h by (auto simp: JNU_MAX_FDS_def)
  have "fd = 3" using r(2) r(3) [rule_format, of 3] by linarith
  then show ?thesis using r(1,4) h(1,3) by (intro exI [of _ h] exI [of _ f] exI [of _ s']) simp
qed

end
