(* ===== verification/Sched.thy ===== *)
theory Sched
  imports Fd
begin

text \<open>
  The single-CPU round-robin scheduler: \<^verbatim>\<open>kernel/kernel/sched.c\<close> with \<^verbatim>\<open>include/jnu/kernel/sched.h\<close>,
  the switch of \<^verbatim>\<open>kernel/arch/x86_64/context.S\<close>, and the parts of \<^verbatim>\<open>kernel/user/process.c\<close> that create
  a task's process. Tasks and processes are heap objects whose fields are maps from addresses; the
  kernel stacks are page blocks of the same heap. The hardware state a switch touches (the stacks
  for interrupts and system calls, the active address space, the FS base, the FPU image and the
  callee-saved registers) is part of the state.

  Every function runs with \<^verbatim>\<open>sched_lock\<close> held and interrupts off from its first access to the
  shared state to its last, so each is one atomic step. A function that blocks is cut at the
  switch: the part up to \<^verbatim>\<open>context_switch\<close> is one step, whose result has the next task as
  \<open>current\<close>, and what follows the switch is a second step, run when the task is current again.
  \<^verbatim>\<open>sched_finish_switch\<close>, which every resumed task runs first, belongs to the first step. The
  time since boot is an argument. Task names and log output are left out.
\<close>

section \<open>State\<close>

definition KSTACK_ORDER :: nat where "KSTACK_ORDER = 2"
definition KSTACK_SIZE :: nat where "KSTACK_SIZE = PMM_ORDER_SIZE KSTACK_ORDER"
definition SCHED_QUANTUM_TICKS :: u32 where "SCHED_QUANTUM_TICKS = 1"
definition TIF_NEED_DIE :: u32 where "TIF_NEED_DIE = push_bit 0 1"
definition JNU_MAX_TASKS :: int where "JNU_MAX_TASKS = 512"
definition sizeof_task :: nat where "sizeof_task = 1408"
definition sizeof_process :: nat where "sizeof_process = 512"
definition sizeof_thread_boot :: nat where "sizeof_thread_boot = 16"

datatype task_state = TASK_RUNNABLE | TASK_RUNNING | TASK_SLEEPING | TASK_ZOMBIE | TASK_DEAD

datatype process_state = PROCESS_ALIVE | PROCESS_ZOMBIE

text \<open>The functions a new kernel stack can be made to run.\<close>

datatype thread_fn = No_fn | Idle_loop | User_thread_entry | Thread_user_entry | Kernel_fn ptr

datatype code_addr = No_code | Kernel_thread_entry | Switch_resume

record cpu_context =
  r15 :: u64
  r14 :: u64
  r13 :: u64
  r12 :: u64
  rbx :: u64
  rbp :: u64
  rsp :: nat
  rip :: code_addr
  rdi :: nat

definition context_zero :: cpu_context where
  "context_zero = \<lparr>r15 = 0, r14 = 0, r13 = 0, r12 = 0, rbx = 0, rbp = 0, rsp = 0, rip = No_code, rdi = 0\<rparr>"

record syscall_frame =
  args :: "u64 list"
  user_rflags :: u64
  user_rip :: u64
  user_rsp :: u64
  user_saved :: "u64 list"

definition frame_zero :: syscall_frame where
  "frame_zero = \<lparr>args = replicate 7 0, user_rflags = 0, user_rip = 0, user_rsp = 0, user_saved = replicate 6 0\<rparr>"

record 'v sched_state = "'v file_state" +
  t_tid :: "ptr \<Rightarrow> int"
  t_pid :: "ptr \<Rightarrow> int"
  t_state :: "ptr \<Rightarrow> task_state"
  t_ctx :: "ptr \<Rightarrow> cpu_context"
  t_kstack_base :: "ptr \<Rightarrow> ptr"
  t_kstack_top :: "ptr \<Rightarrow> ptr"
  t_process :: "ptr \<Rightarrow> ptr"
  t_parent :: "ptr \<Rightarrow> ptr"
  t_exit_status :: "ptr \<Rightarrow> int"
  run_next :: "ptr \<Rightarrow> ptr"
  all_next :: "ptr \<Rightarrow> ptr"
  task_next :: "ptr \<Rightarrow> ptr"
  t_flags :: "ptr \<Rightarrow> u32"
  clear_child_tid :: "ptr \<Rightarrow> ptr"
  set_child_tid :: "ptr \<Rightarrow> ptr"
  t_has_user_frame :: "ptr \<Rightarrow> bool"
  t_user_frame :: "ptr \<Rightarrow> syscall_frame"
  wake_pending :: "ptr \<Rightarrow> u32"
  sleep_deadline_us :: "ptr \<Rightarrow> u64"
  sleep_timed_out :: "ptr \<Rightarrow> bool"
  fs_base :: "ptr \<Rightarrow> u64"
  gs_base :: "ptr \<Rightarrow> u64"
  fpu_state :: "ptr \<Rightarrow> u8 list"
  boot_fn :: "ptr \<Rightarrow> thread_fn"
  boot_arg :: "ptr \<Rightarrow> ptr"
  p_pid :: "ptr \<Rightarrow> int"
  p_state :: "ptr \<Rightarrow> process_state"
  p_main_task :: "ptr \<Rightarrow> ptr"
  p_tasks :: "ptr \<Rightarrow> ptr"
  p_live_threads :: "ptr \<Rightarrow> int"
  p_parent :: "ptr \<Rightarrow> ptr"
  p_first_child :: "ptr \<Rightarrow> ptr"
  p_next_sibling :: "ptr \<Rightarrow> ptr"
  p_exit_status :: "ptr \<Rightarrow> int"
  p_group_exit_code :: "ptr \<Rightarrow> int"
  p_space :: "ptr \<Rightarrow> ptr"
  p_user_entry :: "ptr \<Rightarrow> u64"
  p_user_stack :: "ptr \<Rightarrow> u64"
  p_has_user_frame :: "ptr \<Rightarrow> bool"
  p_user_frame :: "ptr \<Rightarrow> syscall_frame"
  boot_task :: ptr
  idle_task :: ptr
  current :: ptr
  runq_head :: ptr
  runq_tail :: ptr
  all_tasks :: ptr
  nr_tasks :: int
  quantum_left :: u32
  tick_count :: u64
  preempt_pending :: u64
  reap_zombie :: ptr
  next_pid :: u32
  init_proc :: ptr
  kernel_space :: ptr
  tss_rsp0 :: ptr
  syscall_rsp :: ptr
  active_space :: ptr
  msr_fs_base :: u64
  fpu_regs :: "u8 list"
  fpu_init_state :: "u8 list"
  cpu :: cpu_context

text \<open>A freshly zeroed \<^verbatim>\<open>struct task\<close> and \<^verbatim>\<open>struct process\<close>.\<close>

definition task_zero :: "'v sched_state \<Rightarrow> ptr \<Rightarrow> 'v sched_state" where
  "task_zero s t = s\<lparr>t_tid := (t_tid s)(t := 0), t_pid := (t_pid s)(t := 0), t_state := (t_state s)(t := TASK_RUNNABLE),
     t_ctx := (t_ctx s)(t := context_zero), t_kstack_base := (t_kstack_base s)(t := NULL),
     t_kstack_top := (t_kstack_top s)(t := NULL), t_process := (t_process s)(t := NULL), t_parent := (t_parent s)(t := NULL),
     t_exit_status := (t_exit_status s)(t := 0), run_next := (run_next s)(t := NULL), all_next := (all_next s)(t := NULL),
     task_next := (task_next s)(t := NULL), t_flags := (t_flags s)(t := 0), clear_child_tid := (clear_child_tid s)(t := NULL),
     set_child_tid := (set_child_tid s)(t := NULL), t_has_user_frame := (t_has_user_frame s)(t := False),
     t_user_frame := (t_user_frame s)(t := frame_zero), wake_pending := (wake_pending s)(t := 0),
     sleep_deadline_us := (sleep_deadline_us s)(t := 0), sleep_timed_out := (sleep_timed_out s)(t := False),
     fs_base := (fs_base s)(t := 0), gs_base := (gs_base s)(t := 0), fpu_state := (fpu_state s)(t := replicate 1024 0)\<rparr>"

definition process_zero :: "'v sched_state \<Rightarrow> ptr \<Rightarrow> 'v sched_state" where
  "process_zero s p = s\<lparr>p_pid := (p_pid s)(p := 0), p_state := (p_state s)(p := PROCESS_ALIVE),
     p_main_task := (p_main_task s)(p := NULL), p_tasks := (p_tasks s)(p := NULL), p_live_threads := (p_live_threads s)(p := 0),
     p_parent := (p_parent s)(p := NULL), p_first_child := (p_first_child s)(p := NULL),
     p_next_sibling := (p_next_sibling s)(p := NULL), p_exit_status := (p_exit_status s)(p := 0),
     p_group_exit_code := (p_group_exit_code s)(p := 0), p_space := (p_space s)(p := NULL),
     p_user_entry := (p_user_entry s)(p := 0), p_user_stack := (p_user_stack s)(p := 0),
     p_has_user_frame := (p_has_user_frame s)(p := False), p_user_frame := (p_user_frame s)(p := frame_zero),
     slots := (slots s)(p := (\<lambda>_. NULL))\<rparr>"

section \<open>Queues\<close>

definition runq_push :: "'v sched_state \<Rightarrow> ptr \<Rightarrow> 'v sched_state" where
  "runq_push s task =
     (let s = s\<lparr>run_next := (run_next s)(task := NULL)\<rparr>;
          s = (if runq_tail s \<noteq> NULL then s\<lparr>run_next := (run_next s)(runq_tail s := task)\<rparr> else s\<lparr>runq_head := task\<rparr>)
      in s\<lparr>runq_tail := task\<rparr>)"

definition runq_pop :: "'v sched_state \<Rightarrow> ptr \<times> 'v sched_state" where
  "runq_pop s =
     (let task = runq_head s in
      if task = NULL then (NULL, s)
      else
        let s = s\<lparr>runq_head := run_next s task\<rparr>;
            s = (if runq_head s = NULL then s\<lparr>runq_tail := NULL\<rparr> else s)
        in (task, s\<lparr>run_next := (run_next s)(task := NULL)\<rparr>))"

definition all_tasks_add :: "'v sched_state \<Rightarrow> ptr \<Rightarrow> 'v sched_state" where
  "all_tasks_add s task =
     s\<lparr>all_next := (all_next s)(task := all_tasks s), all_tasks := task, nr_tasks := nr_tasks s + 1\<rparr>"

text \<open>The cursor \<^verbatim>\<open>link\<close> is the node whose \<^verbatim>\<open>all_next\<close> it points to, or null for the head.\<close>

partial_function (option) all_tasks_unlink :: "'v sched_state \<Rightarrow> ptr \<Rightarrow> ptr \<Rightarrow> 'v sched_state option" where
  "all_tasks_unlink s link task =
     (let at = (if link = NULL then all_tasks s else all_next s link) in
      if at = NULL then Some s
      else if at = task then
        let s = (if link = NULL then s\<lparr>all_tasks := all_next s task\<rparr>
                 else s\<lparr>all_next := (all_next s)(link := all_next s task)\<rparr>);
            s = s\<lparr>all_next := (all_next s)(task := NULL)\<rparr>
        in Some (if 0 < nr_tasks s then s\<lparr>nr_tasks := nr_tasks s - 1\<rparr> else s)
      else all_tasks_unlink s at task)"

definition all_tasks_remove :: "'v sched_state \<Rightarrow> ptr \<Rightarrow> 'v sched_state option" where
  "all_tasks_remove s task = all_tasks_unlink s NULL task"

section \<open>Switching\<close>

definition free_task :: "'v sched_state \<Rightarrow> ptr \<Rightarrow> 'v sched_state option" where
  "free_task s t =
     do {
       h \<leftarrow> (if t_kstack_base s t \<noteq> NULL
             then kmem_free_pages (heap s) (virt_to_phys (heap s) (t_kstack_base s t)) KSTACK_ORDER
             else Some (heap s));
       h \<leftarrow> kfree h t;
       Some (s\<lparr>heap := h\<rparr>)
     }"

definition sched_finish_switch :: "'v sched_state \<Rightarrow> 'v sched_state option" where
  "sched_finish_switch s =
     (let z = reap_zombie s in
      if z = NULL then Some s
      else do { s \<leftarrow> all_tasks_remove (s\<lparr>reap_zombie := NULL\<rparr>) z; free_task s z })"

definition task_prepare_stack :: "'v sched_state \<Rightarrow> ptr \<Rightarrow> thread_fn \<Rightarrow> ptr \<Rightarrow> 'v sched_state" where
  "task_prepare_stack s t fn arg =
     (let boot = align_down (t_kstack_top s t) 16 - sizeof_thread_boot;
          s = s\<lparr>boot_fn := (boot_fn s)(boot := fn), boot_arg := (boot_arg s)(boot := arg)\<rparr>
      in s\<lparr>t_ctx := (t_ctx s)(t := context_zero\<lparr>rsp := boot, rip := Kernel_thread_entry, rdi := boot\<rparr>)\<rparr>)"

text \<open>\<^verbatim>\<open>rdi\<close> is saved as the address of the context being saved, here named by its task.\<close>

definition context_switch :: "'v sched_state \<Rightarrow> ptr \<Rightarrow> ptr \<Rightarrow> 'v sched_state" where
  "context_switch s prev next =
     (let s = s\<lparr>t_ctx := (t_ctx s)(prev := (cpu s)\<lparr>rip := Switch_resume, rdi := prev\<rparr>)\<rparr> in s\<lparr>cpu := t_ctx s next\<rparr>)"

definition load_task :: "'v sched_state \<Rightarrow> ptr \<Rightarrow> 'v sched_state" where
  "load_task s next =
     s\<lparr>tss_rsp0 := t_kstack_top s next, syscall_rsp := t_kstack_top s next,
       active_space := (if t_process s next \<noteq> NULL \<and> p_space s (t_process s next) \<noteq> NULL
                        then p_space s (t_process s next) else kernel_space s)\<rparr>"

definition switch_to :: "'v sched_state \<Rightarrow> ptr \<Rightarrow> 'v sched_state option" where
  "switch_to s next =
     (let prev = current s in
      if prev = next then
        Some (s\<lparr>t_state := (t_state s)(next := TASK_RUNNING), quantum_left := SCHED_QUANTUM_TICKS\<rparr>)
      else
        let s = s\<lparr>current := next, t_state := (t_state s)(next := TASK_RUNNING), quantum_left := SCHED_QUANTUM_TICKS\<rparr>;
            s = load_task s next;
            s = s\<lparr>fpu_state := (fpu_state s)(prev := fpu_regs s)\<rparr>;
            s = s\<lparr>fpu_regs := fpu_state s next\<rparr>;
            s = s\<lparr>fs_base := (fs_base s)(prev := msr_fs_base s)\<rparr>;
            s = s\<lparr>msr_fs_base := fs_base s next\<rparr>;
            s = (if t_state s prev = TASK_DEAD then s\<lparr>reap_zombie := prev\<rparr> else s);
            s = context_switch s prev next
        in sched_finish_switch s)"

definition schedule_locked :: "'v sched_state \<Rightarrow> 'v sched_state option" where
  "schedule_locked s =
     (let prev = current s;
          s = (if prev \<noteq> NULL \<and> t_state s prev = TASK_RUNNING \<and> prev \<noteq> idle_task s
               then runq_push (s\<lparr>t_state := (t_state s)(prev := TASK_RUNNABLE)\<rparr>) prev else s);
          (next, s) = runq_pop s;
          next = (if next = NULL then idle_task s else next)
      in switch_to s next)"

section \<open>Creating tasks\<close>

definition process_alloc_pid :: "'v sched_state \<Rightarrow> int \<times> 'v sched_state" where
  "process_alloc_pid s =
     (let pid = sint (next_pid s);
          s = s\<lparr>next_pid := next_pid s + 1\<rparr>
      in if pid \<le> 0 then (- ENOMEM, s) else (pid, s))"

definition process_release_pid :: "'v sched_state \<Rightarrow> int \<Rightarrow> 'v sched_state" where
  "process_release_pid s pid = s"

definition kzalloc_task :: "'v sched_state \<Rightarrow> (ptr \<times> 'v sched_state) option" where
  "kzalloc_task s =
     do { (t, h) \<leftarrow> kzalloc (heap s) sizeof_task; let s = s\<lparr>heap := h\<rparr>; Some (t, if t = NULL then s else task_zero s t) }"

definition kzalloc_process :: "'v sched_state \<Rightarrow> (ptr \<times> 'v sched_state) option" where
  "kzalloc_process s =
     do { (p, h) \<leftarrow> kzalloc (heap s) sizeof_process; let s = s\<lparr>heap := h\<rparr>; Some (p, if p = NULL then s else process_zero s p) }"

definition kfree_object_at :: "'v sched_state \<Rightarrow> ptr \<Rightarrow> 'v sched_state option" where
  "kfree_object_at s p = do { h \<leftarrow> kfree (heap s) p; Some (s\<lparr>heap := h\<rparr>) }"

definition free_kstack :: "'v sched_state \<Rightarrow> paddr_t \<Rightarrow> 'v sched_state option" where
  "free_kstack s pa = do { h \<leftarrow> kmem_free_pages (heap s) pa KSTACK_ORDER; Some (s\<lparr>heap := h\<rparr>) }"

definition process_create_kernel :: "'v sched_state \<Rightarrow> ptr \<Rightarrow> (ptr \<times> 'v sched_state) option" where
  "process_create_kernel s task =
     do {
       (proc, s) \<leftarrow> kzalloc_process s;
       if proc = NULL then Some (NULL, s)
       else do {
         let s = s\<lparr>p_pid := (p_pid s)(proc := t_pid s task), p_state := (p_state s)(proc := PROCESS_ALIVE),
                   p_main_task := (p_main_task s)(proc := task), task_next := (task_next s)(task := NULL),
                   p_tasks := (p_tasks s)(proc := task), p_live_threads := (p_live_threads s)(proc := 1)\<rparr>;
         let s = fd_table_init s proc;
         let s = s\<lparr>p_space := (p_space s)(proc := kernel_space s), t_process := (t_process s)(task := proc)\<rparr>;
         Some (proc, s)
       }
     }"

text \<open>The stack and the fields every new task gets before it is queued.\<close>

definition task_init :: "'v sched_state \<Rightarrow> ptr \<Rightarrow> paddr_t \<Rightarrow> int \<Rightarrow> int \<Rightarrow> 'v sched_state" where
  "task_init s task stack_pa tid pid =
     (let base = phys_to_virt (heap s) stack_pa in
      s\<lparr>t_tid := (t_tid s)(task := tid), t_pid := (t_pid s)(task := pid), t_state := (t_state s)(task := TASK_RUNNABLE),
        t_kstack_base := (t_kstack_base s)(task := base), t_kstack_top := (t_kstack_top s)(task := base + KSTACK_SIZE),
        t_parent := (t_parent s)(task := current s)\<rparr>)"

text \<open>The tail of the three constructors: link the task unless the system is full.\<close>

definition task_link :: "'v sched_state \<Rightarrow> ptr \<Rightarrow> 'v sched_state" where
  "task_link s task = runq_push (all_tasks_add s task) task"

definition sched_create_user_task :: "'v sched_state \<Rightarrow> ptr \<Rightarrow> (int \<times> ptr \<times> 'v sched_state) option" where
  "sched_create_user_task s proc =
     (if proc = NULL \<or> p_space s proc = NULL \<or> p_user_entry s proc = 0 \<or> p_user_stack s proc = 0
      then Some (- EINVAL, NULL, s)
      else do {
        (task, s) \<leftarrow> kzalloc_task s;
        if task = NULL then Some (- ENOMEM, NULL, s)
        else do {
          let (stack_pa, h) = kmem_alloc_pages (heap s) KSTACK_ORDER;
          let s = s\<lparr>heap := h\<rparr>;
          if stack_pa = 0 then do { s \<leftarrow> kfree_object_at s task; Some (- ENOMEM, NULL, s) }
          else do {
            let s = task_init s task stack_pa (p_pid s proc) (p_pid s proc);
            let s = (if current s \<noteq> NULL
                     then s\<lparr>fs_base := (fs_base s)(task := fs_base s (current s)), gs_base := (gs_base s)(task := gs_base s (current s))\<rparr>
                     else s);
            let s = s\<lparr>t_process := (t_process s)(task := proc)\<rparr>;
            let s = task_prepare_stack s task User_thread_entry proc;
            let s = s\<lparr>fpu_state := (fpu_state s)(task := fpu_init_state s)\<rparr>;
            let s = s\<lparr>p_main_task := (p_main_task s)(proc := task), task_next := (task_next s)(task := NULL),
                      p_tasks := (p_tasks s)(proc := task), p_live_threads := (p_live_threads s)(proc := 1)\<rparr>;
            if JNU_MAX_TASKS \<le> nr_tasks s then
              do { s \<leftarrow> free_kstack s stack_pa; s \<leftarrow> kfree_object_at s task; Some (- EAGAIN, NULL, s) }
            else Some (0, task, task_link s task)
          }
        }
      })"

text \<open>The range check of \<^verbatim>\<open>kernel/user/copy.c\<close>.\<close>

definition USER_TOP :: u64 where "USER_TOP = 0x0000800000000000"

definition range_end :: "u64 \<Rightarrow> u64 \<Rightarrow> (u64 \<times> u64) option" where
  "range_end uaddr len =
     (let e = uaddr + len in
      if len = 0 then Some (uaddr, uaddr) else if e < uaddr then None else Some (uaddr, e))"

definition user_range_ok :: "u64 \<Rightarrow> u64 \<Rightarrow> bool" where
  "user_range_ok uaddr len =
     (case range_end uaddr len of
        None \<Rightarrow> False
      | Some (start, fin) \<Rightarrow>
          if len = 0 then start < USER_TOP
          else if start = 0 \<or> USER_TOP \<le> start \<or> USER_TOP < fin then False else True)"

definition sched_create_thread_task ::
    "'v sched_state \<Rightarrow> ptr \<Rightarrow> syscall_frame option \<Rightarrow> u64 \<Rightarrow> u64 \<Rightarrow> ptr \<Rightarrow> ptr \<Rightarrow> (int \<times> ptr \<times> 'v sched_state) option" where
  "sched_create_thread_task s proc parent_frame child_stack tls cct sct =
     (case parent_frame of
        None \<Rightarrow> Some (- EINVAL, NULL, s)
      | Some frame \<Rightarrow>
      if proc = NULL \<or> p_space s proc = NULL \<or> child_stack = 0 then Some (- EINVAL, NULL, s)
      else if \<not> user_range_ok child_stack 1 then Some (- EFAULT, NULL, s)
      else do {
        (task, s) \<leftarrow> kzalloc_task s;
        if task = NULL then Some (- ENOMEM, NULL, s)
        else do {
          let (stack_pa, h) = kmem_alloc_pages (heap s) KSTACK_ORDER;
          let s = s\<lparr>heap := h\<rparr>;
          if stack_pa = 0 then do { s \<leftarrow> kfree_object_at s task; Some (- ENOMEM, NULL, s) }
          else do {
            let (tid, s) = process_alloc_pid s;
            if tid < 0 then do { s \<leftarrow> free_kstack s stack_pa; s \<leftarrow> kfree_object_at s task; Some (tid, NULL, s) }
            else do {
              let s = task_init s task stack_pa tid (p_pid s proc);
              let s = s\<lparr>t_process := (t_process s)(task := proc), fs_base := (fs_base s)(task := tls),
                        gs_base := (gs_base s)(task := (if current s \<noteq> NULL then gs_base s (current s) else 0)),
                        clear_child_tid := (clear_child_tid s)(task := cct), set_child_tid := (set_child_tid s)(task := sct),
                        t_user_frame := (t_user_frame s)(task := frame\<lparr>user_rsp := child_stack\<rparr>),
                        t_has_user_frame := (t_has_user_frame s)(task := True)\<rparr>;
              let s = task_prepare_stack s task Thread_user_entry task;
              let s = s\<lparr>fpu_state := (fpu_state s)(task := fpu_init_state s)\<rparr>;
              if JNU_MAX_TASKS \<le> nr_tasks s then
                do { let s = process_release_pid s (t_tid s task);
                     s \<leftarrow> free_kstack s stack_pa; s \<leftarrow> kfree_object_at s task; Some (- EAGAIN, NULL, s) }
              else
                let s = s\<lparr>task_next := (task_next s)(task := p_tasks s proc), p_tasks := (p_tasks s)(proc := task)\<rparr>
                in Some (0, task, task_link s task)
            }
          }
        }
      })"

definition sched_create_kernel_thread :: "'v sched_state \<Rightarrow> ptr \<Rightarrow> ptr \<Rightarrow> (int \<times> ptr \<times> 'v sched_state) option" where
  "sched_create_kernel_thread s fn arg =
     (if fn = NULL then Some (- EINVAL, NULL, s)
      else do {
        (task, s) \<leftarrow> kzalloc_task s;
        if task = NULL then Some (- ENOMEM, NULL, s)
        else do {
          let (stack_pa, h) = kmem_alloc_pages (heap s) KSTACK_ORDER;
          let s = s\<lparr>heap := h\<rparr>;
          if stack_pa = 0 then do { s \<leftarrow> kfree_object_at s task; Some (- ENOMEM, NULL, s) }
          else do {
            let (pid, s) = process_alloc_pid s;
            if pid < 0 then do { s \<leftarrow> free_kstack s stack_pa; s \<leftarrow> kfree_object_at s task; Some (pid, NULL, s) }
            else do {
              let s = task_init s task stack_pa pid pid;
              let s = task_prepare_stack s task (Kernel_fn fn) arg;
              let s = s\<lparr>fpu_state := (fpu_state s)(task := fpu_init_state s)\<rparr>;
              (proc, s) \<leftarrow> process_create_kernel s task;
              let s = s\<lparr>t_process := (t_process s)(task := proc)\<rparr>;
              if proc = NULL then
                do { let s = process_release_pid s pid;
                     s \<leftarrow> free_kstack s stack_pa; s \<leftarrow> kfree_object_at s task; Some (- ENOMEM, NULL, s) }
              else if JNU_MAX_TASKS \<le> nr_tasks s then
                do { let s = process_release_pid s pid;
                     s \<leftarrow> free_kstack s stack_pa; s \<leftarrow> kfree_object_at s task; Some (- EAGAIN, NULL, s) }
              else Some (0, task, task_link s task)
            }
          }
        }
      })"

text \<open>\<open>rsp_now\<close> is the stack pointer at the call.\<close>

definition sched_init :: "'v sched_state \<Rightarrow> nat \<Rightarrow> 'v sched_state option" where
  "sched_init s rsp_now =
     do {
       let b = boot_task s;
       let i = idle_task s;
       let s = task_zero s b;
       let (pid, s) = process_alloc_pid s;
       let s = s\<lparr>t_pid := (t_pid s)(b := pid), t_tid := (t_tid s)(b := pid), t_state := (t_state s)(b := TASK_RUNNING),
                 t_kstack_top := (t_kstack_top s)(b := align_down (rsp_now + 0xFFF) 4096)\<rparr>;
       (proc, s) \<leftarrow> process_create_kernel s b;
       let s = s\<lparr>t_process := (t_process s)(b := proc)\<rparr>;
       let s = s\<lparr>syscall_rsp := t_kstack_top s b, current := b, fpu_state := (fpu_state s)(b := fpu_init_state s)\<rparr>;
       let s = all_tasks_add s b;
       let s = task_zero s i;
       let (tid, s) = process_alloc_pid s;
       let s = s\<lparr>t_tid := (t_tid s)(i := tid), t_pid := (t_pid s)(i := 0), t_state := (t_state s)(i := TASK_RUNNABLE)\<rparr>;
       let (pa, h) = kmem_alloc_pages (heap s) KSTACK_ORDER;
       let s = s\<lparr>heap := h\<rparr>;
       let s = s\<lparr>t_kstack_base := (t_kstack_base s)(i := phys_to_virt h pa),
                 t_kstack_top := (t_kstack_top s)(i := phys_to_virt h pa + KSTACK_SIZE)\<rparr>;
       let s = task_prepare_stack s i Idle_loop NULL;
       let s = s\<lparr>fpu_state := (fpu_state s)(i := fpu_init_state s)\<rparr>;
       Some (all_tasks_add s i)
     }"

section \<open>Yielding, leaving, sleeping and waking\<close>

definition sched_yield :: "'v sched_state \<Rightarrow> 'v sched_state option" where
  "sched_yield s = schedule_locked s"

text \<open>\<^verbatim>\<open>status & 0xFF\<close> of a C int.\<close>

definition sched_exit_current :: "'v sched_state \<Rightarrow> int \<Rightarrow> 'v sched_state option" where
  "sched_exit_current s status =
     schedule_locked (s\<lparr>t_exit_status := (t_exit_status s)(current s := status AND 0xFF),
                        t_state := (t_state s)(current s := TASK_ZOMBIE)\<rparr>)"

definition sched_exit_detached :: "'v sched_state \<Rightarrow> 'v sched_state option" where
  "sched_exit_detached s = schedule_locked (s\<lparr>t_state := (t_state s)(current s := TASK_DEAD)\<rparr>)"

definition signal_pending :: "'v sched_state \<Rightarrow> bool" where
  "signal_pending s \<longleftrightarrow> current s \<noteq> NULL \<and> t_flags s (current s) AND TIF_NEED_DIE \<noteq> 0"

text \<open>
  The timed sleep up to the switch: \<open>Inl r\<close> when it returns \<open>r\<close> without blocking, \<open>Inr\<close> the
  deadline it computed otherwise; then the second half under \<^verbatim>\<open>sched_lock\<close>, and the part that
  runs when the task is current again. Between the first test and the lock the task can be
  preempted.
\<close>

definition sleep_timed_start :: "'v sched_state \<Rightarrow> u64 \<Rightarrow> u64 \<Rightarrow> int + u64" where
  "sleep_timed_start s timeout_us now =
     (if signal_pending s then Inl (- EINTR)
      else Inr (if timeout_us \<noteq> 0 then if NOT 0 - now < timeout_us then NOT 0 else now + timeout_us else 0))"

definition sleep_timed_block :: "'v sched_state \<Rightarrow> u64 \<Rightarrow> (int option \<times> 'v sched_state) option" where
  "sleep_timed_block s deadline =
     (let c = current s in
      if 0 < wake_pending s c then
        let s = s\<lparr>wake_pending := (wake_pending s)(c := wake_pending s c - 1)\<rparr>
        in Some (Some (if signal_pending s then - EINTR else 0), s)
      else do {
        s \<leftarrow> schedule_locked (s\<lparr>sleep_timed_out := (sleep_timed_out s)(c := False),
               sleep_deadline_us := (sleep_deadline_us s)(c := deadline), t_state := (t_state s)(c := TASK_SLEEPING)\<rparr>);
        Some (None, s)
      })"

definition sleep_timed_resume :: "'v sched_state \<Rightarrow> int \<times> 'v sched_state" where
  "sleep_timed_resume s =
     (let c = current s;
          s = s\<lparr>sleep_deadline_us := (sleep_deadline_us s)(c := 0)\<rparr>
      in if signal_pending s then (- EINTR, s)
         else if sleep_timed_out s c then (- ETIMEDOUT, s\<lparr>sleep_timed_out := (sleep_timed_out s)(c := False)\<rparr>)
         else (0, s))"

definition sched_consume_wake_pending :: "'v sched_state \<Rightarrow> ptr \<Rightarrow> 'v sched_state" where
  "sched_consume_wake_pending s task =
     (if task \<noteq> NULL \<and> 0 < wake_pending s task
      then s\<lparr>wake_pending := (wake_pending s)(task := wake_pending s task - 1)\<rparr> else s)"

definition sched_sleep_current :: "'v sched_state \<Rightarrow> 'v sched_state option" where
  "sched_sleep_current s =
     (let c = current s in
      if 0 < wake_pending s c then Some (s\<lparr>wake_pending := (wake_pending s)(c := wake_pending s c - 1)\<rparr>)
      else schedule_locked (s\<lparr>t_state := (t_state s)(c := TASK_SLEEPING)\<rparr>))"

definition sched_wake :: "'v sched_state \<Rightarrow> ptr \<Rightarrow> 'v sched_state" where
  "sched_wake s task =
     (if task = NULL then s
      else
        let s = s\<lparr>wake_pending := (wake_pending s)(task := wake_pending s task + 1)\<rparr>
        in if t_state s task = TASK_SLEEPING then
             runq_push (s\<lparr>wake_pending := (wake_pending s)(task := wake_pending s task - 1),
               sleep_timed_out := (sleep_timed_out s)(task := False),
               sleep_deadline_us := (sleep_deadline_us s)(task := 0),
               t_state := (t_state s)(task := TASK_RUNNABLE)\<rparr>) task
           else s)"

partial_function (option) expire_from :: "'v sched_state \<Rightarrow> u64 \<Rightarrow> ptr \<Rightarrow> 'v sched_state option" where
  "expire_from s now t =
     (if t = NULL then Some s
      else if t_state s t \<noteq> TASK_SLEEPING \<or> sleep_deadline_us s t = 0 then expire_from s now (all_next s t)
      else if now < sleep_deadline_us s t then expire_from s now (all_next s t)
      else
        let s = runq_push (s\<lparr>sleep_timed_out := (sleep_timed_out s)(t := True),
                  sleep_deadline_us := (sleep_deadline_us s)(t := 0), t_state := (t_state s)(t := TASK_RUNNABLE)\<rparr>) t
        in expire_from s now (all_next s t))"

definition sched_expire_timed_sleepers :: "'v sched_state \<Rightarrow> u64 \<Rightarrow> 'v sched_state option" where
  "sched_expire_timed_sleepers s now = expire_from s now (all_tasks s)"

definition sched_tick :: "'v sched_state \<Rightarrow> u64 \<Rightarrow> 'v sched_state option" where
  "sched_tick s now =
     do {
       let s = s\<lparr>tick_count := tick_count s + 1\<rparr>;
       s \<leftarrow> sched_expire_timed_sleepers s now;
       let s = (if 0 < quantum_left s then s\<lparr>quantum_left := quantum_left s - 1\<rparr> else s);
       if quantum_left s \<noteq> 0 then Some s
       else schedule_locked (s\<lparr>preempt_pending := preempt_pending s + 1, quantum_left := SCHED_QUANTUM_TICKS\<rparr>)
     }"

definition sched_reap_task :: "'v sched_state \<Rightarrow> ptr \<Rightarrow> 'v sched_state option" where
  "sched_reap_task s task =
     (if task = NULL \<or> task = current s then Some s
      else do { s \<leftarrow> all_tasks_remove s task; free_task s task })"

end
