(* ===== verification/Sched_Inv.thy ===== *)
theory Sched_Inv
  imports Sched
begin

text \<open>
  The scheduler's invariant and what each operation of \<^verbatim>\<open>kernel/kernel/sched.c\<close> does to it. The run
  queue and the list of all tasks are read as HOL lists: \<open>R\<close>, the runnable tasks in the order in
  which they will run, and \<open>A\<close>, every task of the system.
\<close>

section \<open>The queues as lists\<close>

definition rq :: "(ptr \<Rightarrow> ptr) \<Rightarrow> ptr \<Rightarrow> ptr \<Rightarrow> ptr list \<Rightarrow> bool" where
  "rq N h z R \<longleftrightarrow> sll N h R \<and> z = (if R = [] then 0 else last R)"

abbreviation (input) runq :: "'v sched_state \<Rightarrow> ptr list \<Rightarrow> bool" where
  "runq s R \<equiv> rq (run_next s) (runq_head s) (runq_tail s) R"

lemma runq_push_eq:
  "runq_push s t = s\<lparr>run_next := (if runq_tail s \<noteq> 0 then (run_next s)(t := 0, runq_tail s := t) else (run_next s)(t := 0)),
     runq_head := (if runq_tail s \<noteq> 0 then runq_head s else t), runq_tail := t\<rparr>"
  by (simp add: runq_push_def Let_def)

lemma runq_pop_eq:
  "runq_pop s = (if runq_head s = 0 then (0, s)
     else (runq_head s, s\<lparr>runq_head := run_next s (runq_head s),
       runq_tail := (if run_next s (runq_head s) = 0 then 0 else runq_tail s), run_next := (run_next s)(runq_head s := 0)\<rparr>))"
  by (simp add: runq_pop_def Let_def)

lemma rq_push:
  assumes "rq N h z R" "t \<notin> set R" "t \<noteq> 0"
  shows "rq (if z \<noteq> 0 then N(t := 0, z := t) else N(t := 0)) (if z \<noteq> 0 then h else t) t (R @ [t])"
proof -
  have "z \<noteq> 0 \<longleftrightarrow> R \<noteq> []" using assms(1) sll_last_link [of N h R "[]"] by (auto simp: rq_def)
  then show ?thesis using sll_snoc [of N h R t] assms by (auto simp: rq_def)
qed

lemma rq_pop:
  assumes "rq N h z (t # R)"
  shows "h = t" "t \<noteq> 0" "t \<notin> set R" "rq N (N t) (if N t = 0 then 0 else z) R"
proof -
  show "h = t" "t \<noteq> 0" "t \<notin> set R" using assms sll_distinct [of N h "t # R"] by (auto simp: rq_def)
  have s: "sll N (N t) R" using assms by (simp add: rq_def)
  then show "rq N (N t) (if N t = 0 then 0 else z) R" using assms sll_null [OF s] by (auto simp: rq_def)
qed

lemma rq_head: "rq N h z R \<Longrightarrow> h = first_or_null R"
  by (auto simp: rq_def dest: sll_head)

lemma runq_push_rq:
  assumes "runq s R" "t \<notin> set R" "t \<noteq> 0"
  shows "runq (runq_push s t) (R @ [t])"
  using rq_push [OF assms] by (simp add: runq_push_eq)

lemma runq_pop_rq:
  assumes "runq s (t # R)"
  shows "fst (runq_pop s) = t" "runq (snd (runq_pop s)) R"
proof -
  note p = rq_pop [OF assms]
  show "fst (runq_pop s) = t" using p by (simp add: runq_pop_eq)
  show "runq (snd (runq_pop s)) R" using p by (simp add: runq_pop_eq rq_def)
qed

lemma runq_pop_empty: "runq s [] \<Longrightarrow> runq_pop s = (0, s)"
  by (simp add: rq_def runq_pop_eq)

text \<open>Removing a task from the list of all tasks.\<close>

lemma all_tasks_unlink_result:
  assumes "sll (all_next s) (all_tasks s) (as @ bs @ x # cs)" "link = (if as = [] then 0 else last as)"
  shows "all_tasks_unlink s link x = Some (s\<lparr>
    all_tasks := (if as @ bs = [] then all_next s x else all_tasks s),
    all_next := (if as @ bs = [] then all_next s else (all_next s)(last (as @ bs) := all_next s x))(x := 0),
    nr_tasks := (if 0 < nr_tasks s then nr_tasks s - 1 else nr_tasks s)\<rparr>)"
  using assms
proof (induction bs arbitrary: as link)
  case Nil
  have h: "all_tasks s = first_or_null (as @ x # cs)" using sll_head Nil by auto
  have x: "x \<noteq> 0" using sll_links(2) Nil by auto
  show ?case
  proof (cases "as = []")
    case True
    then show ?thesis using Nil h x by (subst all_tasks_unlink.simps) (simp add: Let_def)
  next
    case False
    have "all_next s (last as) = x" "last as \<noteq> 0"
      using sll_last_link [of "all_next s" "all_tasks s" as "x # cs"] Nil False by auto
    then show ?thesis using Nil False x by (subst all_tasks_unlink.simps) (simp add: Let_def fun_upd_twist)
  qed
next
  case (Cons b bs)
  have d: "b \<noteq> x" "b \<noteq> 0" using sll_distinct [OF Cons.prems(1)] sll_no_null [OF Cons.prems(1)] by auto
  have b: "(if link = 0 then all_tasks s else all_next s link) = b"
  proof (cases "as = []")
    case True
    then show ?thesis using Cons.prems sll_head by fastforce
  next
    case False
    then show ?thesis
      using sll_last_link [of "all_next s" "all_tasks s" as "b # bs @ x # cs"] Cons.prems by auto
  qed
  have "all_tasks_unlink s link x = all_tasks_unlink s b x"
    using b d by (subst all_tasks_unlink.simps) (simp add: Let_def)
  then show ?case using Cons.IH [of "as @ [b]" b] Cons.prems(1) by simp
qed

lemma all_tasks_remove_result:
  assumes "sll (all_next s) (all_tasks s) A" "x \<in> set A" "nr_tasks s = int (length A)"
  obtains N h where "all_tasks_remove s x = Some (s\<lparr>all_tasks := h, all_next := N, nr_tasks := int (length (remove1 x A))\<rparr>)"
    "sll N h (remove1 x A)"
proof -
  obtain bs cs where A: "A = bs @ x # cs" "x \<notin> set bs" using assms(2) by (metis split_list_first)
  have r: "remove1 x A = bs @ cs" using A by (simp add: remove1_append)
  note R = all_tasks_unlink_result [of s "[]" bs x cs 0] and S = sll_remove [of "all_next s" "all_tasks s" bs x cs]
  show ?thesis
  proof (rule that)
    show "all_tasks_remove s x = Some (s\<lparr>all_tasks := (if bs = [] then all_next s x else all_tasks s),
        all_next := (if bs = [] then all_next s else (all_next s)(last bs := all_next s x))(x := 0),
        nr_tasks := int (length (remove1 x A))\<rparr>)"
      using R assms A(1) r by (simp add: all_tasks_remove_def)
    show "sll ((if bs = [] then all_next s else (all_next s)(last bs := all_next s x))(x := 0))
        (if bs = [] then all_next s x else all_tasks s) (remove1 x A)"
      using S assms(1) A(1) r by simp
  qed
qed

section \<open>Memory of the tasks\<close>

definition stack_blk :: "'v sched_state \<Rightarrow> ptr \<Rightarrow> nat set" where
  "stack_blk s t = blk (pg (heap s) (t_kstack_base s t)) KSTACK_ORDER"

definition stack_ok :: "'v sched_state \<Rightarrow> ptr \<Rightarrow> bool" where
  "stack_ok s t \<longleftrightarrow> at_page (heap s) (t_kstack_base s t) \<and>
     block_fits (pfn_count (pmm (heap s))) (pg (heap s) (t_kstack_base s t)) KSTACK_ORDER \<and>
     stack_blk s t \<inter> pool (heap s) = {}"

text \<open>
  The boot task and the idle task are static objects, and the boot task runs on the boot stack;
  every other task is a heap object, and every task but the boot task owns its stack pages.
\<close>

definition mem_inv :: "'v sched_state \<Rightarrow> ptr set \<Rightarrow> bool" where
  "mem_inv s A \<longleftrightarrow> kmem_inv (heap s) \<and> (\<forall>t\<in>A - {boot_task s, idle_task s}. t \<in> live (heap s)) \<and>
     boot_task s \<notin> live (heap s) \<and> idle_task s \<notin> live (heap s) \<and>
     (\<forall>t\<in>A - {boot_task s}. stack_ok s t) \<and>
     (\<forall>t\<in>A - {boot_task s}. \<forall>u\<in>A - {boot_task s}. t \<noteq> u \<longrightarrow> stack_blk s t \<inter> stack_blk s u = {})"

lemma free_task_result:
  assumes inv: "mem_inv s A" and t: "t \<in> A" "t \<noteq> boot_task s" "t \<noteq> idle_task s"
  shows "\<exists>h. free_task s t = Some (s\<lparr>heap := h\<rparr>) \<and> mem_inv (s\<lparr>heap := h\<rparr>) (A - {t}) \<and> live h = live (heap s) - {t} \<and>
    pool h = pool (heap s) \<union> stack_blk s t \<and> hhdm h = hhdm (heap s)"
proof -
  let ?p = "pg (heap s) (t_kstack_base s t)"
  have I: "kmem_inv (heap s)" and lv: "t \<in> live (heap s)" and st: "stack_ok s t" using inv t by (auto simp: mem_inv_def)
  have core: "kmem_core (heap s)" using I by (simp add: kmem_inv_def)
  have at: "t_kstack_base s t = hhdm (heap s) + ?p * 4096" "0 < ?p" using st by (auto simp: stack_ok_def at_page_def)
  have fits: "block_fits (pfn_count (pmm (heap s))) ?p KSTACK_ORDER" using st by (simp add: stack_ok_def)
  have dis: "blk ?p KSTACK_ORDER \<inter> free_set (pmm (heap s)) = {}" "\<And>h. kpages (heap s) h \<inter> blk ?p KSTACK_ORDER = {}"
    using st by (auto simp: stack_ok_def stack_blk_def pool_def)
  obtain h1 where h1: "kmem_free_pages (heap s) (pfn_to_pa ?p) KSTACK_ORDER = Some h1" "kmem_inv h1" "live h1 = live (heap s)"
    "free_set (pmm h1) = free_set (pmm (heap s)) \<union> blk ?p KSTACK_ORDER" "hhdm h1 = hhdm (heap s)" "kpages h1 = kpages (heap s)"
    "pfn_count (pmm h1) = pfn_count (pmm (heap s))"
    using release_result [OF I fits dis] by blast
  obtain h2 where h2: "kfree h1 t = Some h2" "kmem_inv h2" "live h2 = live h1 - {t}" "same_pool h1 h2"
    using kfree_result [OF h1(2)] lv h1(3) by blast
  have p1: "pool h1 = pool (heap s) \<union> stack_blk s t" using h1(4,6) by (auto simp: pool_def stack_blk_def)
  then have p2: "pool h2 = pool (heap s) \<union> stack_blk s t" "hhdm h2 = hhdm (heap s)" "pfn_count (pmm h2) = pfn_count (pmm (heap s))"
    using h2(4) h1(5,7) by (auto simp: same_pool_def)
  have "free_task s t = Some (s\<lparr>heap := h2\<rparr>)"
    using h1(1) h2(1) at virt_to_phys_page [of "heap s" ?p] by (simp add: free_task_def)
  moreover have "mem_inv (s\<lparr>heap := h2\<rparr>) (A - {t})"
  proof -
    have blk: "stack_blk (s\<lparr>heap := h2\<rparr>) u = stack_blk s u" for u using p2(2) by (simp add: stack_blk_def pg_def)
    have "stack_ok (s\<lparr>heap := h2\<rparr>) u" if u: "u \<in> A - {t} - {boot_task s}" for u
    proof -
      have "stack_ok s u" "stack_blk s u \<inter> stack_blk s t = {}" using inv u t by (auto simp: mem_inv_def)
      then show ?thesis using p2 blk [of u] by (auto simp: stack_ok_def at_page_def pg_def)
    qed
    then show ?thesis using inv h2(2,3) h1(3) blk by (auto simp: mem_inv_def)
  qed
  ultimately show ?thesis using h2(3) h1(3) p2(1,2) by blast
qed

section \<open>The invariant\<close>

text \<open>
  \<open>sched_mid\<close> leaves the state of the running task open, as it is between its change and the
  call of \<^verbatim>\<open>schedule_locked\<close>; \<open>sched_inv\<close> holds whenever the lock is free.
\<close>

definition sched_mid :: "'v sched_state \<Rightarrow> ptr list \<Rightarrow> ptr list \<Rightarrow> bool" where
  "sched_mid s R A \<longleftrightarrow> runq s R \<and> sll (all_next s) (all_tasks s) A \<and> nr_tasks s = int (length A) \<and>
     idle_task s \<in> set A \<and> current s \<in> set A \<and> reap_zombie s = 0 \<and>
     set R = {t \<in> set A. t_state s t = TASK_RUNNABLE \<and> t \<noteq> idle_task s} \<and>
     (\<forall>t\<in>set A. t \<noteq> current s \<longrightarrow> t_state s t \<noteq> TASK_DEAD \<and> (t_state s t = TASK_RUNNING \<longrightarrow> t = idle_task s)) \<and>
     t_state s (idle_task s) \<in> {TASK_RUNNABLE, TASK_RUNNING} \<and> t_state s (current s) \<noteq> TASK_RUNNABLE \<and>
     mem_inv s (set A)"

definition sched_inv :: "'v sched_state \<Rightarrow> ptr list \<Rightarrow> ptr list \<Rightarrow> bool" where
  "sched_inv s R A \<longleftrightarrow> sched_mid s R A \<and> t_state s (current s) = TASK_RUNNING"

text \<open>The fields a switch may change; all others are as before.\<close>

definition switched :: "'v sched_state \<Rightarrow> 'v sched_state \<Rightarrow> bool" where
  "switched s s' \<longleftrightarrow> s'\<lparr>heap := heap s, t_state := t_state s, t_ctx := t_ctx s, run_next := run_next s, all_next := all_next s,
     fs_base := fs_base s, fpu_state := fpu_state s, current := current s, runq_head := runq_head s, runq_tail := runq_tail s,
     all_tasks := all_tasks s, nr_tasks := nr_tasks s, quantum_left := quantum_left s, tss_rsp0 := tss_rsp0 s,
     syscall_rsp := syscall_rsp s, active_space := active_space s, msr_fs_base := msr_fs_base s, fpu_regs := fpu_regs s,
     cpu := cpu s\<rparr> = s"

text \<open>What a task finds in the processor when it runs: saved while it does not.\<close>

definition task_cpu :: "'v sched_state \<Rightarrow> ptr \<Rightarrow> u64 list \<times> nat \<times> u64 \<times> u8 list" where
  "task_cpu s t =
     (let c = (if t = current s then cpu s else t_ctx s t) in
      ([r15 c, r14 c, r13 c, r12 c, rbx c, rbp c], rsp c,
       if t = current s then msr_fs_base s else fs_base s t, if t = current s then fpu_regs s else fpu_state s t))"

definition rotation :: "'v sched_state \<Rightarrow> ptr list \<Rightarrow> ptr list" where
  "rotation s R = R @ (if t_state s (current s) = TASK_RUNNING \<and> current s \<noteq> idle_task s then [current s] else [])"

definition next_task :: "'v sched_state \<Rightarrow> ptr list \<Rightarrow> ptr" where
  "next_task s R = (case rotation s R of [] \<Rightarrow> idle_task s | t # _ \<Rightarrow> t)"

definition next_states :: "'v sched_state \<Rightarrow> ptr list \<Rightarrow> ptr \<Rightarrow> task_state" where
  "next_states s R t = (if t = next_task s R then TASK_RUNNING
     else if t = current s \<and> t_state s t = TASK_RUNNING \<and> t \<noteq> idle_task s then TASK_RUNNABLE else t_state s t)"

definition survivors :: "'v sched_state \<Rightarrow> ptr list \<Rightarrow> ptr list" where
  "survivors s A = (if t_state s (current s) = TASK_DEAD then remove1 (current s) A else A)"

lemma sched_midD:
  assumes "sched_mid s R A"
  shows "runq s R" "sll (all_next s) (all_tasks s) A" "nr_tasks s = int (length A)" "idle_task s \<in> set A" "current s \<in> set A"
    "reap_zombie s = 0" "mem_inv s (set A)" "distinct R" "distinct A" "0 \<notin> set A" "current s \<noteq> 0" "idle_task s \<noteq> 0"
    "current s \<notin> set R" "set R \<subseteq> set A" "0 \<notin> set R"
proof -
  show a: "runq s R" "sll (all_next s) (all_tasks s) A" "nr_tasks s = int (length A)" "idle_task s \<in> set A" "current s \<in> set A"
    "reap_zombie s = 0" "mem_inv s (set A)" using assms by (simp_all add: sched_mid_def)
  show "distinct R" "distinct A" "0 \<notin> set A" using a sll_distinct sll_no_null by (auto simp: rq_def)
  then show "current s \<noteq> 0" "idle_task s \<noteq> 0" using a(4,5) by metis+
  show "current s \<notin> set R" "set R \<subseteq> set A" using assms by (auto simp: sched_mid_def)
  then show "0 \<notin> set R" using \<open>0 \<notin> set A\<close> by blast
qed

lemma pick_next:
  assumes "sched_mid s R A"
  shows "\<exists>N h z. runq_pop (if current s \<noteq> NULL \<and> t_state s (current s) = TASK_RUNNING \<and> current s \<noteq> idle_task s
        then runq_push (s\<lparr>t_state := (t_state s)(current s := TASK_RUNNABLE)\<rparr>) (current s) else s) =
      (first_or_null (rotation s R), s\<lparr>t_state := (if t_state s (current s) = TASK_RUNNING \<and> current s \<noteq> idle_task s
          then (t_state s)(current s := TASK_RUNNABLE) else t_state s), run_next := N, runq_head := h, runq_tail := z\<rparr>) \<and>
    rq N h z (tl (rotation s R))"
proof -
  note d = sched_midD [OF assms]
  define u where "u = (if t_state s (current s) = TASK_RUNNING \<and> current s \<noteq> idle_task s
        then runq_push (s\<lparr>t_state := (t_state s)(current s := TASK_RUNNABLE)\<rparr>) (current s) else s)"
  have u: "u = s\<lparr>t_state := (if t_state s (current s) = TASK_RUNNING \<and> current s \<noteq> idle_task s
      then (t_state s)(current s := TASK_RUNNABLE) else t_state s), run_next := run_next u, runq_head := runq_head u, runq_tail := runq_tail u\<rparr>"
    by (cases "t_state s (current s) = TASK_RUNNING \<and> current s \<noteq> idle_task s") (auto simp: u_def runq_push_eq)
  have q: "runq u (rotation s R)"
  proof (cases "t_state s (current s) = TASK_RUNNING \<and> current s \<noteq> idle_task s")
    case True
    then have "runq u (R @ [current s])"
      unfolding u_def using runq_push_rq [of "s\<lparr>t_state := (t_state s)(current s := TASK_RUNNABLE)\<rparr>" R "current s"] d(1,11,13) by simp
    then show ?thesis using True by (simp add: rotation_def)
  next
    case False
    then have "u = s" "rotation s R = R" unfolding u_def rotation_def by auto
    then show ?thesis using d(1) by simp
  qed
  have pop: "runq_pop u = (first_or_null (rotation s R), snd (runq_pop u)) \<and> runq (snd (runq_pop u)) (tl (rotation s R))"
  proof (cases "rotation s R")
    case Nil
    then show ?thesis using q runq_pop_empty [of u] by simp
  next
    case (Cons t Q)
    then show ?thesis using q runq_pop_rq [of u t Q] by (metis first_or_null_simps(2) list.sel(3) prod.collapse)
  qed
  let ?v = "snd (runq_pop u)"
  have v: "?v = u\<lparr>run_next := run_next ?v, runq_head := runq_head ?v, runq_tail := runq_tail ?v\<rparr>"
    by (cases "runq_head u = 0") (simp_all add: runq_pop_eq)
  have cu: "(if current s \<noteq> NULL \<and> t_state s (current s) = TASK_RUNNING \<and> current s \<noteq> idle_task s
        then runq_push (s\<lparr>t_state := (t_state s)(current s := TASK_RUNNABLE)\<rparr>) (current s) else s) = u"
    using d(11) by (simp add: u_def)
  have "?v = s\<lparr>t_state := (if t_state s (current s) = TASK_RUNNING \<and> current s \<noteq> idle_task s
      then (t_state s)(current s := TASK_RUNNABLE) else t_state s), run_next := run_next ?v, runq_head := runq_head ?v, runq_tail := runq_tail ?v\<rparr>"
    by (subst v, subst u) simp
  then show ?thesis unfolding cu using pop by metis
qed

end
