(* ===== verification/Sched_Ops.thy ===== *)
theory Sched_Ops
  imports Sched_Inv
begin

text \<open>
  The operations of \<^verbatim>\<open>kernel/kernel/sched.c\<close> over the scheduler's invariant: the switch, the ways to
  give up the processor, waking, the timer tick, and the creation and removal of tasks.
\<close>

section \<open>The switch\<close>

lemma switch_to_other:
  assumes "current s \<noteq> next"
  shows "switch_to s next = sched_finish_switch (s\<lparr>current := next, t_state := (t_state s)(next := TASK_RUNNING),
    quantum_left := SCHED_QUANTUM_TICKS, tss_rsp0 := t_kstack_top s next, syscall_rsp := t_kstack_top s next,
    active_space := (if t_process s next \<noteq> NULL \<and> p_space s (t_process s next) \<noteq> NULL
      then p_space s (t_process s next) else kernel_space s),
    fpu_state := (fpu_state s)(current s := fpu_regs s), fpu_regs := fpu_state s next,
    fs_base := (fs_base s)(current s := msr_fs_base s), msr_fs_base := fs_base s next,
    reap_zombie := (if t_state s (current s) = TASK_DEAD then current s else reap_zombie s),
    t_ctx := (t_ctx s)(current s := (cpu s)\<lparr>rip := Switch_resume, rdi := current s\<rparr>), cpu := t_ctx s next\<rparr>)"
proof -
  note d = switch_to_def load_task_def context_switch_def Let_def
  show ?thesis
  proof (cases "t_state s (current s) = TASK_DEAD")
    case True
    then show ?thesis using assms unfolding d by simp
  next
    case False
    then show ?thesis using assms unfolding d by simp
  qed
qed

lemma finish_switch_none: "reap_zombie s = 0 \<Longrightarrow> sched_finish_switch s = Some s"
  by (simp add: sched_finish_switch_def)

lemma mem_inv_cong:
  assumes "mem_inv s A" "heap s' = heap s" "boot_task s' = boot_task s" "idle_task s' = idle_task s" "t_kstack_base s' = t_kstack_base s"
  shows "mem_inv s' A"
proof -
  have "stack_blk s' = stack_blk s" "stack_ok s' = stack_ok s"
    using assms(2-) by (simp_all add: stack_blk_def stack_ok_def fun_eq_iff)
  then show ?thesis using assms by (simp add: mem_inv_def)
qed

lemma mem_inv_subset: "mem_inv s A \<Longrightarrow> B \<subseteq> A \<Longrightarrow> mem_inv s B"
  unfolding mem_inv_def by blast

text \<open>Reaping the task that a switch has left dead.\<close>

lemma finish_switch_dead:
  assumes "sll (all_next s) (all_tasks s) A" "nr_tasks s = int (length A)" "mem_inv s (set A)"
    "reap_zombie s = z" "z \<in> set A" "z \<noteq> 0" "z \<noteq> boot_task s" "z \<noteq> idle_task s"
  obtains N h m where "sched_finish_switch s =
      Some (s\<lparr>reap_zombie := 0, all_tasks := h, all_next := N, nr_tasks := int (length (remove1 z A)), heap := m\<rparr>)"
    "sll N h (remove1 z A)" "live m = live (heap s) - {z}" "pool m = pool (heap s) \<union> stack_blk s z"
    "mem_inv (s\<lparr>heap := m\<rparr>) (set (remove1 z A))"
proof -
  have dA: "distinct A" by (rule sll_distinct [OF assms(1)])
  then have set: "set (remove1 z A) = set A - {z}" by (simp add: set_remove1_eq)
  obtain N h where r: "all_tasks_remove (s\<lparr>reap_zombie := 0\<rparr>) z =
      Some (s\<lparr>reap_zombie := 0, all_tasks := h, all_next := N, nr_tasks := int (length (remove1 z A))\<rparr>)" "sll N h (remove1 z A)"
    using all_tasks_remove_result [of "s\<lparr>reap_zombie := 0\<rparr>" A z] assms(1,2,5) by auto
  let ?u = "s\<lparr>reap_zombie := 0, all_tasks := h, all_next := N, nr_tasks := int (length (remove1 z A))\<rparr>"
  have "mem_inv ?u (set A)" by (rule mem_inv_cong [OF assms(3)]) simp_all
  from free_task_result [OF this assms(5)] assms(7,8) obtain m where m: "free_task ?u z = Some (?u\<lparr>heap := m\<rparr>)"
    "mem_inv (?u\<lparr>heap := m\<rparr>) (set A - {z})" "live m = live (heap s) - {z}" "pool m = pool (heap s) \<union> stack_blk ?u z" by auto
  show ?thesis
  proof (rule that)
    show "sched_finish_switch s = Some (?u\<lparr>heap := m\<rparr>)"
      using r(1) m(1) assms(4,6) by (simp add: sched_finish_switch_def)
    show "mem_inv (s\<lparr>heap := m\<rparr>) (set (remove1 z A))" unfolding set by (rule mem_inv_cong [OF m(2)]) simp_all
    show "pool m = pool (heap s) \<union> stack_blk s z" using m(4) by (simp add: stack_blk_def)
  qed (use r m in simp_all)
qed

lemma rotation_facts:
  assumes mid: "sched_mid s R A"
  shows "distinct (rotation s R)" "set (rotation s R) \<subseteq> set A" "next_task s R \<in> set A" "next_task s R \<noteq> 0"
    "next_task s R = (if first_or_null (rotation s R) = 0 then idle_task s else first_or_null (rotation s R))"
    "next_task s R \<notin> set (tl (rotation s R))" "idle_task s \<notin> set (rotation s R)"
    "current s \<in> set (rotation s R) \<longleftrightarrow> t_state s (current s) = TASK_RUNNING \<and> current s \<noteq> idle_task s"
proof -
  note d = sched_midD [OF mid]
  have i: "idle_task s \<notin> set R" using mid by (auto simp: sched_mid_def)
  show a: "distinct (rotation s R)" "set (rotation s R) \<subseteq> set A" "idle_task s \<notin> set (rotation s R)"
    using d i by (auto simp: rotation_def)
  show "current s \<in> set (rotation s R) \<longleftrightarrow> t_state s (current s) = TASK_RUNNING \<and> current s \<noteq> idle_task s"
    using d(13) by (simp add: rotation_def)
  have z: "0 \<notin> set (rotation s R)" using a(2) d(10) by blast
  show "next_task s R \<in> set A" "next_task s R = (if first_or_null (rotation s R) = 0 then idle_task s else first_or_null (rotation s R))"
    using a(2) z d(4) by (auto simp: next_task_def split: list.split)
  then show "next_task s R \<noteq> 0" using d(10) by metis
  show "next_task s R \<notin> set (tl (rotation s R))" using a(1,3) by (auto simp: next_task_def split: list.split)
qed

text \<open>The task states after the switch are those the new queue stands for.\<close>

lemma next_states_ok:
  assumes mid: "sched_mid s R A" and dead: "t_state s (current s) = TASK_DEAD \<longrightarrow> current s \<noteq> idle_task s"
  defines "B \<equiv> set (survivors s A)"
  shows "set (tl (rotation s R)) = {t \<in> B. next_states s R t = TASK_RUNNABLE \<and> t \<noteq> idle_task s}"
    "\<forall>t\<in>B. t \<noteq> next_task s R \<longrightarrow> next_states s R t \<noteq> TASK_DEAD \<and> (next_states s R t = TASK_RUNNING \<longrightarrow> t = idle_task s)"
    "next_states s R (idle_task s) \<in> {TASK_RUNNABLE, TASK_RUNNING}" "next_task s R \<in> B" "idle_task s \<in> B"
proof -
  note d = sched_midD [OF mid] and r = rotation_facts [OF mid]
  have B: "B = (if t_state s (current s) = TASK_DEAD then set A - {current s} else set A)"
    using d(9) by (simp add: B_def survivors_def set_remove1_eq)
  have R: "set R = {t \<in> set A. t_state s t = TASK_RUNNABLE \<and> t \<noteq> idle_task s}"
    and oth: "\<And>t. t \<in> set A \<Longrightarrow> t \<noteq> current s \<Longrightarrow> t_state s t \<noteq> TASK_DEAD \<and> (t_state s t = TASK_RUNNING \<longrightarrow> t = idle_task s)"
    and idle: "t_state s (idle_task s) \<in> {TASK_RUNNABLE, TASK_RUNNING}" and cur: "t_state s (current s) \<noteq> TASK_RUNNABLE"
    using mid by (auto simp: sched_mid_def)
  have ne: "next_task s R \<noteq> current s" if "t_state s (current s) = TASK_DEAD"
  proof (cases "rotation s R")
    case Nil
    then show ?thesis using dead that by (auto simp: next_task_def)
  next
    case (Cons t Q)
    then show ?thesis using that r(8) by (auto simp: next_task_def)
  qed
  show nB: "next_task s R \<in> B" using r(3) ne B by auto
  show iB: "idle_task s \<in> B" using d(4) dead B by auto
  show "next_states s R (idle_task s) \<in> {TASK_RUNNABLE, TASK_RUNNING}" using idle by (auto simp: next_states_def)
  show "\<forall>t\<in>B. t \<noteq> next_task s R \<longrightarrow> next_states s R t \<noteq> TASK_DEAD \<and> (next_states s R t = TASK_RUNNING \<longrightarrow> t = idle_task s)"
    using oth B by (auto simp: next_states_def)
  have sR: "set (rotation s R) = {t \<in> set A. t_state s t = TASK_RUNNABLE \<and> t \<noteq> idle_task s} \<union>
      (if t_state s (current s) = TASK_RUNNING \<and> current s \<noteq> idle_task s then {current s} else {})"
    using R by (auto simp: rotation_def)
  have tl: "set (tl (rotation s R)) = set (rotation s R) - {next_task s R}"
    using r(1,7) by (cases "rotation s R") (auto simp: next_task_def)
  show "set (tl (rotation s R)) = {t \<in> B. next_states s R t = TASK_RUNNABLE \<and> t \<noteq> idle_task s}"
    unfolding tl sR using B cur d(5) by (auto simp: next_states_def)
qed

lemma sched_invI:
  assumes "rq (run_next s) (runq_head s) (runq_tail s) R" "sll (all_next s) (all_tasks s) A" "nr_tasks s = int (length A)"
    "reap_zombie s = 0" "idle_task s \<in> set A" "current s \<in> set A" "t_state s (current s) = TASK_RUNNING"
    "set R = {t \<in> set A. t_state s t = TASK_RUNNABLE \<and> t \<noteq> idle_task s}"
    "\<forall>t\<in>set A. t \<noteq> current s \<longrightarrow> t_state s t \<noteq> TASK_DEAD \<and> (t_state s t = TASK_RUNNING \<longrightarrow> t = idle_task s)"
    "t_state s (idle_task s) \<in> {TASK_RUNNABLE, TASK_RUNNING}" "mem_inv s (set A)"
  shows "sched_inv s R A"
  using assms by (simp add: sched_inv_def sched_mid_def)

definition loaded :: "'v sched_state \<Rightarrow> bool" where
  "loaded s \<longleftrightarrow> tss_rsp0 s = t_kstack_top s (current s) \<and> syscall_rsp s = t_kstack_top s (current s) \<and>
     active_space s = (if t_process s (current s) \<noteq> NULL \<and> p_space s (t_process s (current s)) \<noteq> NULL
       then p_space s (t_process s (current s)) else kernel_space s)"

lemma schedule_result:
  assumes mid: "sched_mid s R A" and dead: "t_state s (current s) = TASK_DEAD \<Longrightarrow> current s \<noteq> boot_task s \<and> current s \<noteq> idle_task s"
  obtains s' where "schedule_locked s = Some s'" "sched_inv s' (tl (rotation s R)) (survivors s A)" "current s' = next_task s R"
    "t_state s' = next_states s R" "switched s s'" "task_cpu s' = task_cpu s"
    "live (heap s') = live (heap s) - (if t_state s (current s) = TASK_DEAD then {current s} else {})"
    "t_state s (current s) \<noteq> TASK_DEAD \<longrightarrow> heap s' = heap s" "next_task s R \<noteq> current s \<longrightarrow> loaded s'"
    "quantum_left s' = SCHED_QUANTUM_TICKS"
    "pool (heap s') = pool (heap s) \<union> (if t_state s (current s) = TASK_DEAD then stack_blk s (current s) else {})"
proof -
  let ?n = "next_task s R" and ?c = "current s"
  define st where "st = (if t_state s ?c = TASK_RUNNING \<and> ?c \<noteq> idle_task s then (t_state s)(?c := TASK_RUNNABLE) else t_state s)"
  have dead': "t_state s ?c = TASK_DEAD \<longrightarrow> ?c \<noteq> idle_task s" using dead by blast
  note d = sched_midD [OF mid] and r = rotation_facts [OF mid] and ok = next_states_ok [OF mid dead']
  obtain N h z where pk: "runq_pop (if ?c \<noteq> NULL \<and> t_state s ?c = TASK_RUNNING \<and> ?c \<noteq> idle_task s
        then runq_push (s\<lparr>t_state := (t_state s)(?c := TASK_RUNNABLE)\<rparr>) ?c else s) =
      (first_or_null (rotation s R), s\<lparr>t_state := st, run_next := N, runq_head := h, runq_tail := z\<rparr>)"
    and q: "rq N h z (tl (rotation s R))" using pick_next [OF mid] unfolding st_def by blast
  let ?u = "s\<lparr>t_state := st, run_next := N, runq_head := h, runq_tail := z\<rparr>"
  have st: "st(?n := TASK_RUNNING) = next_states s R" by (auto simp: st_def next_states_def fun_eq_iff)
  have std: "st ?c = TASK_DEAD \<longleftrightarrow> t_state s ?c = TASK_DEAD" by (simp add: st_def)
  have run: "schedule_locked s = switch_to ?u ?n"
    unfolding schedule_locked_def Let_def pk prod.case using r(5) by simp
  have nn: "next_states s R ?n = TASK_RUNNING" by (simp add: next_states_def)
  show thesis
  proof (cases "?n = ?c")
    case True
    have nd: "t_state s ?c \<noteq> TASK_DEAD" using True r(8) dead by (auto simp: next_task_def split: list.splits)
    then have sv: "survivors s A = A" by (simp add: survivors_def)
    define v where
      "v = s\<lparr>t_state := next_states s R, run_next := N, runq_head := h, runq_tail := z, quantum_left := SCHED_QUANTUM_TICKS\<rparr>"
    have sel: "run_next v = N" "runq_head v = h" "runq_tail v = z" "all_next v = all_next s" "all_tasks v = all_tasks s"
      "nr_tasks v = nr_tasks s" "reap_zombie v = reap_zombie s" "idle_task v = idle_task s" "boot_task v = boot_task s" "current v = ?c"
      "t_state v = next_states s R" "heap v = heap s" "t_kstack_base v = t_kstack_base s" "quantum_left v = SCHED_QUANTUM_TICKS"
      by (simp_all add: v_def)
    have "schedule_locked s = Some v" using run True st by (simp add: switch_to_def v_def)
    moreover have "sched_inv v (tl (rotation s R)) A"
      by (rule sched_invI, unfold sel) (rule q d(2) d(3) d(4) d(5) d(6) ok(1-3) [unfolded sv True] nn [unfolded True] mem_inv_cong [OF d(7)] sel(8,9,12,13))+
    moreover have "switched s v" "task_cpu v = task_cpu s" by (simp_all add: switched_def task_cpu_def v_def fun_eq_iff)
    ultimately show thesis using that [of v] nd sv True sel by simp
  next
    case False
    define v where "v = s\<lparr>t_state := next_states s R, run_next := N, runq_head := h, runq_tail := z, current := ?n,
      quantum_left := SCHED_QUANTUM_TICKS, tss_rsp0 := t_kstack_top s ?n, syscall_rsp := t_kstack_top s ?n,
      active_space := (if t_process s ?n \<noteq> NULL \<and> p_space s (t_process s ?n) \<noteq> NULL then p_space s (t_process s ?n) else kernel_space s),
      fpu_state := (fpu_state s)(?c := fpu_regs s), fpu_regs := fpu_state s ?n, fs_base := (fs_base s)(?c := msr_fs_base s),
      msr_fs_base := fs_base s ?n, t_ctx := (t_ctx s)(?c := (cpu s)\<lparr>rip := Switch_resume, rdi := ?c\<rparr>), cpu := t_ctx s ?n\<rparr>"
    define w where "w = v\<lparr>reap_zombie := (if t_state s ?c = TASK_DEAD then ?c else reap_zombie s)\<rparr>"
    have "current ?u \<noteq> ?n" using False by simp
    then have run': "schedule_locked s = sched_finish_switch w"
      unfolding run w_def v_def
      by (subst switch_to_other, assumption, intro arg_cong [of _ _ sched_finish_switch]) (simp add: st std cong: if_cong)
    have cpu: "task_cpu v = task_cpu s" using False by (simp add: task_cpu_def Let_def v_def fun_eq_iff)
    have sel: "run_next v = N" "runq_head v = h" "runq_tail v = z" "all_next v = all_next s" "all_tasks v = all_tasks s"
      "nr_tasks v = nr_tasks s" "reap_zombie v = reap_zombie s" "idle_task v = idle_task s" "boot_task v = boot_task s" "current v = ?n"
      "t_state v = next_states s R" "heap v = heap s" "t_kstack_base v = t_kstack_base s" "quantum_left v = SCHED_QUANTUM_TICKS"
      by (simp_all add: v_def)
    have sw: "switched s v" "loaded v" by (simp_all add: switched_def loaded_def v_def)
    show thesis
    proof (cases "t_state s ?c = TASK_DEAD")
      case nd: False
      then have sv: "survivors s A = A" by (simp add: survivors_def)
      have "w = v" by (rule sched_state.equality) (use nd d(6) sel(7) in \<open>simp_all add: w_def\<close>)
      then have "schedule_locked s = Some v" using run' finish_switch_none [of v] d(6) sel(7) by simp
      moreover have "sched_inv v (tl (rotation s R)) A"
        by (rule sched_invI, unfold sel) (rule q d(2,3,4,6) ok(1-4) [unfolded sv] nn mem_inv_cong [OF d(7)] sel(8,9,12,13))+
      ultimately show thesis using that [of v] nd sv cpu sel sw by simp
    next
      case dd: True
      then have c: "?c \<noteq> boot_task s" "?c \<noteq> idle_task s" using dead by auto
      have mi: "mem_inv w (set A)" by (rule mem_inv_cong [OF d(7)]) (simp_all add: w_def sel)
      have pre: "sll (all_next w) (all_tasks w) A" "nr_tasks w = int (length A)" "reap_zombie w = ?c" "?c \<noteq> boot_task w"
        "?c \<noteq> idle_task w" "heap w = heap s" using d(2,3) c dd by (simp_all add: w_def sel)
      obtain N' h' m where f: "sched_finish_switch w =
          Some (w\<lparr>reap_zombie := 0, all_tasks := h', all_next := N', nr_tasks := int (length (remove1 ?c A)), heap := m\<rparr>)"
        "sll N' h' (remove1 ?c A)" "live m = live (heap s) - {?c}" "pool m = pool (heap s) \<union> stack_blk w ?c"
        "mem_inv (w\<lparr>heap := m\<rparr>) (set (remove1 ?c A))"
        by (rule finish_switch_dead [OF pre(1,2) mi pre(3) d(5,11) pre(4,5), unfolded pre(6)])
      have "stack_blk w ?c = stack_blk s ?c" by (simp add: stack_blk_def w_def sel)
      with f(4) have pl: "pool m = pool (heap s) \<union> stack_blk s ?c" by simp
      define x where "x = v\<lparr>all_tasks := h', all_next := N', nr_tasks := int (length (remove1 ?c A)), heap := m\<rparr>"
      have "w\<lparr>reap_zombie := 0, all_tasks := h', all_next := N', nr_tasks := int (length (remove1 ?c A)), heap := m\<rparr> = x"
        by (rule sched_state.equality) (use d(6) sel(7) in \<open>simp_all add: w_def x_def\<close>)
      then have ex: "schedule_locked s = Some x" using run' f(1) by simp
      have sv: "survivors s A = remove1 ?c A" using dd by (simp add: survivors_def)
      have "mem_inv x (set (remove1 ?c A))" by (rule mem_inv_cong [OF f(5)]) (simp_all add: x_def w_def)
      moreover have xs: "run_next x = N" "runq_head x = h" "runq_tail x = z" "all_next x = N'" "all_tasks x = h'"
        "nr_tasks x = int (length (remove1 ?c A))" "reap_zombie x = 0" "idle_task x = idle_task s" "current x = ?n"
        "t_state x = next_states s R" using sel d(6) by (simp_all add: x_def)
      ultimately have "sched_inv x (tl (rotation s R)) (remove1 ?c A)"
        by (intro sched_invI, unfold xs) (rule q f(2) refl ok [unfolded sv] nn | assumption)+
      moreover have "task_cpu x = task_cpu v" by (simp add: task_cpu_def x_def fun_eq_iff)
      then have "task_cpu x = task_cpu s" using cpu by simp
      moreover have "switched s x" "loaded x" using sw by (simp_all add: switched_def loaded_def x_def)
      ultimately show thesis using that [of x] ex dd sv f(3) sel pl by (simp add: x_def)
    qed
  qed
qed

end
