(* ===== verification/Sched_Run.thy ===== *)
theory Sched_Run
  imports Sched_Ops
begin

text \<open>
  Yielding, sleeping, waking, leaving and the timer tick of \<^verbatim>\<open>kernel/kernel/sched.c\<close>, each as a change
  of the run queue and of the task states.
\<close>

lemma switched_sel:
  assumes "switched s s'"
  shows "wake_pending s' = wake_pending s" "sleep_deadline_us s' = sleep_deadline_us s" "sleep_timed_out s' = sleep_timed_out s"
    "t_flags s' = t_flags s" "t_exit_status s' = t_exit_status s" "t_process s' = t_process s" "task_next s' = task_next s"
    "boot_task s' = boot_task s" "idle_task s' = idle_task s" "t_kstack_base s' = t_kstack_base s" "p_state s' = p_state s"
    "p_tasks s' = p_tasks s" "p_live_threads s' = p_live_threads s"
proof -
  note e = assms [unfolded switched_def]
  show "wake_pending s' = wake_pending s" using arg_cong [OF e, of wake_pending] by simp
  show "sleep_deadline_us s' = sleep_deadline_us s" using arg_cong [OF e, of sleep_deadline_us] by simp
  show "sleep_timed_out s' = sleep_timed_out s" using arg_cong [OF e, of sleep_timed_out] by simp
  show "t_flags s' = t_flags s" using arg_cong [OF e, of t_flags] by simp
  show "t_exit_status s' = t_exit_status s" using arg_cong [OF e, of t_exit_status] by simp
  show "t_process s' = t_process s" using arg_cong [OF e, of t_process] by simp
  show "task_next s' = task_next s" using arg_cong [OF e, of task_next] by simp
  show "boot_task s' = boot_task s" using arg_cong [OF e, of boot_task] by simp
  show "idle_task s' = idle_task s" using arg_cong [OF e, of idle_task] by simp
  show "t_kstack_base s' = t_kstack_base s" using arg_cong [OF e, of t_kstack_base] by simp
  show "p_state s' = p_state s" using arg_cong [OF e, of p_state] by simp
  show "p_tasks s' = p_tasks s" using arg_cong [OF e, of p_tasks] by simp
  show "p_live_threads s' = p_live_threads s" using arg_cong [OF e, of p_live_threads] by simp
qed

section \<open>Round robin\<close>

text \<open>Yielding turns the ring of the running task and the queue by one place.\<close>

lemma yield_rotates:
  assumes inv: "sched_inv s R A" and c: "current s \<noteq> idle_task s"
  obtains s' where "sched_yield s = Some s'" "sched_inv s' (tl (R @ [current s])) A" "current s' # tl (R @ [current s]) = rotate1 (current s # R)"
    "task_cpu s' = task_cpu s" "heap s' = heap s" "switched s s'"
proof -
  have mid: "sched_mid s R A" and run: "t_state s (current s) = TASK_RUNNING" using inv by (simp_all add: sched_inv_def)
  have rot: "rotation s R = R @ [current s]" "survivors s A = A" using run c by (simp_all add: rotation_def survivors_def)
  from schedule_result [OF mid] run obtain s' where s': "schedule_locked s = Some s'" "sched_inv s' (tl (rotation s R)) (survivors s A)"
    "current s' = next_task s R" "task_cpu s' = task_cpu s" "heap s' = heap s" "switched s s'"
    by (metis task_state.distinct(13))
  have "current s' # tl (R @ [current s]) = rotate1 (current s # R)"
    using s'(3) rot(1) by (cases R) (simp_all add: next_task_def)
  then show ?thesis using that s' rot by (simp add: sched_yield_def)
qed

fun yields :: "nat \<Rightarrow> 'v sched_state \<Rightarrow> 'v sched_state option" where
  "yields 0 s = Some s"
| "yields (Suc n) s = do { s \<leftarrow> sched_yield s; yields n s }"

lemma idle_not_queued: "sched_inv s R A \<Longrightarrow> idle_task s \<notin> set R"
  by (auto simp: sched_inv_def sched_mid_def)

lemma yields_rotate:
  assumes "sched_inv s R A" "current s \<noteq> idle_task s"
  shows "\<exists>s' R'. yields n s = Some s' \<and> sched_inv s' R' A \<and> current s' # R' = rotate n (current s # R) \<and>
    task_cpu s' = task_cpu s"
  using assms
proof (induction n arbitrary: s R)
  case (Suc n)
  obtain s1 where s1: "sched_yield s = Some s1" "sched_inv s1 (tl (R @ [current s])) A"
    "current s1 # tl (R @ [current s]) = rotate1 (current s # R)" "task_cpu s1 = task_cpu s" "switched s s1"
    using yield_rotates [OF Suc.prems] by metis
  have "idle_task s \<notin> set (rotate1 (current s # R))" using Suc.prems idle_not_queued by auto
  then have "current s1 \<noteq> idle_task s1" using s1(3) switched_sel(9) [OF s1(5)] by (metis list.set_intros(1))
  from Suc.IH [OF s1(2) this] obtain s' R' where "yields n s1 = Some s'" "sched_inv s' R' A"
    "current s' # R' = rotate n (rotate1 (current s # R))" "task_cpu s' = task_cpu s1" using s1(3) by auto
  moreover have "rotate n (rotate1 (current s # R)) = rotate (Suc n) (current s # R)" by (metis rotate1_rotate_swap rotate_Suc)
  ultimately show ?case using s1(1,4) by auto
qed auto

section \<open>Sleeping and waking\<close>

text \<open>Blocking takes the running task off the processor until it is woken.\<close>

lemma block_result:
  assumes inv: "sched_inv s R A" and c: "current s \<noteq> idle_task s" and st: "st \<in> {TASK_SLEEPING, TASK_ZOMBIE}"
    and u: "sched_mid u R A = sched_mid (s\<lparr>t_state := (t_state s)(current s := st)\<rparr>) R A"
      "t_state u = (t_state s)(current s := st)" "current u = current s" "idle_task u = idle_task s"
  obtains s' where "schedule_locked u = Some s'" "sched_inv s' (tl R) A" "current s' = (case R of [] \<Rightarrow> idle_task s | t # _ \<Rightarrow> t)"
    "t_state s' = (t_state s)(current s := st, current s' := TASK_RUNNING)" "switched u s'" "task_cpu s' = task_cpu u" "heap s' = heap u"
    "quantum_left s' = SCHED_QUANTUM_TICKS"
proof -
  have mid: "sched_mid u R A"
    unfolding u(1)
  proof -
    have "mem_inv (s\<lparr>t_state := (t_state s)(current s := st)\<rparr>) (set A)"
      by (rule mem_inv_cong [of s]) (use inv in \<open>simp_all add: sched_inv_def sched_mid_def\<close>)
    moreover have "current s \<notin> set R" using inv by (auto simp: sched_inv_def sched_mid_def)
    ultimately show "sched_mid (s\<lparr>t_state := (t_state s)(current s := st)\<rparr>) R A"
      using inv c st by (auto simp: sched_inv_def sched_mid_def)
  qed
  have "rotation u R = R" "survivors u A = A" "t_state u (current u) \<noteq> TASK_DEAD"
    using u st by (auto simp: rotation_def survivors_def)
  moreover have n: "next_task u R = (case R of [] \<Rightarrow> idle_task s | t # _ \<Rightarrow> t)" using u(4) calculation(1) by (cases R) (simp_all add: next_task_def)
  moreover have "next_task u R \<noteq> current s" using sched_midD(13) [OF mid] u c n by (auto split: list.splits)
  then have "next_states u R = (t_state s)(current s := st, next_task u R := TASK_RUNNING)"
    using u st by (auto simp: next_states_def fun_eq_iff)
  ultimately show ?thesis using schedule_result [OF mid] that by (metis (no_types, lifting))
qed

text \<open>The fields that waking may change.\<close>

definition requeued :: "'v sched_state \<Rightarrow> 'v sched_state \<Rightarrow> bool" where
  "requeued s s' \<longleftrightarrow> s'\<lparr>t_state := t_state s, run_next := run_next s, runq_head := runq_head s, runq_tail := runq_tail s,
     wake_pending := wake_pending s, sleep_timed_out := sleep_timed_out s, sleep_deadline_us := sleep_deadline_us s\<rparr> = s"

lemma requeued_refl [simp]: "requeued s s"
  by (simp add: requeued_def)

lemma requeued_trans:
  assumes "requeued s s'" "requeued s' s''"
  shows "requeued s s''"
proof -
  note a = assms [unfolded requeued_def]
  have "s''\<lparr>t_state := t_state s, run_next := run_next s, runq_head := runq_head s, runq_tail := runq_tail s,
     wake_pending := wake_pending s, sleep_timed_out := sleep_timed_out s, sleep_deadline_us := sleep_deadline_us s\<rparr> =
    (s''\<lparr>t_state := t_state s', run_next := run_next s', runq_head := runq_head s', runq_tail := runq_tail s',
     wake_pending := wake_pending s', sleep_timed_out := sleep_timed_out s', sleep_deadline_us := sleep_deadline_us s'\<rparr>)
    \<lparr>t_state := t_state s, run_next := run_next s, runq_head := runq_head s, runq_tail := runq_tail s,
     wake_pending := wake_pending s, sleep_timed_out := sleep_timed_out s, sleep_deadline_us := sleep_deadline_us s\<rparr>" by simp
  then show ?thesis unfolding requeued_def a(2) a(1) .
qed

lemma requeued_sel:
  assumes "requeued s s'"
  shows "current s' = current s" "idle_task s' = idle_task s" "boot_task s' = boot_task s" "heap s' = heap s" "quantum_left s' = quantum_left s"
    "all_next s' = all_next s" "all_tasks s' = all_tasks s" "t_flags s' = t_flags s" "preempt_pending s' = preempt_pending s"
    "nr_tasks s' = nr_tasks s"
proof -
  note e = assms [unfolded requeued_def]
  show "current s' = current s" using arg_cong [OF e, of current] by simp
  show "idle_task s' = idle_task s" using arg_cong [OF e, of idle_task] by simp
  show "boot_task s' = boot_task s" using arg_cong [OF e, of boot_task] by simp
  show "heap s' = heap s" using arg_cong [OF e, of heap] by simp
  show "quantum_left s' = quantum_left s" using arg_cong [OF e, of quantum_left] by simp
  show "all_next s' = all_next s" using arg_cong [OF e, of all_next] by simp
  show "all_tasks s' = all_tasks s" using arg_cong [OF e, of all_tasks] by simp
  show "t_flags s' = t_flags s" using arg_cong [OF e, of t_flags] by simp
  show "preempt_pending s' = preempt_pending s" using arg_cong [OF e, of preempt_pending] by simp
  show "nr_tasks s' = nr_tasks s" using arg_cong [OF e, of nr_tasks] by simp
qed

lemma requeued_cpu: "requeued s s' \<Longrightarrow> task_cpu s' = task_cpu s"
proof -
  assume "requeued s s'"
  note e = this [unfolded requeued_def]
  have "cpu s' = cpu s" using arg_cong [OF e, of cpu] by simp
  moreover have "t_ctx s' = t_ctx s" using arg_cong [OF e, of t_ctx] by simp
  moreover have "fs_base s' = fs_base s" using arg_cong [OF e, of fs_base] by simp
  moreover have "msr_fs_base s' = msr_fs_base s" using arg_cong [OF e, of msr_fs_base] by simp
  moreover have "fpu_regs s' = fpu_regs s" using arg_cong [OF e, of fpu_regs] by simp
  moreover have "fpu_state s' = fpu_state s" using arg_cong [OF e, of fpu_state] by simp
  moreover have "current s' = current s" using arg_cong [OF e, of current] by simp
  ultimately show ?thesis by (simp add: task_cpu_def fun_eq_iff)
qed

text \<open>A sleeper joins the end of the queue.\<close>

lemma make_ready:
  fixes w b d
  assumes inv: "sched_inv s R A" and t: "t \<in> set A" "t_state s t = TASK_SLEEPING"
  defines "u \<equiv> s\<lparr>wake_pending := w, sleep_timed_out := b, sleep_deadline_us := d, t_state := (t_state s)(t := TASK_RUNNABLE)\<rparr>"
  shows "sched_inv (runq_push u t) (R @ [t]) A" "t_state (runq_push u t) = (t_state s)(t := TASK_RUNNABLE)"
    "wake_pending (runq_push u t) = w" "sleep_timed_out (runq_push u t) = b" "sleep_deadline_us (runq_push u t) = d"
    "requeued s (runq_push u t)"
proof -
  let ?v = "runq_push u t"
  have mid: "sched_mid s R A" using inv by (simp add: sched_inv_def)
  note m = sched_midD [OF mid]
  have ne: "t \<noteq> current s" "t \<noteq> idle_task s" "t \<notin> set R" "t \<noteq> 0" using inv t m(10) by (auto simp: sched_inv_def sched_mid_def)
  have "runq u R" using m(1) by (simp add: u_def)
  then have q: "runq ?v (R @ [t])" using ne by (intro runq_push_rq)
  have sel: "all_next ?v = all_next s" "all_tasks ?v = all_tasks s" "nr_tasks ?v = nr_tasks s" "reap_zombie ?v = reap_zombie s"
    "idle_task ?v = idle_task s" "boot_task ?v = boot_task s" "current ?v = current s" "t_state ?v = (t_state s)(t := TASK_RUNNABLE)"
    "heap ?v = heap s" "t_kstack_base ?v = t_kstack_base s" by (simp_all add: runq_push_eq u_def)
  show "t_state ?v = (t_state s)(t := TASK_RUNNABLE)" by (rule sel)
  show "wake_pending ?v = w" "sleep_timed_out ?v = b" "sleep_deadline_us ?v = d" by (simp_all add: runq_push_eq u_def)
  show "requeued s ?v" by (simp add: requeued_def runq_push_eq u_def)
  have "mem_inv ?v (set A)" by (rule mem_inv_cong [OF m(7)]) (simp_all add: sel)
  then show "sched_inv ?v (R @ [t]) A"
    using inv q t ne unfolding sched_inv_def sched_mid_def sel by auto
qed

lemma wake_sleeping:
  assumes inv: "sched_inv s R A" and t: "t \<in> set A" "t_state s t = TASK_SLEEPING"
  shows "sched_inv (sched_wake s t) (R @ [t]) A" "t_state (sched_wake s t) = (t_state s)(t := TASK_RUNNABLE)"
    "wake_pending (sched_wake s t) = wake_pending s" "requeued s (sched_wake s t)"
proof -
  have nz: "t \<noteq> 0" using sched_midD(10) [of s R A] inv t(1) by (metis sched_inv_def)
  have e: "sched_wake s t = runq_push (s\<lparr>wake_pending := wake_pending s, sleep_timed_out := (sleep_timed_out s)(t := False),
      sleep_deadline_us := (sleep_deadline_us s)(t := 0), t_state := (t_state s)(t := TASK_RUNNABLE)\<rparr>) t"
    using nz t(2) by (simp add: sched_wake_def)
  show "sched_inv (sched_wake s t) (R @ [t]) A" "t_state (sched_wake s t) = (t_state s)(t := TASK_RUNNABLE)"
    "wake_pending (sched_wake s t) = wake_pending s" "requeued s (sched_wake s t)"
    unfolding e by (rule make_ready [OF inv t])+
qed

lemma sched_inv_credit: "sched_inv (s\<lparr>wake_pending := w\<rparr>) R A = sched_inv s R A"
proof -
  have "mem_inv (s\<lparr>wake_pending := w\<rparr>) (set A) = mem_inv s (set A)" by (auto intro: mem_inv_cong)
  then show ?thesis by (simp add: sched_inv_def sched_mid_def)
qed

lemma wake_other:
  assumes "sched_inv s R A" "t \<noteq> 0" "t_state s t \<noteq> TASK_SLEEPING"
  shows "sched_inv (sched_wake s t) R A" "t_state (sched_wake s t) = t_state s"
    "wake_pending (sched_wake s t) = (wake_pending s)(t := wake_pending s t + 1)" "requeued s (sched_wake s t)"
  using assms sched_inv_credit [where s = s] by (simp_all add: sched_wake_def requeued_def)

text \<open>Either way to go to sleep, seen by the other tasks.\<close>

lemma sleep_result:
  assumes inv: "sched_inv s R A" and c: "current s \<noteq> idle_task s" and q: "quantum_left s \<le> 1"
  shows "\<exists>s' R'. sched_sleep_current s = Some s' \<and> sched_inv s' R' A \<and> idle_task s' = idle_task s \<and> quantum_left s' \<le> 1 \<and>
    (if 0 < wake_pending s (current s)
     then t_state s' = t_state s \<and> wake_pending s' = (wake_pending s)(current s := wake_pending s (current s) - 1)
     else wake_pending s' = wake_pending s \<and> t_state s' (current s) = TASK_SLEEPING \<and>
       (\<forall>t. t_state s' t = TASK_SLEEPING \<longrightarrow> t = current s \<or> t_state s t = TASK_SLEEPING))"
proof (cases "0 < wake_pending s (current s)")
  case True
  let ?s = "s\<lparr>wake_pending := (wake_pending s)(current s := wake_pending s (current s) - 1)\<rparr>"
  have "sched_inv ?s R A" using inv by (simp add: sched_inv_credit)
  then show ?thesis using True q by (intro exI [of _ ?s] exI [of _ R]) (simp add: sched_sleep_current_def Let_def)
next
  case False
  let ?u = "s\<lparr>t_state := (t_state s)(current s := TASK_SLEEPING)\<rparr>"
  obtain s' where s': "schedule_locked ?u = Some s'" "sched_inv s' (tl R) A" "current s' = (case R of [] \<Rightarrow> idle_task s | t # _ \<Rightarrow> t)"
    "t_state s' = (t_state s)(current s := TASK_SLEEPING, current s' := TASK_RUNNING)" "switched ?u s'" "quantum_left s' = SCHED_QUANTUM_TICKS"
    using block_result [OF inv c, of TASK_SLEEPING ?u] by auto
  have "current s \<notin> set R" using inv by (auto simp: sched_inv_def sched_mid_def)
  then have "current s' \<noteq> current s" using s'(3) c by (auto split: list.splits)
  then have "t_state s' (current s) = TASK_SLEEPING" "\<forall>t. t_state s' t = TASK_SLEEPING \<longrightarrow> t = current s \<or> t_state s t = TASK_SLEEPING"
    using s'(4) by auto
  then show ?thesis
    using False s'(1,2,6) switched_sel(1,9) [OF s'(5)]
    by (intro exI [of _ s'] exI [of _ "tl R"]) (simp add: sched_sleep_current_def SCHED_QUANTUM_TICKS_def)
qed

section \<open>The timer tick\<close>

definition due :: "'v sched_state \<Rightarrow> u64 \<Rightarrow> ptr \<Rightarrow> bool" where
  "due s now t \<longleftrightarrow> t_state s t = TASK_SLEEPING \<and> sleep_deadline_us s t \<noteq> 0 \<and> sleep_deadline_us s t \<le> now"

lemma expire_result:
  assumes "sched_inv s R (as @ bs)"
  shows "\<exists>s'. expire_from s now (first_or_null bs) = Some s' \<and> sched_inv s' (R @ filter (due s now) bs) (as @ bs) \<and>
    t_state s' = (\<lambda>t. if t \<in> set bs \<and> due s now t then TASK_RUNNABLE else t_state s t) \<and>
    sleep_timed_out s' = (\<lambda>t. if t \<in> set bs \<and> due s now t then True else sleep_timed_out s t) \<and>
    sleep_deadline_us s' = (\<lambda>t. if t \<in> set bs \<and> due s now t then 0 else sleep_deadline_us s t) \<and>
    wake_pending s' = wake_pending s \<and> requeued s s'"
  using assms
proof (induction bs arbitrary: s R as)
  case Nil
  then show ?case by (subst expire_from.simps) simp
next
  case (Cons b bs)
  have mid: "sched_mid s R (as @ b # bs)" using Cons.prems by (simp add: sched_inv_def)
  note m = sched_midD [OF mid]
  have b: "all_next s b = first_or_null bs" "b \<noteq> 0" "b \<notin> set bs" using sll_links m(2,9) by auto
  show ?case
  proof (cases "due s now b")
    case False
    then have step: "expire_from s now b = expire_from s now (first_or_null bs)"
      using b by (subst expire_from.simps) (auto simp: due_def not_less)
    have pr: "sched_inv s R ((as @ [b]) @ bs)" using Cons.prems by simp
    have eq: "(t \<in> set (b # bs) \<and> due s now t) = (t \<in> set bs \<and> due s now t)" for t using False by auto
    show ?thesis using Cons.IH [OF pr] False unfolding eq by (simp add: step)
  next
    case True
    have tb: "b \<in> set (as @ b # bs)" "t_state s b = TASK_SLEEPING" using True by (simp_all add: due_def)
    let ?u = "runq_push (s\<lparr>wake_pending := wake_pending s, sleep_timed_out := (sleep_timed_out s)(b := True),
        sleep_deadline_us := (sleep_deadline_us s)(b := 0), t_state := (t_state s)(b := TASK_RUNNABLE)\<rparr>) b"
    note r = make_ready [OF Cons.prems tb, where w = "wake_pending s" and b = "(sleep_timed_out s)(b := True)" and
        d = "(sleep_deadline_us s)(b := 0)"]
    have step: "expire_from s now b = expire_from ?u now (first_or_null bs)"
      using b True requeued_sel(6) [OF r(6)] by (subst expire_from.simps) (simp add: due_def not_less [symmetric] Let_def)
    have pr: "sched_inv ?u (R @ [b]) ((as @ [b]) @ bs)" using r(1) by simp
    have d: "due ?u now t = due s now t" if "t \<noteq> b" for t unfolding due_def r using that by simp
    then have f: "filter (due ?u now) bs = filter (due s now) bs" using b(3) by (intro filter_cong refl) metis
    from Cons.IH [OF pr] obtain s' where s': "expire_from ?u now (first_or_null bs) = Some s'"
      "sched_inv s' ((R @ [b]) @ filter (due s now) bs) ((as @ [b]) @ bs)"
      "t_state s' = (\<lambda>t. if t \<in> set bs \<and> due ?u now t then TASK_RUNNABLE else t_state ?u t)"
      "sleep_timed_out s' = (\<lambda>t. if t \<in> set bs \<and> due ?u now t then True else sleep_timed_out ?u t)"
      "sleep_deadline_us s' = (\<lambda>t. if t \<in> set bs \<and> due ?u now t then 0 else sleep_deadline_us ?u t)"
      "wake_pending s' = wake_pending ?u" "requeued ?u s'" unfolding f by blast
    have eq: "(t \<in> set bs \<and> due ?u now t) = (t \<in> set bs \<and> due s now t)" for t using d [of t] b(3) by (cases "t = b") auto
    show ?thesis
    proof (intro exI conjI)
      show "expire_from s now (first_or_null (b # bs)) = Some s'" using step s'(1) by simp
      show "sched_inv s' (R @ filter (due s now) (b # bs)) (as @ b # bs)" using s'(2) True by simp
      show "t_state s' = (\<lambda>t. if t \<in> set (b # bs) \<and> due s now t then TASK_RUNNABLE else t_state s t)"
        using True b(3) unfolding s'(3) eq r by (auto simp: fun_eq_iff)
      show "sleep_timed_out s' = (\<lambda>t. if t \<in> set (b # bs) \<and> due s now t then True else sleep_timed_out s t)"
        using True b(3) unfolding s'(4) eq r by (auto simp: fun_eq_iff)
      show "sleep_deadline_us s' = (\<lambda>t. if t \<in> set (b # bs) \<and> due s now t then 0 else sleep_deadline_us s t)"
        using True b(3) unfolding s'(5) eq r by (auto simp: fun_eq_iff)
      show "wake_pending s' = wake_pending s" using s'(6) r(3) by simp
      show "requeued s s'" using requeued_trans [OF r(6) s'(7)] .
    qed
  qed
qed

lemma tick_result:
  fixes now
  assumes inv: "sched_inv s R A" and q: "quantum_left s \<le> 1"
  defines "D \<equiv> filter (due s now) A"
  defines "Q \<equiv> R @ D @ (if current s = idle_task s then [] else [current s])"
  obtains s' where "sched_tick s now = Some s'" "sched_inv s' (tl Q) A" "current s' = (case Q of [] \<Rightarrow> idle_task s | t # _ \<Rightarrow> t)"
    "task_cpu s' = task_cpu s" "sleep_timed_out s' = (\<lambda>t. if t \<in> set D then True else sleep_timed_out s t)"
    "wake_pending s' = wake_pending s" "heap s' = heap s" "idle_task s' = idle_task s"
    "\<forall>t. t_state s' t = TASK_SLEEPING \<longrightarrow> t_state s t = TASK_SLEEPING" "quantum_left s' = 1"
proof -
  let ?s = "s\<lparr>tick_count := tick_count s + 1\<rparr>"
  have mi: "mem_inv ?s (set A)" by (rule mem_inv_cong [of s]) (use inv in \<open>simp_all add: sched_inv_def sched_mid_def\<close>)
  have inv': "sched_inv ?s R ([] @ A)" using inv mi by (simp add: sched_inv_def sched_mid_def)
  have du: "due ?s now = due s now" by (simp add: due_def fun_eq_iff)
  have "sll (all_next s) (all_tasks s) A" using inv by (simp add: sched_inv_def sched_mid_def)
  then have hd: "all_tasks ?s = first_or_null A" using sll_head by simp
  have ts: "t_state ?s = t_state s" "sleep_timed_out ?s = sleep_timed_out s" "wake_pending ?s = wake_pending s" by simp_all
  obtain s1 where s1: "expire_from ?s now (first_or_null A) = Some s1"
    "sched_inv s1 (R @ D) A" "t_state s1 = (\<lambda>t. if t \<in> set A \<and> due s now t then TASK_RUNNABLE else t_state s t)"
    "sleep_timed_out s1 = (\<lambda>t. if t \<in> set A \<and> due s now t then True else sleep_timed_out s t)"
    "wake_pending s1 = wake_pending s" "requeued ?s s1"
    using expire_result [OF inv', of now, unfolded du ts append_Nil] unfolding D_def by blast
  note f = requeued_sel [OF s1(6)]
  let ?u = "s1\<lparr>quantum_left := 0, preempt_pending := preempt_pending s1 + 1, quantum_left := SCHED_QUANTUM_TICKS\<rparr>"
  have q1: "(if 0 < quantum_left s1 then s1\<lparr>quantum_left := quantum_left s1 - 1\<rparr> else s1) = s1\<lparr>quantum_left := 0\<rparr>"
  proof (cases "0 < quantum_left s1")
    case True
    have "unat (quantum_left s1) \<le> 1" using q f(5) by (simp add: word_le_nat_alt)
    moreover have "0 < unat (quantum_left s1)" using True by (simp add: word_less_nat_alt)
    ultimately have "quantum_left s1 = 1" by (simp add: word_unat_eq_iff)
    then show ?thesis by simp
  next
    case False
    then have "quantum_left s1 = 0" by (simp add: word_less_nat_alt unat_eq_0 [symmetric] del: unat_eq_0)
    then show ?thesis using False by simp
  qed
  have run: "sched_tick s now = schedule_locked ?u"
    using s1(1) hd q1 by (simp add: sched_tick_def sched_expire_timed_sleepers_def Let_def)
  have "mem_inv ?u (set A)" by (rule mem_inv_cong [of s1]) (use s1(2) in \<open>simp_all add: sched_inv_def sched_mid_def\<close>)
  then have mid: "sched_mid ?u (R @ D) A" using s1(2) by (simp add: sched_inv_def sched_mid_def)
  have cr: "t_state ?u (current ?u) = TASK_RUNNING" using s1(2) by (simp add: sched_inv_def)
  have rot: "rotation ?u (R @ D) = Q" "survivors ?u A = A" "next_task ?u (R @ D) = (case Q of [] \<Rightarrow> idle_task s | t # _ \<Rightarrow> t)"
    using cr f(1,2) by (auto simp: rotation_def survivors_def next_task_def Q_def split: list.split)
  obtain s' where s': "schedule_locked ?u = Some s'" "sched_inv s' (tl (rotation ?u (R @ D))) (survivors ?u A)"
    "current s' = next_task ?u (R @ D)" "switched ?u s'" "task_cpu s' = task_cpu ?u" "heap s' = heap ?u"
    "t_state s' = next_states ?u (R @ D)" "quantum_left s' = SCHED_QUANTUM_TICKS"
    using schedule_result [OF mid] cr by (metis task_state.distinct(13))
  have "task_cpu ?u = task_cpu s1" "task_cpu ?s = task_cpu s" by (simp_all add: task_cpu_def fun_eq_iff)
  then have "task_cpu s' = task_cpu s" using s'(5) requeued_cpu [OF s1(6)] by metis
  moreover have "sleep_timed_out s' = sleep_timed_out s1" "wake_pending s' = wake_pending s1"
    using switched_sel(1,3) [OF s'(4)] by simp_all
  moreover have "t_state s1 t = TASK_SLEEPING" if "t_state s' t = TASK_SLEEPING" for t
    using that unfolding s'(7) next_states_def by (auto split: if_splits)
  then have "\<forall>t. t_state s' t = TASK_SLEEPING \<longrightarrow> t_state s t = TASK_SLEEPING" using s1(3) by (metis task_state.distinct(3))
  moreover have "idle_task s' = idle_task s" using switched_sel(9) [OF s'(4)] f(2) by simp
  ultimately show ?thesis
    using that [of s'] run s' rot s1(4,5) f(4) by (simp add: D_def SCHED_QUANTUM_TICKS_def)
qed

section \<open>A sample system\<close>

text \<open>
  Boot, idle and one more task, which is ready. The heap has the frames 16 to 31; the stacks lie on
  frames above.
\<close>

definition sched_sample :: "kmem_state \<Rightarrow> ptr \<Rightarrow> unit sched_state" where
  "sched_sample h p = \<lparr>heap = h, vfs = (), f_type = (\<lambda>_. JNU_FILE_CHARDEV), f_refcount = (\<lambda>_. 0), f_vfs = (\<lambda>_. 0), slots = (\<lambda>_ _. 0),
     t_tid = (\<lambda>_. 0), t_pid = (\<lambda>_. 0), t_state = (\<lambda>t. if t = p + 1 then TASK_RUNNING else TASK_RUNNABLE), t_ctx = (\<lambda>_. context_zero),
     t_kstack_base = (\<lambda>t. if t = p then 32 * 4096 else 36 * 4096), t_kstack_top = (\<lambda>_. 0), t_process = (\<lambda>_. 0), t_parent = (\<lambda>_. 0),
     t_exit_status = (\<lambda>_. 0), run_next = (\<lambda>_. 0), all_next = (\<lambda>t. if t = p then p + 2 else if t = p + 2 then p + 1 else 0),
     task_next = (\<lambda>_. 0), t_flags = (\<lambda>_. 0), clear_child_tid = (\<lambda>_. 0), set_child_tid = (\<lambda>_. 0), t_has_user_frame = (\<lambda>_. False),
     t_user_frame = (\<lambda>_. frame_zero), wake_pending = (\<lambda>_. 0), sleep_deadline_us = (\<lambda>_. 0), sleep_timed_out = (\<lambda>_. False),
     fs_base = (\<lambda>_. 0), gs_base = (\<lambda>_. 0), fpu_state = (\<lambda>_. []), boot_fn = (\<lambda>_. No_fn), boot_arg = (\<lambda>_. 0),
     p_pid = (\<lambda>_. 0), p_state = (\<lambda>_. PROCESS_ALIVE), p_main_task = (\<lambda>_. 0), p_tasks = (\<lambda>_. 0), p_live_threads = (\<lambda>_. 0),
     p_parent = (\<lambda>_. 0), p_first_child = (\<lambda>_. 0), p_next_sibling = (\<lambda>_. 0), p_exit_status = (\<lambda>_. 0), p_group_exit_code = (\<lambda>_. 0),
     p_space = (\<lambda>_. 0), p_user_entry = (\<lambda>_. 0), p_user_stack = (\<lambda>_. 0), p_has_user_frame = (\<lambda>_. False), p_user_frame = (\<lambda>_. frame_zero),
     boot_task = p + 1, idle_task = p + 2, current = p + 1, runq_head = p, runq_tail = p, all_tasks = p, nr_tasks = 3,
     quantum_left = 1, tick_count = 0, preempt_pending = 0, reap_zombie = 0, next_pid = 1, init_proc = 0, kernel_space = 0,
     tss_rsp0 = 0, syscall_rsp = 0, active_space = 0, msr_fs_base = 0, fpu_regs = [], fpu_init_state = [], cpu = context_zero\<rparr>"

definition sample_heap :: "kmem_state \<Rightarrow> ptr \<Rightarrow> bool" where
  "sample_heap h p \<longleftrightarrow> kmem_inv h \<and> live h = {p} \<and> p \<noteq> 0 \<and> hhdm h = 0 \<and> pfn_count (pmm h) = 64 \<and> pool h = {16..<32}"

lemma sample_heap_exists: "\<exists>h p. sample_heap h p"
proof -
  have inv: "kmem_inv kmem_sample" "live kmem_sample = {}" by (rule kmem_sample_inv)+
  obtain s' where s': "slab_init kmem_blank = Some s'" "pmm s' = pmm kmem_blank" "hhdm s' = hhdm kmem_blank"
    using slab_init_result [OF kmem_blank_boot] by blast
  then have pm: "pmm kmem_sample = pmm_sample" "hhdm kmem_sample = 0" by (simp_all add: kmem_sample_def kmem_blank_def)
  have "kpages kmem_sample h = {}" for h
  proof (rule ccontr)
    assume "kpages kmem_sample h \<noteq> {}"
    then consider c where "sp_cache kmem_sample h = Some c" | "lh_magic kmem_sample h = LARGE_MAGIC"
      by (auto simp: kpages_def split: if_splits)
    then show False
    proof cases
      case 1
      then have "sp_used kmem_sample h = card {i. slab_bit kmem_sample h i}" "0 < sp_used kmem_sample h"
        using inv(1) core_sp(5) [of kmem_sample h c] by (auto simp: kmem_inv_def slab_ok_def)
      then have "{i. slab_bit kmem_sample h i} \<noteq> {}" by force
      then show False using 1 inv(2) unfolding live_def by blast
    next
      case 2
      then show False using inv(2) unfolding live_def by blast
    qed
  qed
  then have pool: "pool kmem_sample = {16..<32}" using pm pmm_sample_inv(2) by (simp add: pool_def)
  obtain p h where "alloc_outcome kmem_sample p h" "p = 0 \<longrightarrow> (100 :: nat) = 0 \<or> 2048 < (100 :: nat) \<or> free_set (pmm kmem_sample) = {}"
    using kmalloc_result [OF inv(1), of 100] by blast
  then have "sample_heap h p"
    using kmem_sample_inv(2,3) pool pm pmm_sample_inv(3) by (auto simp: alloc_outcome_def same_pool_def sample_heap_def)
  then show ?thesis by blast
qed

lemma sched_sample_inv:
  assumes "sample_heap h p"
  shows "sched_inv (sched_sample h p) [p] [p, p + 2, p + 1]"
proof -
  let ?s = "sched_sample h p"
  note H = assms [unfolded sample_heap_def]
  have hp: "heap ?s = h" "t_kstack_base ?s t = (if t = p then 32 * 4096 else 36 * 4096)" for t by (simp_all add: sched_sample_def)
  have b: "stack_blk ?s t = (if t = p then {32..<36} else {36..<40})" for t
    using H by (auto simp: stack_blk_def hp pg_def blk_def KSTACK_ORDER_def)
  have "stack_ok ?s t" for t
    using H b [of t] by (auto simp: stack_ok_def hp at_page_def pg_def block_fits_def KSTACK_ORDER_def)
  moreover have "boot_task ?s = p + 1" "idle_task ?s = p + 2" by (simp_all add: sched_sample_def)
  ultimately have "mem_inv ?s {p, p + 2, p + 1}" using H b by (auto simp: mem_inv_def hp)
  then show ?thesis
    using H by (intro sched_invI) (auto simp: sched_sample_def rq_def)
qed

lemma exit_detached_result:
  assumes inv: "sched_inv s R A" and c: "current s \<noteq> idle_task s" "current s \<noteq> boot_task s"
  obtains s' where "sched_exit_detached s = Some s'" "sched_inv s' (tl R) (remove1 (current s) A)"
    "current s' = (case R of [] \<Rightarrow> idle_task s | t # _ \<Rightarrow> t)" "live (heap s') = live (heap s) - {current s}"
    "pool (heap s') = pool (heap s) \<union> stack_blk s (current s)"
    "task_cpu s' = task_cpu s"
proof -
  let ?u = "s\<lparr>t_state := (t_state s)(current s := TASK_DEAD)\<rparr>"
  have "mem_inv ?u (set A)" by (rule mem_inv_cong [of s]) (use inv in \<open>simp_all add: sched_inv_def sched_mid_def\<close>)
  then have mid: "sched_mid ?u R A" using inv c by (auto simp: sched_inv_def sched_mid_def)
  have rot: "rotation ?u R = R" "survivors ?u A = remove1 (current s) A" by (simp_all add: rotation_def survivors_def)
  have nx: "next_task ?u R = (case R of [] \<Rightarrow> idle_task s | t # _ \<Rightarrow> t)"
    using rot(1) by (cases R) (simp_all add: next_task_def)
  have dd: "t_state ?u (current ?u) = TASK_DEAD \<Longrightarrow> current ?u \<noteq> boot_task ?u \<and> current ?u \<noteq> idle_task ?u" using c by simp
  obtain s' where s': "schedule_locked ?u = Some s'" "sched_inv s' (tl (rotation ?u R)) (survivors ?u A)" "current s' = next_task ?u R"
    "t_state s' = next_states ?u R" "switched ?u s'" "task_cpu s' = task_cpu ?u"
    "live (heap s') = live (heap ?u) - (if t_state ?u (current ?u) = TASK_DEAD then {current ?u} else {})"
    "t_state ?u (current ?u) \<noteq> TASK_DEAD \<longrightarrow> heap s' = heap ?u" "next_task ?u R \<noteq> current ?u \<longrightarrow> loaded s'"
    "quantum_left s' = SCHED_QUANTUM_TICKS"
    "pool (heap s') = pool (heap ?u) \<union> (if t_state ?u (current ?u) = TASK_DEAD then stack_blk ?u (current ?u) else {})"
    by (rule schedule_result [OF mid dd])
  have "task_cpu ?u = task_cpu s" by (simp add: task_cpu_def fun_eq_iff)
  moreover have "stack_blk ?u = stack_blk s" by (simp add: stack_blk_def fun_eq_iff)
  ultimately show ?thesis using that [of s'] s' rot nx by (simp add: sched_exit_detached_def)
qed

section \<open>Properties\<close>

text \<open>
  C14. Yielding is round robin: each yield turns the ring made of the running task and the run queue
  by one place, so that after \<open>n\<close> yields the first \<open>n\<close> tasks of the ring have had their turn, no
  runnable task is ever lost, and no task's registers, FS base or FPU state are disturbed.
\<close>

theorem sched_round_robin:
  assumes "sched_inv s R A" "current s \<noteq> idle_task s"
  shows "\<exists>s' R'. yields n s = Some s' \<and> sched_inv s' R' A \<and> current s' # R' = rotate n (current s # R) \<and>
    task_cpu s' = task_cpu s"
  using yields_rotate [OF assms] by blast

theorem sched_round_robin_witness:
  "\<exists>h p s'. p \<noteq> 0 \<and> yields 1 (sched_sample h p) = Some s' \<and> current s' = p \<and> sched_inv s' [p + 1] [p, p + 2, p + 1]"
proof -
  obtain h p where h: "sample_heap h p" using sample_heap_exists by blast
  let ?s = "sched_sample h p"
  have c: "current ?s = p + 1" "idle_task ?s = p + 2" by (simp_all add: sched_sample_def)
  obtain s' R' where "yields 1 ?s = Some s'" "sched_inv s' R' [p, p + 2, p + 1]" "current s' # R' = rotate 1 (current ?s # [p])"
    using sched_round_robin [OF sched_sample_inv [OF h], of 1] c by auto
  then show ?thesis using h c by (auto simp: sample_heap_def)
qed

text \<open>
  C13. A timer tick preempts. With the quantum of one tick it moves every sleeper whose deadline has
  passed to the end of the run queue, in the order of the task list, marked as timed out; puts the
  running task behind them, unless it is the idle task; and runs the task at the front, or the idle
  task if there is none. The invariant, the wake credits and the tasks' registers are kept.
\<close>

theorem sched_tick_correct:
  fixes now
  assumes "sched_inv s R A" "quantum_left s \<le> 1"
  defines "D \<equiv> filter (due s now) A"
  defines "Q \<equiv> R @ D @ (if current s = idle_task s then [] else [current s])"
  shows "\<exists>s'. sched_tick s now = Some s' \<and> sched_inv s' (tl Q) A \<and> current s' = (case Q of [] \<Rightarrow> idle_task s | t # _ \<Rightarrow> t) \<and>
    (\<forall>t. sleep_timed_out s' t \<longleftrightarrow> t \<in> set D \<or> sleep_timed_out s t) \<and> wake_pending s' = wake_pending s \<and>
    task_cpu s' = task_cpu s"
proof -
  obtain s' where "sched_tick s now = Some s'" "sched_inv s' (tl Q) A" "current s' = (case Q of [] \<Rightarrow> idle_task s | t # _ \<Rightarrow> t)"
    "task_cpu s' = task_cpu s" "sleep_timed_out s' = (\<lambda>t. if t \<in> set D then True else sleep_timed_out s t)"
    "wake_pending s' = wake_pending s"
    using tick_result [OF assms(1,2), where now = now] unfolding D_def Q_def by blast
  then show ?thesis by (intro exI [of _ s']) auto
qed

theorem sched_tick_correct_witness:
  "\<exists>h p s'. p \<noteq> 0 \<and> sched_tick (sched_sample h p) 7 = Some s' \<and> current s' = p \<and> sched_inv s' [p + 1] [p, p + 2, p + 1]"
proof -
  obtain h p where h: "sample_heap h p" using sample_heap_exists by blast
  let ?s = "sched_sample h p"
  have c: "current ?s = p + 1" "idle_task ?s = p + 2" "quantum_left ?s \<le> 1" by (simp_all add: sched_sample_def)
  have "\<not> due ?s now t" for now t by (simp add: due_def sched_sample_def)
  then have "filter (due ?s 7) [p, p + 2, p + 1] = []" by simp
  then show ?thesis using sched_tick_correct [OF sched_sample_inv [OF h] c(3), of 7] h c(1,2) by (auto simp: sample_heap_def)
qed

text \<open>
  C15. A wake-up is not lost, whichever side wins the race. If it comes before the task goes to
  sleep, the sleep returns at once, with the task still running and its credit spent. If it comes
  after, the task is made runnable at the end of the queue; and a task that has gone to sleep
  without a credit is off the processor and off the queue, so nothing but a wake-up or a deadline
  brings it back.
\<close>

theorem sched_no_lost_wakeup:
  assumes "sched_inv s R A" "current s \<noteq> idle_task s" "wake_pending s (current s) = 0"
  shows "\<exists>s1 s2. sched_sleep_current (sched_wake s (current s)) = Some s1 \<and> sched_inv s1 R A \<and> current s1 = current s \<and>
      t_state s1 = t_state s \<and> wake_pending s1 = wake_pending s \<and>
    sched_sleep_current s = Some s2 \<and> sched_inv s2 (tl R) A \<and> current s2 \<noteq> current s \<and>
      t_state s2 (current s) = TASK_SLEEPING \<and> current s \<notin> set (tl R) \<and>
      sched_inv (sched_wake s2 (current s)) (tl R @ [current s]) A"
proof -
  have mid: "sched_mid s R A" and run: "t_state s (current s) = TASK_RUNNING" using assms(1) by (simp_all add: sched_inv_def)
  note m = sched_midD [OF mid]
  let ?w = "sched_wake s (current s)"
  have w: "sched_inv ?w R A" "t_state ?w = t_state s" "wake_pending ?w = (wake_pending s)(current s := 1)" "current ?w = current s"
    using wake_other [OF assms(1) m(11)] run requeued_sel(1) [of s ?w] assms(3) by simp_all
  let ?s1 = "?w\<lparr>wake_pending := (wake_pending ?w)(current s := 0)\<rparr>"
  have sl: "sched_sleep_current ?w = Some ?s1" using w(3,4) by (simp add: sched_sleep_current_def Let_def)
  have cr: "(wake_pending s)(current s := 0) = wake_pending s" using assms(3) by (simp add: fun_eq_iff)
  let ?u = "s\<lparr>t_state := (t_state s)(current s := TASK_SLEEPING)\<rparr>"
  obtain s2 where s2: "schedule_locked ?u = Some s2" "sched_inv s2 (tl R) A" "current s2 = (case R of [] \<Rightarrow> idle_task s | t # _ \<Rightarrow> t)"
    "t_state s2 = (t_state s)(current s := TASK_SLEEPING, current s2 := TASK_RUNNING)"
    using block_result [OF assms(1,2), of TASK_SLEEPING ?u] by auto
  have ne: "current s2 \<noteq> current s" using s2(3) m(13) assms(2) by (auto split: list.splits)
  then have st: "t_state s2 (current s) = TASK_SLEEPING" using s2(4) by simp
  have "current s \<notin> set (tl R)" using m(13) by (cases R) auto
  moreover have "sched_sleep_current s = Some s2" using s2(1) assms(3) by (simp add: sched_sleep_current_def)
  ultimately show ?thesis
    using sl w cr s2(2) ne st wake_sleeping(1) [OF s2(2) m(5) st] sched_inv_credit [where s = ?w]
    by (intro exI [of _ ?s1] exI [of _ s2]) simp
qed

theorem sched_no_lost_wakeup_witness:
  "\<exists>h p s2. p \<noteq> 0 \<and> sched_sleep_current (sched_sample h p) = Some s2 \<and> t_state s2 (p + 1) = TASK_SLEEPING \<and>
     sched_inv (sched_wake s2 (p + 1)) [p + 1] [p, p + 2, p + 1]"
proof -
  obtain h p where h: "sample_heap h p" using sample_heap_exists by blast
  let ?s = "sched_sample h p"
  have c: "current ?s = p + 1" "idle_task ?s = p + 2" "wake_pending ?s (current ?s) = 0" by (simp_all add: sched_sample_def)
  then show ?thesis using sched_no_lost_wakeup [OF sched_sample_inv [OF h] _ c(3)] h by (auto simp: sample_heap_def)
qed

text \<open>
  C16. A thread that exits detached is reaped by the task that runs next: it leaves the task list,
  exactly its object leaves the heap, its stack pages return to the page allocator without a
  panic, and no other task's memory or registers change.
\<close>

theorem sched_exit_detached_correct:
  assumes "sched_inv s R A" "current s \<noteq> idle_task s" "current s \<noteq> boot_task s"
  shows "\<exists>s'. sched_exit_detached s = Some s' \<and> sched_inv s' (tl R) (remove1 (current s) A) \<and>
    current s' = (case R of [] \<Rightarrow> idle_task s | t # _ \<Rightarrow> t) \<and> live (heap s') = live (heap s) - {current s} \<and>
    pool (heap s') = pool (heap s) \<union> stack_blk s (current s) \<and>
    task_cpu s' = task_cpu s"
  by (rule exit_detached_result [OF assms]) (intro exI conjI allI; assumption)

theorem sched_exit_detached_correct_witness:
  "\<exists>h p s s'. yields 1 (sched_sample h p) = Some s \<and> current s = p \<and> live (heap s) = {p} \<and>
     sched_exit_detached s = Some s' \<and> live (heap s') = {} \<and> sched_inv s' [] [p + 2, p + 1]"
proof -
  obtain h p where h: "sample_heap h p" using sample_heap_exists by blast
  let ?s = "sched_sample h p"
  have c: "current ?s = p + 1" "idle_task ?s = p + 2" "boot_task ?s = p + 1" "heap ?s = h" by (simp_all add: sched_sample_def)
  obtain s where s: "sched_yield ?s = Some s" "sched_inv s [p + 1] [p, p + 2, p + 1]" "current s = p" "switched ?s s" "heap s = h"
    using yield_rotates [OF sched_sample_inv [OF h]] c by auto
  have "idle_task s = p + 2" "boot_task s = p + 1" using switched_sel(8,9) [OF s(4)] c by simp_all
  then obtain s' where "sched_exit_detached s = Some s'" "sched_inv s' [] [p + 2, p + 1]" "live (heap s') = {}"
    using sched_exit_detached_correct [OF s(2)] s(3,5) h by (auto simp: sample_heap_def)
  moreover have "yields 1 ?s = Some s" using s(1) by (simp add: One_nat_def)
  ultimately show ?thesis using s h by (intro exI [of _ h] exI [of _ p] exI [of _ s] exI [of _ s']) (simp add: sample_heap_def)
qed

end
