(* ===== verification/Mutex.thy ===== *)
theory Mutex
  imports Sched_Run
begin

text \<open>
  Sleeping mutexes: \<^verbatim>\<open>kernel/lib/mutex.c\<close> on the scheduler of the preceding theories. Each stretch of
  code between two points where the task can be preempted is one operation on the state of the
  mutex and the scheduler, run by the current task; what a task does next is its program counter.
  A waiter node lives on the stack of the task that waits, in the frame of its \<^verbatim>\<open>mutex_lock\<close>; it
  is named here by that task, and exists while the task is between its first attempt and the
  return of \<^verbatim>\<open>mutex_lock\<close>.
\<close>

section \<open>Operations\<close>

text \<open>
  \<open>Outside\<close>: neither holds the mutex nor asks for it. \<open>Enqueued\<close>: in the waiter list, about to
  call \<^verbatim>\<open>sched_sleep_current\<close>. \<open>Recheck\<close>: in or after that call, about to look at the owner.
  \<open>Holding\<close>: \<^verbatim>\<open>mutex_lock\<close> has returned. \<open>Handing n\<close>: in \<^verbatim>\<open>mutex_unlock\<close>, past the guard, about to
  wake the task of the node \<open>n\<close>.
\<close>

datatype mutex_pc = Outside | Enqueued | Recheck | Holding | Handing ptr

record 'v mutex_state =
  sched :: "'v sched_state"
  m_owner :: ptr
  waiters_head :: ptr
  waiters_tail :: ptr
  w_task :: "ptr \<Rightarrow> ptr"
  w_next :: "ptr \<Rightarrow> ptr"
  pc :: "ptr \<Rightarrow> mutex_pc"

abbreviation (input) self :: "'v mutex_state \<Rightarrow> ptr" where "self m \<equiv> current (sched m)"

definition mutex_init :: "'v mutex_state \<Rightarrow> 'v mutex_state" where
  "mutex_init m = m\<lparr>m_owner := NULL, waiters_head := NULL, waiters_tail := NULL\<rparr>"

text \<open>\<^verbatim>\<open>mutex_lock\<close> up to the first release of the guard; \<open>None\<close> is a panic.\<close>

definition mutex_lock_enter :: "'v mutex_state \<Rightarrow> 'v mutex_state option" where
  "mutex_lock_enter m =
     (let t = self m in
      if t = NULL then None
      else if m_owner m = t then None
      else if m_owner m = NULL then Some (m\<lparr>m_owner := t, pc := (pc m)(t := Holding)\<rparr>)
      else
        let m = m\<lparr>w_task := (w_task m)(t := t), w_next := (w_next m)(t := NULL)\<rparr>;
            m = (if waiters_tail m \<noteq> NULL then m\<lparr>w_next := (w_next m)(waiters_tail m := t)\<rparr> else m\<lparr>waiters_head := t\<rparr>)
        in Some (m\<lparr>waiters_tail := t, pc := (pc m)(t := Enqueued)\<rparr>))"

text \<open>One turn of its loop: the sleep, and then the look at the owner.\<close>

definition mutex_lock_sleep :: "'v mutex_state \<Rightarrow> 'v mutex_state option" where
  "mutex_lock_sleep m =
     do { s \<leftarrow> sched_sleep_current (sched m); Some (m\<lparr>sched := s, pc := (pc m)(self m := Recheck)\<rparr>) }"

definition mutex_lock_check :: "'v mutex_state \<Rightarrow> 'v mutex_state" where
  "mutex_lock_check m = m\<lparr>pc := (pc m)(self m := (if m_owner m = self m then Holding else Enqueued))\<rparr>"

definition mutex_unlock_hand :: "'v mutex_state \<Rightarrow> 'v mutex_state option" where
  "mutex_unlock_hand m =
     (let t = self m; next = waiters_head m in
      if m_owner m \<noteq> t then None
      else if next \<noteq> NULL then
        let m = m\<lparr>waiters_head := w_next m next\<rparr>;
            m = (if waiters_head m = NULL then m\<lparr>waiters_tail := NULL\<rparr> else m)
        in Some (m\<lparr>m_owner := w_task m next, pc := (pc m)(t := Handing next)\<rparr>)
      else Some (m\<lparr>m_owner := NULL, pc := (pc m)(t := Outside)\<rparr>))"

definition mutex_unlock_wake :: "'v mutex_state \<Rightarrow> ptr \<Rightarrow> 'v mutex_state" where
  "mutex_unlock_wake m next = m\<lparr>sched := sched_wake (sched m) (w_task m next), pc := (pc m)(self m := Outside)\<rparr>"

definition mutex_trylock :: "'v mutex_state \<Rightarrow> int \<times> 'v mutex_state" where
  "mutex_trylock m =
     (if m_owner m = NULL then (0, m\<lparr>m_owner := self m, pc := (pc m)(self m := Holding)\<rparr>) else (- EBUSY, m))"

definition mutex_is_locked :: "'v mutex_state \<Rightarrow> bool" where
  "mutex_is_locked m \<longleftrightarrow> m_owner m \<noteq> NULL"

section \<open>Interleavings\<close>

text \<open>While the frame of a task's \<^verbatim>\<open>mutex_lock\<close> is on its stack, its node exists.\<close>

definition in_frame :: "mutex_pc \<Rightarrow> bool" where
  "in_frame p \<longleftrightarrow> p = Enqueued \<or> p = Recheck"

text \<open>
  The steps of a system with the tasks \<open>A\<close>, of which all but the idle task may use the mutex: the
  operations above by the current task; a timer tick at any point; a sleep of a task that is not
  waiting for the mutex; and a wake-up of any task from elsewhere, which leaves a credit with a
  task that is awake. Credits are counted in 32 bits and taken to stay below the maximum. The
  last part of \<^verbatim>\<open>mutex_unlock\<close> reads the node of the woken task, so it is a step only while that
  node exists.
\<close>

inductive mutex_step :: "ptr list \<Rightarrow> 'v mutex_state \<Rightarrow> 'v mutex_state \<Rightarrow> bool" for A where
  Lock: "pc m (self m) = Outside \<Longrightarrow> self m \<noteq> idle_task (sched m) \<Longrightarrow> mutex_lock_enter m = Some m' \<Longrightarrow> mutex_step A m m'"
| Sleep: "pc m (self m) = Enqueued \<Longrightarrow> mutex_lock_sleep m = Some m' \<Longrightarrow> mutex_step A m m'"
| Check: "pc m (self m) = Recheck \<Longrightarrow> mutex_step A m (mutex_lock_check m)"
| Unlock: "pc m (self m) = Holding \<Longrightarrow> mutex_unlock_hand m = Some m' \<Longrightarrow> mutex_step A m m'"
| Wake: "pc m (self m) = Handing n \<Longrightarrow> in_frame (pc m n) \<Longrightarrow> wake_pending (sched m) (w_task m n) + 1 \<noteq> 0 \<Longrightarrow>
    mutex_step A m (mutex_unlock_wake m n)"
| Trylock: "pc m (self m) = Outside \<Longrightarrow> self m \<noteq> idle_task (sched m) \<Longrightarrow> mutex_step A m (snd (mutex_trylock m))"
| Tick: "sched_tick (sched m) now = Some s \<Longrightarrow> mutex_step A m (m\<lparr>sched := s\<rparr>)"
| Block: "\<not> in_frame (pc m (self m)) \<Longrightarrow> self m \<noteq> idle_task (sched m) \<Longrightarrow> sched_sleep_current (sched m) = Some s \<Longrightarrow>
    mutex_step A m (m\<lparr>sched := s\<rparr>)"
| Elsewhere: "t \<in> set A \<Longrightarrow> wake_pending (sched m) t + 1 \<noteq> 0 \<Longrightarrow> mutex_step A m (m\<lparr>sched := sched_wake (sched m) t\<rparr>)"

section \<open>The invariant\<close>

text \<open>
  \<open>W\<close> is the waiter queue: the tasks with a node, without the one the mutex has been handed to.
  \<open>hand_ok\<close> is what keeps a hand-over from being lost: an owner that is asleep, or that is about
  to sleep without a credit, has its waker still to come.
\<close>

definition hand_ok :: "(ptr \<Rightarrow> task_state) \<Rightarrow> (ptr \<Rightarrow> u32) \<Rightarrow> (ptr \<Rightarrow> mutex_pc) \<Rightarrow> ptr \<Rightarrow> bool" where
  "hand_ok st wp pcs x \<longleftrightarrow> (\<forall>t. pcs t = Enqueued \<longrightarrow> st t \<noteq> TASK_SLEEPING) \<and>
     (in_frame (pcs x) \<longrightarrow> st x = TASK_SLEEPING \<or> pcs x = Enqueued \<and> wp x = 0 \<longrightarrow> (\<exists>u. pcs u = Handing x))"

definition owner_ok :: "(ptr \<Rightarrow> mutex_pc) \<Rightarrow> ptr \<Rightarrow> ptr list \<Rightarrow> bool" where
  "owner_ok pcs x W \<longleftrightarrow> set W = {t. in_frame (pcs t) \<and> t \<noteq> x} \<and> (\<forall>t. pcs t = Holding \<longrightarrow> x = t) \<and>
     (x \<noteq> 0 \<longrightarrow> pcs x = Holding \<or> in_frame (pcs x)) \<and> (x = 0 \<longrightarrow> W = [])"

definition mutex_inv :: "'v mutex_state \<Rightarrow> ptr list \<Rightarrow> ptr list \<Rightarrow> bool" where
  "mutex_inv m W A \<longleftrightarrow> (\<exists>R. sched_inv (sched m) R A) \<and> quantum_left (sched m) \<le> 1 \<and>
     rq (w_next m) (waiters_head m) (waiters_tail m) W \<and> pc m (idle_task (sched m)) = Outside \<and>
     (\<forall>t. t \<notin> set A \<longrightarrow> pc m t = Outside) \<and> (\<forall>t. in_frame (pc m t) \<longrightarrow> w_task m t = t) \<and>
     owner_ok (pc m) (m_owner m) W \<and> hand_ok (t_state (sched m)) (wake_pending (sched m)) (pc m) (m_owner m)"

lemma in_frame_simps [simp]: "in_frame Enqueued" "in_frame Recheck" "\<not> in_frame Outside" "\<not> in_frame Holding" "\<not> in_frame (Handing n)"
  by (simp_all add: in_frame_def)

lemma mutex_invD:
  assumes "mutex_inv m W A"
  obtains R where "sched_inv (sched m) R A" "self m \<in> set A" "self m \<noteq> 0" "t_state (sched m) (self m) = TASK_RUNNING"
    "0 \<notin> set A" "pc m 0 = Outside"
proof -
  obtain R where R: "sched_inv (sched m) R A" using assms by (auto simp: mutex_inv_def)
  then have mid: "sched_mid (sched m) R A" "t_state (sched m) (self m) = TASK_RUNNING" by (simp_all add: sched_inv_def)
  note d = sched_midD [OF mid(1)]
  have "pc m 0 = Outside" using assms d(10) by (simp add: mutex_inv_def)
  then show ?thesis using that R mid(2) d by blast
qed

text \<open>What the rest of the system does to the scheduler leaves the mutex alone.\<close>

lemma hand_ok_mono:
  assumes "hand_ok st wp pcs x" "\<And>t. st' t = TASK_SLEEPING \<Longrightarrow> in_frame (pcs t) \<Longrightarrow> st t = TASK_SLEEPING"
    "\<And>t. wp' t = 0 \<Longrightarrow> in_frame (pcs t) \<Longrightarrow> wp t = 0"
  shows "hand_ok st' wp' pcs x"
  using assms unfolding hand_ok_def in_frame_def by blast

lemma mutex_inv_sched:
  assumes inv: "mutex_inv m W A" and s: "sched_inv s R A" "quantum_left s \<le> 1" "idle_task s = idle_task (sched m)"
    and sl: "\<And>t. t_state s t = TASK_SLEEPING \<Longrightarrow> in_frame (pc m t) \<Longrightarrow> t_state (sched m) t = TASK_SLEEPING"
    and wk: "\<And>t. wake_pending s t = 0 \<Longrightarrow> in_frame (pc m t) \<Longrightarrow> wake_pending (sched m) t = 0"
  shows "mutex_inv (m\<lparr>sched := s\<rparr>) W A"
proof -
  have "hand_ok (t_state s) (wake_pending s) (pc m) (m_owner m)"
    by (rule hand_ok_mono [OF _ sl wk]) (use inv in \<open>simp_all add: mutex_inv_def\<close>)
  then show ?thesis using inv s unfolding mutex_inv_def by simp blast
qed

lemma wake_result:
  assumes inv: "sched_inv s R A" and t: "t \<in> set A" "wake_pending s t + 1 \<noteq> 0" and q: "quantum_left s \<le> 1"
  shows "\<exists>R'. sched_inv (sched_wake s t) R' A" "quantum_left (sched_wake s t) \<le> 1" "idle_task (sched_wake s t) = idle_task s"
    "\<And>u. t_state (sched_wake s t) u = TASK_SLEEPING \<longleftrightarrow> t_state s u = TASK_SLEEPING \<and> u \<noteq> t"
    "\<And>u. wake_pending (sched_wake s t) u = 0 \<Longrightarrow> wake_pending s u = 0"
    "t_state s t \<noteq> TASK_SLEEPING \<Longrightarrow> wake_pending (sched_wake s t) t \<noteq> 0" "current (sched_wake s t) = current s"
proof -
  have nz: "t \<noteq> 0" using inv t(1) sched_midD(10) by (metis sched_inv_def)
  note a = wake_sleeping [OF inv t(1)] and b = wake_other [OF inv nz]
  have rq: "requeued s (sched_wake s t)" using a(4) b(4) by blast
  note r = requeued_sel [OF rq]
  show "\<exists>R'. sched_inv (sched_wake s t) R' A" using a(1) b(1) by blast
  show "quantum_left (sched_wake s t) \<le> 1" "idle_task (sched_wake s t) = idle_task s" "current (sched_wake s t) = current s"
    using q r by simp_all
  show "t_state (sched_wake s t) u = TASK_SLEEPING \<longleftrightarrow> t_state s u = TASK_SLEEPING \<and> u \<noteq> t" for u
    using a(2) b(2) by (cases "t_state s t = TASK_SLEEPING") auto
  show "wake_pending (sched_wake s t) u = 0 \<Longrightarrow> wake_pending s u = 0" for u
    using a(3) b(3) t(2) by (cases "t_state s t = TASK_SLEEPING"; cases "u = t") auto
  show "t_state s t \<noteq> TASK_SLEEPING \<Longrightarrow> wake_pending (sched_wake s t) t \<noteq> 0" using b(3) t(2) by simp
qed

section \<open>Every step keeps the invariant\<close>

lemma owner_okD:
  assumes "owner_ok pcs x W"
  shows "set W = {t. in_frame (pcs t) \<and> t \<noteq> x}" "pcs t = Holding \<Longrightarrow> x = t" "x \<noteq> 0 \<Longrightarrow> pcs x = Holding \<or> in_frame (pcs x)"
    "x = 0 \<Longrightarrow> W = []"
  using assms by (auto simp: owner_ok_def)

lemma owner_ok_same:
  "owner_ok pcs x W \<Longrightarrow> (\<And>t. in_frame (pcs' t) = in_frame (pcs t)) \<Longrightarrow> (\<And>t. pcs' t = Holding \<longleftrightarrow> pcs t = Holding) \<Longrightarrow>
    owner_ok pcs' x W"
  unfolding owner_ok_def by simp

text \<open>A step of the running task \<open>c\<close> that changes its own counter only.\<close>

lemma acquire_ok:
  assumes "owner_ok pcs 0 W" "hand_ok st wp pcs 0" "pcs 0 = Outside"
  shows "W = []" "owner_ok (pcs(c := Holding)) c []" "hand_ok st wp (pcs(c := Holding)) c"
proof -
  show "W = []" using owner_okD(4) [OF assms(1)] by simp
  have "\<not> in_frame (pcs t)" "pcs t \<noteq> Holding" for t
    using owner_okD(1,4) [OF assms(1)] owner_okD(2) [OF assms(1), of t] assms(3) by (cases "t = 0"; auto)+
  then show "owner_ok (pcs(c := Holding)) c []" "hand_ok st wp (pcs(c := Holding)) c"
    using assms(2) by (auto simp: owner_ok_def hand_ok_def)
qed

lemma handing_upd: "\<exists>u. pcs u = Handing x \<Longrightarrow> pcs c \<noteq> Handing x \<Longrightarrow> \<exists>u. (pcs(c := p)) u = Handing x"
  by (metis fun_upd_other)

lemma enqueue_ok:
  assumes "owner_ok pcs x W" "hand_ok st wp pcs x" "pcs c = Outside" "st c \<noteq> TASK_SLEEPING" "x \<noteq> 0" "x \<noteq> c"
  shows "c \<notin> set W" "owner_ok (pcs(c := Enqueued)) x (W @ [c])" "hand_ok st wp (pcs(c := Enqueued)) x"
proof -
  show "c \<notin> set W" using owner_okD(1) [OF assms(1)] assms(3) by auto
  show "owner_ok (pcs(c := Enqueued)) x (W @ [c])" using assms(1,3,5,6) by (auto simp: owner_ok_def)
  show "hand_ok st wp (pcs(c := Enqueued)) x" using assms(2-4,6) handing_upd [of pcs x c Enqueued] unfolding hand_ok_def
    by (simp add: assms(3))
qed

lemma sleep_ok:
  assumes "owner_ok pcs x W" "hand_ok st wp pcs x" "pcs c = Enqueued"
    "if 0 < wp c then st' = st \<and> wp' = wp(c := wp c - 1)
     else wp' = wp \<and> st' c = TASK_SLEEPING \<and> (\<forall>t. st' t = TASK_SLEEPING \<longrightarrow> t = c \<or> st t = TASK_SLEEPING)"
  shows "owner_ok (pcs(c := Recheck)) x W" "hand_ok st' wp' (pcs(c := Recheck)) x"
proof -
  have f: "in_frame ((pcs(c := Recheck)) t) = in_frame (pcs t)" for t using assms(3) by simp
  show "owner_ok (pcs(c := Recheck)) x W" by (rule owner_ok_same [OF assms(1) f]) (use assms(3) in simp)
  have h: "\<exists>u. (pcs(c := Recheck)) u = Handing x" if "\<exists>u. pcs u = Handing x" using handing_upd [OF that] assms(3) by simp
  have e: "\<And>t. pcs t = Enqueued \<Longrightarrow> st t \<noteq> TASK_SLEEPING"
    and x: "in_frame (pcs x) \<Longrightarrow> st x = TASK_SLEEPING \<or> pcs x = Enqueued \<and> wp x = 0 \<Longrightarrow> \<exists>u. pcs u = Handing x"
    using assms(2) by (auto simp: hand_ok_def)
  have e': "st' t \<noteq> TASK_SLEEPING" if "(pcs(c := Recheck)) t = Enqueued" for t
    using that e [of t] assms(4) by (auto split: if_splits)
  have "\<exists>u. pcs u = Handing x" if fr: "in_frame (pcs x)" and
    c: "st' x = TASK_SLEEPING \<or> (pcs(c := Recheck)) x = Enqueued \<and> wp' x = 0"
  proof (cases "x = c")
    case True
    then have sl: "st' c = TASK_SLEEPING" using c by simp
    have "\<not> 0 < wp c" using sl e [OF assms(3)] assms(4) by auto
    then have "wp c = 0" by (simp add: word_less_nat_alt unat_eq_0 [symmetric] del: unat_eq_0)
    then show ?thesis using x fr True assms(3) by auto
  next
    case False
    then have "st x = TASK_SLEEPING \<or> pcs x = Enqueued \<and> wp x = 0" using c assms(4) by (auto split: if_splits)
    then show ?thesis using x fr by blast
  qed
  then show "hand_ok st' wp' (pcs(c := Recheck)) x" unfolding hand_ok_def f using e' h by blast
qed

lemma check_ok:
  assumes "owner_ok pcs x W" "hand_ok st wp pcs x" "pcs c = Recheck" "st c \<noteq> TASK_SLEEPING"
  shows "owner_ok (pcs(c := (if x = c then Holding else Enqueued))) x W"
    "hand_ok st wp (pcs(c := (if x = c then Holding else Enqueued))) x"
proof -
  have f: "in_frame ((pcs(c := (if x = c then Holding else Enqueued))) t) \<and> t \<noteq> x \<longleftrightarrow> in_frame (pcs t) \<and> t \<noteq> x" for t
    using assms(3) by auto
  show "owner_ok (pcs(c := (if x = c then Holding else Enqueued))) x W"
    using assms(1,3) unfolding owner_ok_def f by auto
  have h: "\<exists>u. (pcs(c := (if x = c then Holding else Enqueued))) u = Handing x" if "\<exists>u. pcs u = Handing x"
    using handing_upd [OF that] assms(3) by simp
  show "hand_ok st wp (pcs(c := (if x = c then Holding else Enqueued))) x"
    using assms(2,4) h unfolding hand_ok_def by (auto split: if_splits)
qed

lemma release_ok:
  assumes "owner_ok pcs c W" "hand_ok st wp pcs c" "pcs c = Holding"
  shows "W = [] \<Longrightarrow> owner_ok (pcs(c := Outside)) 0 []" "W = [] \<Longrightarrow> hand_ok st wp (pcs(c := Outside)) 0"
    "W = n # V \<Longrightarrow> n \<notin> set V \<Longrightarrow> n \<noteq> 0 \<Longrightarrow> owner_ok (pcs(c := Handing n)) n V" "hand_ok st wp (pcs(c := Handing n)) n"
proof -
  show "owner_ok (pcs(c := Outside)) 0 []" "hand_ok st wp (pcs(c := Outside)) 0" if "W = []"
  proof -
    have "t = c" if "in_frame (pcs t)" for t
    proof (rule ccontr)
      assume "t \<noteq> c"
      then have "t \<in> set W" unfolding owner_okD(1) [OF assms(1)] using that by simp
      then show False using \<open>W = []\<close> by simp
    qed
    then have n: "\<not> in_frame ((pcs(c := Outside)) t)" for t by (cases "t = c") auto
    have "(pcs(c := Outside)) t \<noteq> Holding" for t using owner_okD(2) [OF assms(1), of t] by (cases "t = c") auto
    with n show "owner_ok (pcs(c := Outside)) 0 []" unfolding owner_ok_def by simp
    have "\<forall>t. (pcs(c := Outside)) t \<noteq> Enqueued" using n by (metis in_frame_simps(1))
    then show "hand_ok st wp (pcs(c := Outside)) 0" unfolding hand_ok_def using n by blast
  qed
  show "hand_ok st wp (pcs(c := Handing n)) n" using assms(2) by (auto simp: hand_ok_def)
  show "owner_ok (pcs(c := Handing n)) n V" if W: "W = n # V" "n \<notin> set V" "n \<noteq> 0"
  proof -
    have s: "set W = {t. in_frame (pcs t) \<and> t \<noteq> c}" by (rule owner_okD(1) [OF assms(1)])
    then have n: "in_frame (pcs n)" "n \<noteq> c" using W by auto
    have "set V = {t. in_frame (pcs t) \<and> t \<noteq> c} - {n}" using s W by auto
    then have "set V = {t. in_frame ((pcs(c := Handing n)) t) \<and> t \<noteq> n}" using assms(3) by auto
    moreover have "(pcs(c := Handing n)) t \<noteq> Holding" for t using owner_okD(2) [OF assms(1), of t] by auto
    ultimately show ?thesis using W(3) n by (simp add: owner_ok_def)
  qed
qed

lemma wake_ok:
  assumes "owner_ok pcs x W" "hand_ok st wp pcs x" "pcs c = Handing n" "in_frame (pcs n)"
    "\<And>u. st' u = TASK_SLEEPING \<longleftrightarrow> st u = TASK_SLEEPING \<and> u \<noteq> n" "\<And>u. wp' u = 0 \<Longrightarrow> wp u = 0" "st n \<noteq> TASK_SLEEPING \<Longrightarrow> wp' n \<noteq> 0"
  shows "owner_ok (pcs(c := Outside)) x W" "hand_ok st' wp' (pcs(c := Outside)) x"
proof -
  have f: "in_frame ((pcs(c := Outside)) t) = in_frame (pcs t)" for t using assms(3) by simp
  show "owner_ok (pcs(c := Outside)) x W" by (rule owner_ok_same [OF assms(1) f]) (use assms(3) in simp)
  have e: "\<And>t. pcs t = Enqueued \<Longrightarrow> st t \<noteq> TASK_SLEEPING" using assms(2) by (auto simp: hand_ok_def)
  have "\<exists>u. (pcs(c := Outside)) u = Handing x" if fr: "in_frame (pcs x)" and
    c: "st' x = TASK_SLEEPING \<or> (pcs(c := Outside)) x = Enqueued \<and> wp' x = 0"
  proof (cases "x = n")
    case True
    then show ?thesis using c assms(5,7) e [of n] by (auto split: if_splits)
  next
    case False
    have "st x = TASK_SLEEPING \<or> pcs x = Enqueued \<and> wp x = 0" using c assms(5,6) by (auto split: if_splits)
    then obtain u where u: "pcs u = Handing x" using assms(2) fr by (auto simp: hand_ok_def)
    then have "u \<noteq> c" using assms(3) False by auto
    then show ?thesis using u by auto
  qed
  then show "hand_ok st' wp' (pcs(c := Outside)) x" unfolding hand_ok_def f using e assms(5) by (auto split: if_splits)
qed

lemma mutex_inv_step:
  assumes "mutex_inv m W A" "sched_inv s R A" "quantum_left s \<le> 1" "idle_task s = idle_task (sched m)" "c \<in> set A" "c \<noteq> idle_task s"
    "rq N h z W'" "owner_ok ((pc m)(c := p)) x W'" "hand_ok (t_state s) (wake_pending s) ((pc m)(c := p)) x"
    "in_frame p \<Longrightarrow> w c = c" "\<And>t. t \<noteq> c \<Longrightarrow> w t = w_task m t"
  shows "mutex_inv \<lparr>sched = s, m_owner = x, waiters_head = h, waiters_tail = z, w_task = w, w_next = N, pc = (pc m)(c := p)\<rparr> W' A"
proof -
  have "\<forall>t. in_frame (((pc m)(c := p)) t) \<longrightarrow> w t = t" using assms(1,10,11) by (simp add: mutex_inv_def)
  moreover have "\<forall>t. t \<notin> set A \<longrightarrow> ((pc m)(c := p)) t = Outside" using assms(1,5) by (auto simp: mutex_inv_def)
  moreover have "((pc m)(c := p)) (idle_task s) = Outside" using assms(1,4,6) by (auto simp: mutex_inv_def)
  ultimately show ?thesis using assms(2,3,7-9) unfolding mutex_inv_def by simp blast
qed

lemma mutex_state_eq: "m = \<lparr>sched = sched m, m_owner = m_owner m, waiters_head = waiters_head m, waiters_tail = waiters_tail m,
    w_task = w_task m, w_next = w_next m, pc = pc m\<rparr>"
  by simp

lemma not_idle: "mutex_inv m W A \<Longrightarrow> pc m t \<noteq> Outside \<Longrightarrow> t \<noteq> idle_task (sched m)"
  by (auto simp: mutex_inv_def)

lemma lock_inv:
  assumes inv: "mutex_inv m W A" and c: "pc m (self m) = Outside" "self m \<noteq> idle_task (sched m)"
  shows "m_owner m = 0 \<Longrightarrow> mutex_inv (m\<lparr>m_owner := self m, pc := (pc m)(self m := Holding)\<rparr>) [] A"
    "m_owner m \<noteq> 0 \<Longrightarrow> \<exists>m'. mutex_lock_enter m = Some m' \<and> mutex_inv m' (W @ [self m]) A \<and> sched m' = sched m \<and>
       pc m' = (pc m)(self m := Enqueued) \<and> m_owner m' = m_owner m"
proof -
  obtain R where R: "sched_inv (sched m) R A" "self m \<in> set A" "self m \<noteq> 0" "t_state (sched m) (self m) = TASK_RUNNING" "pc m 0 = Outside"
    using mutex_invD [OF inv] by metis
  note I = inv [unfolded mutex_inv_def]
  show "mutex_inv (m\<lparr>m_owner := self m, pc := (pc m)(self m := Holding)\<rparr>) [] A" if o: "m_owner m = 0"
  proof -
    have ow: "owner_ok (pc m) 0 W" and h: "hand_ok (t_state (sched m)) (wake_pending (sched m)) (pc m) 0"
      and q: "rq (w_next m) (waiters_head m) (waiters_tail m) W" using I o by simp_all
    note a = acquire_ok [OF ow h R(5)]
    from mutex_inv_step [OF inv R(1) _ refl R(2) c(2) q [unfolded a(1)] a(2,3), of "w_task m"] I show ?thesis
      by (subst mutex_state_eq) simp
  qed
  assume o: "m_owner m \<noteq> 0"
  have ne: "m_owner m \<noteq> self m" using I o c(1) owner_okD(3) [of "pc m" "m_owner m" W] by auto
  have ow: "owner_ok (pc m) (m_owner m) W" and h: "hand_ok (t_state (sched m)) (wake_pending (sched m)) (pc m) (m_owner m)"
    and run: "t_state (sched m) (self m) \<noteq> TASK_SLEEPING" using I R(4) by simp_all
  note ok = enqueue_ok [OF ow h c(1) run o ne]
  have "rq (w_next m) (waiters_head m) (waiters_tail m) W" using I by simp
  note q = rq_push [OF this ok(1) R(3)]
  let ?m = "\<lparr>sched = sched m, m_owner = m_owner m, waiters_head = (if waiters_tail m \<noteq> 0 then waiters_head m else self m),
    waiters_tail = self m, w_task = (w_task m)(self m := self m),
    w_next = (if waiters_tail m \<noteq> 0 then (w_next m)(self m := 0, waiters_tail m := self m) else (w_next m)(self m := 0)),
    pc = (pc m)(self m := Enqueued)\<rparr>"
  have "mutex_lock_enter m = Some ?m"
    using R(3) ne o by (cases "waiters_tail m = 0") (simp_all add: mutex_lock_enter_def Let_def)
  moreover have "mutex_inv ?m (W @ [self m]) A"
    by (rule mutex_inv_step [OF inv R(1) _ refl R(2) c(2) q ok(2,3)]) (use I in simp_all)
  ultimately show "\<exists>m'. mutex_lock_enter m = Some m' \<and> mutex_inv m' (W @ [self m]) A \<and> sched m' = sched m \<and>
       pc m' = (pc m)(self m := Enqueued) \<and> m_owner m' = m_owner m" by simp
qed

lemma lock_fast: "m_owner m = 0 \<Longrightarrow> self m \<noteq> 0 \<Longrightarrow> mutex_lock_enter m = Some (m\<lparr>m_owner := self m, pc := (pc m)(self m := Holding)\<rparr>)"
  by (simp add: mutex_lock_enter_def Let_def)

lemma lock_sleep_inv:
  assumes inv: "mutex_inv m W A" and c: "pc m (self m) = Enqueued"
  shows "\<exists>m'. mutex_lock_sleep m = Some m' \<and> mutex_inv m' W A"
proof -
  obtain R where R: "sched_inv (sched m) R A" "self m \<in> set A" using mutex_invD [OF inv] by metis
  note I = inv [unfolded mutex_inv_def]
  have ni: "self m \<noteq> idle_task (sched m)" using not_idle [OF inv] c by simp
  obtain s' R' where s': "sched_sleep_current (sched m) = Some s'" "sched_inv s' R' A" "idle_task s' = idle_task (sched m)" "quantum_left s' \<le> 1"
    "if 0 < wake_pending (sched m) (self m)
     then t_state s' = t_state (sched m) \<and> wake_pending s' = (wake_pending (sched m))(self m := wake_pending (sched m) (self m) - 1)
     else wake_pending s' = wake_pending (sched m) \<and> t_state s' (self m) = TASK_SLEEPING \<and>
       (\<forall>t. t_state s' t = TASK_SLEEPING \<longrightarrow> t = self m \<or> t_state (sched m) t = TASK_SLEEPING)"
    using sleep_result [OF R(1) ni] I by blast
  have ow: "owner_ok (pc m) (m_owner m) W" and h: "hand_ok (t_state (sched m)) (wake_pending (sched m)) (pc m) (m_owner m)"
    and q: "rq (w_next m) (waiters_head m) (waiters_tail m) W" and w: "w_task m (self m) = self m" using I c by simp_all
  note k = sleep_ok [OF ow h c s'(5)]
  from mutex_inv_step [OF inv s'(2,4,3) R(2) _ q k, of "w_task m"] ni s'(3) w
  have "mutex_inv (m\<lparr>sched := s', pc := (pc m)(self m := Recheck)\<rparr>) W A" by (subst mutex_state_eq) simp
  then show ?thesis using s'(1) by (simp add: mutex_lock_sleep_def)
qed

lemma lock_check_inv:
  assumes inv: "mutex_inv m W A" and c: "pc m (self m) = Recheck"
  shows "mutex_inv (mutex_lock_check m) W A"
proof -
  obtain R where R: "sched_inv (sched m) R A" "self m \<in> set A" "t_state (sched m) (self m) = TASK_RUNNING"
    using mutex_invD [OF inv] by metis
  note I = inv [unfolded mutex_inv_def]
  have ow: "owner_ok (pc m) (m_owner m) W" and h: "hand_ok (t_state (sched m)) (wake_pending (sched m)) (pc m) (m_owner m)"
    and q: "rq (w_next m) (waiters_head m) (waiters_tail m) W" and w: "w_task m (self m) = self m"
    and run: "t_state (sched m) (self m) \<noteq> TASK_SLEEPING" and ql: "quantum_left (sched m) \<le> 1" using I c R(3) by simp_all
  have ni: "self m \<noteq> idle_task (sched m)" using not_idle [OF inv] c by simp
  from mutex_inv_step [OF inv R(1) ql refl R(2) ni q check_ok [OF ow h c run], of "w_task m"] w
  show ?thesis unfolding mutex_lock_check_def by (subst mutex_state_eq) simp
qed

text \<open>Unlocking hands the mutex to the task that has waited longest.\<close>

lemma unlock_inv:
  assumes inv: "mutex_inv m W A" and c: "pc m (self m) = Holding"
  shows "W = [] \<Longrightarrow> mutex_unlock_hand m = Some (m\<lparr>m_owner := 0, pc := (pc m)(self m := Outside)\<rparr>)"
    "W = [] \<Longrightarrow> mutex_inv (m\<lparr>m_owner := 0, pc := (pc m)(self m := Outside)\<rparr>) [] A"
    "W = n # V \<Longrightarrow> \<exists>m'. mutex_unlock_hand m = Some m' \<and> mutex_inv m' V A \<and> m_owner m' = n \<and> sched m' = sched m \<and>
       pc m' = (pc m)(self m := Handing n)"
proof -
  obtain R where R: "sched_inv (sched m) R A" "self m \<in> set A" using mutex_invD [OF inv] by metis
  note I = inv [unfolded mutex_inv_def]
  have own: "m_owner m = self m" using owner_okD(2) [of "pc m" "m_owner m" W "self m"] I c by simp
  have ow: "owner_ok (pc m) (self m) W" and h: "hand_ok (t_state (sched m)) (wake_pending (sched m)) (pc m) (self m)"
    and q: "rq (w_next m) (waiters_head m) (waiters_tail m) W" and ql: "quantum_left (sched m) \<le> 1" using I own by simp_all
  have ni: "self m \<noteq> idle_task (sched m)" using not_idle [OF inv] c by simp
  note rel = release_ok [OF ow h c]
  show "mutex_unlock_hand m = Some (m\<lparr>m_owner := 0, pc := (pc m)(self m := Outside)\<rparr>)" if "W = []"
    using own rq_head [OF q] that by (simp add: mutex_unlock_hand_def Let_def)
  show "mutex_inv (m\<lparr>m_owner := 0, pc := (pc m)(self m := Outside)\<rparr>) [] A" if W: "W = []"
    using mutex_inv_step [OF inv R(1) ql refl R(2) ni q [unfolded W] rel(1,2) [OF W], of "w_task m"] by (subst mutex_state_eq) simp
  show "\<exists>m'. mutex_unlock_hand m = Some m' \<and> mutex_inv m' V A \<and> m_owner m' = n \<and> sched m' = sched m \<and>
       pc m' = (pc m)(self m := Handing n)" if W: "W = n # V"
  proof -
    note p = rq_pop [OF q [unfolded W]]
    have "n \<in> set W" using W by simp
    then have wn: "w_task m n = n" using owner_okD(1) [OF ow] I by blast
    let ?m = "\<lparr>sched = sched m, m_owner = n, waiters_head = w_next m n, waiters_tail = (if w_next m n = 0 then 0 else waiters_tail m),
      w_task = w_task m, w_next = w_next m, pc = (pc m)(self m := Handing n)\<rparr>"
    have "mutex_unlock_hand m = Some ?m"
      using own p(1,2) wn by (cases "w_next m n = 0") (simp_all add: mutex_unlock_hand_def Let_def)
    moreover have "mutex_inv ?m V A"
      by (rule mutex_inv_step [OF inv R(1) ql refl R(2) ni p(4) rel(3) [OF W p(3,2)] rel(4)]) simp_all
    ultimately show ?thesis by simp
  qed
qed

lemma unlock_wake_inv:
  assumes inv: "mutex_inv m W A" and c: "pc m (self m) = Handing n" "in_frame (pc m n)" "wake_pending (sched m) (w_task m n) + 1 \<noteq> 0"
  shows "mutex_inv (mutex_unlock_wake m n) W A"
proof -
  obtain R where R: "sched_inv (sched m) R A" "self m \<in> set A" using mutex_invD [OF inv] by metis
  note I = inv [unfolded mutex_inv_def]
  have wn: "w_task m n = n" and nA: "n \<in> set A" using I c(2) by (blast, metis in_frame_simps(3))
  have ow: "owner_ok (pc m) (m_owner m) W" and h: "hand_ok (t_state (sched m)) (wake_pending (sched m)) (pc m) (m_owner m)"
    and q: "rq (w_next m) (waiters_head m) (waiters_tail m) W" and ql: "quantum_left (sched m) \<le> 1" using I by simp_all
  have ni: "self m \<noteq> idle_task (sched m)" using not_idle [OF inv] c(1) by simp
  note k = wake_result [OF R(1) nA c(3) [unfolded wn] ql]
  from k(1) obtain R' where R': "sched_inv (sched_wake (sched m) n) R' A" by blast
  note ok = wake_ok [OF ow h c(1,2), of "t_state (sched_wake (sched m) n)" "wake_pending (sched_wake (sched m) n)", OF k(4,5,6)]
  from mutex_inv_step [OF inv R' k(2,3) R(2) _ q ok, of "w_task m"] ni k(3)
  show ?thesis unfolding mutex_unlock_wake_def wn by (subst mutex_state_eq) simp
qed

lemma mutex_step_inv:
  assumes "mutex_step A m m'" "mutex_inv m W A"
  shows "\<exists>W'. mutex_inv m' W' A"
  using assms
proof (cases rule: mutex_step.cases)
  case Lock
  obtain "self m \<noteq> 0" using mutex_invD [OF assms(2)] by metis
  then show ?thesis using lock_inv [OF assms(2) Lock(1,2)] lock_fast [of m] Lock(3) by (cases "m_owner m = 0") auto
next
  case Sleep
  then show ?thesis using lock_sleep_inv [OF assms(2)] by auto
next
  case Check
  then show ?thesis using lock_check_inv [OF assms(2)] by auto
next
  case Unlock
  then show ?thesis using unlock_inv [OF assms(2)] by (cases W) auto
next
  case (Wake n)
  then show ?thesis using unlock_wake_inv [OF assms(2)] by auto
next
  case Trylock
  then show ?thesis using lock_inv(1) [OF assms(2) Trylock(2,3)] assms(2) by (auto simp: mutex_trylock_def)
next
  case (Tick now s)
  obtain R where R: "sched_inv (sched m) R A" using mutex_invD [OF assms(2)] by metis
  have ql: "quantum_left (sched m) \<le> 1" using assms(2) by (simp add: mutex_inv_def)
  obtain s' Q where s': "sched_tick (sched m) now = Some s'" "sched_inv s' Q A" "wake_pending s' = wake_pending (sched m)"
    "idle_task s' = idle_task (sched m)" "\<forall>t. t_state s' t = TASK_SLEEPING \<longrightarrow> t_state (sched m) t = TASK_SLEEPING" "quantum_left s' = 1"
    by (rule tick_result [OF R ql, of now]) blast
  have "mutex_inv (m\<lparr>sched := s'\<rparr>) W A"
    by (rule mutex_inv_sched [OF assms(2) s'(2) _ s'(4)]) (use s'(3,5,6) in auto)
  then show ?thesis using Tick s'(1) by auto
next
  case (Block s)
  obtain R where R: "sched_inv (sched m) R A" using mutex_invD [OF assms(2)] by metis
  have ql: "quantum_left (sched m) \<le> 1" using assms(2) by (simp add: mutex_inv_def)
  obtain s' R' where s': "sched_sleep_current (sched m) = Some s'" "sched_inv s' R' A" "idle_task s' = idle_task (sched m)" "quantum_left s' \<le> 1"
    "if 0 < wake_pending (sched m) (self m)
     then t_state s' = t_state (sched m) \<and> wake_pending s' = (wake_pending (sched m))(self m := wake_pending (sched m) (self m) - 1)
     else wake_pending s' = wake_pending (sched m) \<and> t_state s' (self m) = TASK_SLEEPING \<and>
       (\<forall>t. t_state s' t = TASK_SLEEPING \<longrightarrow> t = self m \<or> t_state (sched m) t = TASK_SLEEPING)"
    using sleep_result [OF R Block(3) ql] by blast
  have "mutex_inv (m\<lparr>sched := s'\<rparr>) W A"
  proof (rule mutex_inv_sched [OF assms(2) s'(2,4,3)])
    fix t assume t: "in_frame (pc m t)"
    have ne: "t \<noteq> self m" using t Block(2) by auto
    show "t_state (sched m) t = TASK_SLEEPING" if "t_state s' t = TASK_SLEEPING" using that s'(5) ne by (auto split: if_splits)
    show "wake_pending (sched m) t = 0" if "wake_pending s' t = 0" using that s'(5) ne by (auto split: if_splits)
  qed
  then show ?thesis using Block s'(1) by auto
next
  case (Elsewhere t)
  obtain R where R: "sched_inv (sched m) R A" using mutex_invD [OF assms(2)] by metis
  have ql: "quantum_left (sched m) \<le> 1" using assms(2) by (simp add: mutex_inv_def)
  note k = wake_result [OF R Elsewhere(2,3) ql]
  from k(1) obtain R' where R': "sched_inv (sched_wake (sched m) t) R' A" by blast
  have "mutex_inv (m\<lparr>sched := sched_wake (sched m) t\<rparr>) W A"
    by (rule mutex_inv_sched [OF assms(2) R' k(2,3)]) (use k(4,5) in blast)+
  then show ?thesis using Elsewhere(1) by auto
qed

lemma mutex_init_inv:
  assumes "sched_inv (sched m) R A" "quantum_left (sched m) \<le> 1" "\<forall>t. pc m t = Outside"
  shows "mutex_inv (mutex_init m) [] A"
  using assms unfolding mutex_inv_def by (auto simp: mutex_init_def rq_def owner_ok_def hand_ok_def)

lemma mutex_reachable_inv:
  assumes "(mutex_step A)\<^sup>*\<^sup>* m m'" "mutex_inv m W A"
  shows "\<exists>W'. mutex_inv m' W' A"
  using assms by (induction rule: rtranclp_induct) (auto dest: mutex_step_inv)

section \<open>A run with two tasks\<close>

definition mutex_sample :: "unit sched_state \<Rightarrow> unit mutex_state" where
  "mutex_sample s = \<lparr>sched = s, m_owner = 9, waiters_head = 9, waiters_tail = 9, w_task = (\<lambda>_. 0), w_next = (\<lambda>_. 0), pc = (\<lambda>_. Outside)\<rparr>"

definition calm :: "'v sched_state \<Rightarrow> bool" where
  "calm s \<longleftrightarrow> quantum_left s \<le> 1 \<and> (\<forall>t. t_state s t \<noteq> TASK_SLEEPING)"

lemma tick_two:
  assumes inv: "sched_inv s [x] A" and c: "current s \<noteq> idle_task s" and k: "calm s"
  shows "\<exists>s'. sched_tick s 0 = Some s' \<and> sched_inv s' [current s] A \<and> current s' = x \<and> wake_pending s' = wake_pending s \<and>
    idle_task s' = idle_task s \<and> calm s'"
proof -
  have q: "quantum_left s \<le> 1" and ns: "\<forall>t. t_state s t \<noteq> TASK_SLEEPING" using k by (simp_all add: calm_def)
  then have "\<forall>t. \<not> due s 0 t" by (simp add: due_def)
  then have D: "filter (due s 0) A = []" by simp
  obtain s' where "sched_tick s 0 = Some s'" "sched_inv s' [current s] A" "current s' = x" "wake_pending s' = wake_pending s"
    "idle_task s' = idle_task s" "\<forall>t. t_state s' t = TASK_SLEEPING \<longrightarrow> t_state s t = TASK_SLEEPING" "quantum_left s' = 1"
    by (rule tick_result [OF inv q, of 0]) (use D c in simp)
  then show ?thesis using ns by (auto simp: calm_def)
qed

text \<open>
  The first task holds the mutex, the second waits for it and has a wake credit from elsewhere;
  the first hands the mutex over and is preempted before its wake-up; the second spends the credit,
  takes the mutex, gives it back and is gone.
\<close>

lemma handover_run:
  assumes s: "sched_inv s [p] A" "current s = b" "calm s" "wake_pending s p = 0" and ne: "b \<noteq> idle_task s" "p \<noteq> idle_task s"
  obtains m1 m where "mutex_step A (mutex_init (mutex_sample s)) m1" "pc m1 b = Holding"
    "(mutex_step A)\<^sup>*\<^sup>* (mutex_init (mutex_sample s)) m" "pc m b = Handing p" "pc m p = Outside"
proof -
  let ?i = "mutex_init (mutex_sample s)"
  have bp: "b \<noteq> p" "p \<in> set A" "b \<noteq> 0" using s(1,2) sched_midD(11,13,14) [of s "[p]" A] by (auto simp: sched_inv_def)
  have I0: "mutex_inv ?i [] A" using s by (intro mutex_init_inv) (simp_all add: mutex_sample_def calm_def)
  have i: "sched ?i = s" "m_owner ?i = 0" "pc ?i = (\<lambda>_. Outside)" by (simp_all add: mutex_init_def mutex_sample_def)
  let ?m1 = "?i\<lparr>m_owner := b, pc := (pc ?i)(b := Holding)\<rparr>"
  have l1: "mutex_lock_enter ?i = Some ?m1" using lock_fast [of ?i] i s(2) bp by simp
  have S1: "mutex_step A ?i ?m1" by (rule mutex_step.Lock [OF _ _ l1]) (use i s(2) ne in simp_all)
  have I1: "mutex_inv ?m1 [] A" using lock_inv(1) [OF I0] i s(2) ne(1) by simp
  have p1: "sched ?m1 = s" "m_owner ?m1 = b" "pc ?m1 = (\<lambda>_. Outside)(b := Holding)" using i by simp_all
  obtain s2 where s2: "sched_tick s 0 = Some s2" "sched_inv s2 [b] A" "current s2 = p" "wake_pending s2 = wake_pending s"
    "idle_task s2 = idle_task s" "calm s2" using tick_two [OF s(1) _ s(3)] s(2) ne by auto
  define m2 where "m2 = ?m1\<lparr>sched := s2\<rparr>"
  have S2: "mutex_step A ?m1 m2" unfolding m2_def by (rule mutex_step.Tick [of _ 0]) (use p1 s2 in simp)
  have p2: "sched m2 = s2" "m_owner m2 = b" "pc m2 = (\<lambda>_. Outside)(b := Holding)" using p1 by (simp_all add: m2_def)
  have I2: "mutex_inv m2 [] A"
    unfolding m2_def by (rule mutex_inv_sched [OF I1 s2(2)]) (use s2 s(3) p1 in \<open>simp_all add: calm_def\<close>)
  obtain m3 where m3: "mutex_lock_enter m2 = Some m3" "mutex_inv m3 ([] @ [p]) A" "sched m3 = s2"
    "pc m3 = (pc m2)(p := Enqueued)" "m_owner m3 = b"
    using lock_inv(2) [OF I2] p2 s2(3,5) bp ne(2) by auto
  have S3: "mutex_step A m2 m3" by (rule mutex_step.Lock [OF _ _ m3(1)]) (use p2 s2 bp ne in simp_all)
  define s4 where "s4 = sched_wake s2 p"
  have run: "t_state s2 p = TASK_RUNNING" "p \<noteq> 0" using s2(2,3) sched_midD(11) by (auto simp: sched_inv_def)
  have s4: "sched_inv s4 [b] A" "t_state s4 = t_state s2" "wake_pending s4 = (wake_pending s2)(p := 1)" "requeued s2 s4"
    using wake_other [OF s2(2) run(2)] run(1) s2(4) s(4) by (simp_all add: s4_def)
  note r4 = requeued_sel [OF s4(4)]
  define m4 where "m4 = m3\<lparr>sched := s4\<rparr>"
  have S4: "mutex_step A m3 m4" unfolding m4_def s4_def m3(3) [symmetric]
    by (rule mutex_step.Elsewhere [OF bp(2)]) (use m3(3) s2(4) s(4) in simp)
  have I4: "mutex_inv m4 [p] A" unfolding m4_def
    by (rule mutex_inv_sched [OF m3(2) [simplified] s4(1)]) (use s2 s4(2,3) r4 m3(3) s(4) in \<open>auto simp: calm_def split: if_splits\<close>)
  have c4: "calm s4" using s2(6) s4(2) r4 by (simp add: calm_def)
  obtain s5 where s5: "sched_tick s4 0 = Some s5" "sched_inv s5 [p] A" "current s5 = b" "wake_pending s5 = wake_pending s4"
    "idle_task s5 = idle_task s" "calm s5" using tick_two [OF s4(1) _ c4] r4 s2(3,5) ne(2) by auto
  define m5 where "m5 = m4\<lparr>sched := s5\<rparr>"
  have S5: "mutex_step A m4 m5" unfolding m5_def by (rule mutex_step.Tick [of _ 0]) (use s5 in \<open>simp add: m4_def\<close>)
  have I5: "mutex_inv m5 [p] A"
    unfolding m5_def by (rule mutex_inv_sched [OF I4 s5(2)]) (use s5 r4 s2 in \<open>simp_all add: calm_def m4_def\<close>)
  have p5: "sched m5 = s5" "pc m5 = (\<lambda>_. Outside)(b := Holding, p := Enqueued)" using m3(4) p2 by (simp_all add: m5_def m4_def)
  obtain m6 where m6: "mutex_unlock_hand m5 = Some m6" "mutex_inv m6 [] A" "m_owner m6 = p" "sched m6 = s5" "pc m6 = (pc m5)(b := Handing p)"
    using unlock_inv(3) [OF I5, of p "[]"] p5 s5(3) bp by auto
  have S6: "mutex_step A m5 m6" by (rule mutex_step.Unlock [OF _ m6(1)]) (use p5 s5 bp in simp)
  obtain s7 where s7: "sched_tick s5 0 = Some s7" "sched_inv s7 [b] A" "current s7 = p" "wake_pending s7 = wake_pending s5"
    "idle_task s7 = idle_task s" "calm s7" using tick_two [OF s5(2) _ s5(6)] s5(3,5) ne(1) by auto
  define m7 where "m7 = m6\<lparr>sched := s7\<rparr>"
  have S7: "mutex_step A m6 m7" unfolding m7_def by (rule mutex_step.Tick [of _ 0]) (use s7 m6 in simp)
  have p7: "sched m7 = s7" "m_owner m7 = p" "pc m7 = (\<lambda>_. Outside)(b := Handing p, p := Enqueued)"
    using m6 p5 bp(1) by (auto simp: m7_def fun_eq_iff)
  have I7: "mutex_inv m7 [] A"
    unfolding m7_def by (rule mutex_inv_sched [OF m6(2) s7(2)]) (use s7 s5 m6 in \<open>simp_all add: calm_def\<close>)
  define s8 where "s8 = s7\<lparr>wake_pending := (wake_pending s7)(p := 0)\<rparr>"
  define m8 where "m8 = m7\<lparr>sched := s8, pc := (pc m7)(p := Recheck)\<rparr>"
  have cr: "wake_pending s7 p = 1" using s7(4) s5(4) s4(3) by simp
  have l8: "mutex_lock_sleep m7 = Some m8"
    using cr p7(1) s7(3) by (simp add: mutex_lock_sleep_def sched_sleep_current_def Let_def m8_def s8_def)
  have S8: "mutex_step A m7 m8" by (rule mutex_step.Sleep [OF _ l8]) (use p7 s7 in simp)
  have I8: "mutex_inv m8 [] A" using lock_sleep_inv [OF I7] p7 s7(3) l8 by simp
  have p8: "self m8 = p" "m_owner m8 = p" "pc m8 p = Recheck" "pc m8 b = Handing p" using p7 s7(3) bp(1) by (simp_all add: m8_def s8_def)
  define m9 where "m9 = mutex_lock_check m8"
  have S9: "mutex_step A m8 m9" unfolding m9_def by (rule mutex_step.Check) (use p8 in simp)
  have I9: "mutex_inv m9 [] A" unfolding m9_def using lock_check_inv [OF I8] p8 by simp
  have p9: "self m9 = p" "pc m9 p = Holding" "pc m9 b = Handing p" using p8 bp(1) by (simp_all add: m9_def mutex_lock_check_def)
  define m where "m = m9\<lparr>m_owner := 0, pc := (pc m9)(p := Outside)\<rparr>"
  have "mutex_unlock_hand m9 = Some m" using unlock_inv(1) [OF I9] p9 by (simp add: m_def)
  then have S: "mutex_step A m9 m" by (rule mutex_step.Unlock [rotated]) (use p9 in simp)
  have "(mutex_step A)\<^sup>*\<^sup>* ?i m"
    using S1 S2 S3 S4 S5 S6 S7 S8 S9 S by (meson rtranclp.rtrancl_into_rtrancl rtranclp.rtrancl_refl)
  then show thesis using that S1 p1(3) p9(3) bp(1) by (simp add: m_def)
qed

lemma sample_run:
  assumes h: "sample_heap h p"
  obtains m1 m where "mutex_step [p, p + 2, p + 1] (mutex_init (mutex_sample (sched_sample h p))) m1" "pc m1 (p + 1) = Holding"
    "(mutex_step [p, p + 2, p + 1])\<^sup>*\<^sup>* (mutex_init (mutex_sample (sched_sample h p))) m" "pc m (p + 1) = Handing p" "pc m p = Outside"
  by (rule handover_run [OF sched_sample_inv [OF h], of "p + 1"]) (auto simp: sched_sample_def calm_def)

lemma sample_start:
  assumes "sample_heap h p"
  shows "sched_inv (sched (mutex_sample (sched_sample h p))) [p] [p, p + 2, p + 1]"
    "quantum_left (sched (mutex_sample (sched_sample h p))) \<le> 1" "\<forall>t. pc (mutex_sample (sched_sample h p)) t = Outside"
  using sched_sample_inv [OF assms] by (simp_all add: mutex_sample_def) (simp add: sched_sample_def)

section \<open>Properties\<close>





text \<open>
  C39. The wake-up at the end of \<^verbatim>\<open>mutex_unlock\<close> reads the waiter's node after the guard is dropped, and
  the node may be gone by then: there is a run with two tasks in which the waiter, woken early by
  a credit from elsewhere, has returned from \<^verbatim>\<open>mutex_lock\<close>, its frame and node with it, and has even
  released the mutex again, while the unlocking task is still about to read that node.
\<close>

theorem mutex_unlock_reads_dead_node:
  "\<exists>h p m. sample_heap h p \<and> (mutex_step [p, p + 2, p + 1])\<^sup>*\<^sup>* (mutex_init (mutex_sample (sched_sample h p))) m \<and>
    pc m (p + 1) = Handing p \<and> pc m p = Outside"
proof -
  obtain h p where h: "sample_heap h p" using sample_heap_exists by blast
  obtain m where "(mutex_step [p, p + 2, p + 1])\<^sup>*\<^sup>* (mutex_init (mutex_sample (sched_sample h p))) m" "pc m (p + 1) = Handing p"
    "pc m p = Outside" by (rule sample_run [OF h])
  with h show ?thesis by (intro exI conjI)
qed

end
