(* ===== verification/Cmdline.thy ===== *)
theory Cmdline
  imports Kstring
begin

text \<open>
  The kernel command line, \<^verbatim>\<open>kernel/kernel/cmdline.c\<close>: a boot string is copied into a buffer and split
  into a table of keys and values. Buffer and table are static arrays, modelled at addresses in the
  byte memory of \<^verbatim>\<open>string.c\<close>, whose functions the code calls. A specification splits the string as
  a list of bytes, and the table is shown to hold just what it says, whatever bytes are passed in.
\<close>

section \<open>The code\<close>

definition CMDLINE_BUF_SIZE :: nat where "CMDLINE_BUF_SIZE = 1024"
definition CMDLINE_MAX_ENTRIES :: nat where "CMDLINE_MAX_ENTRIES = 32"
definition CMDLINE_MAX_KEY :: nat where "CMDLINE_MAX_KEY = 32"
definition CMDLINE_MAX_VALUE :: nat where "CMDLINE_MAX_VALUE = 64"

lemmas cmdline_consts = CMDLINE_BUF_SIZE_def CMDLINE_MAX_ENTRIES_def CMDLINE_MAX_KEY_def CMDLINE_MAX_VALUE_def

text \<open>
  The statics: where the buffer, the table and the literal \<open>"1"\<close> of \<^verbatim>\<open>cmdline_parse\<close> lie, and the
  number of entries.
\<close>

record cmdline_state =
  mem :: mem
  raw :: ptr
  tbl :: ptr
  one :: ptr
  entry_count :: nat

text \<open>\<^verbatim>\<open>struct cmdline_entry\<close>: a key array, a value array and a flag, without padding.\<close>

definition sizeof_entry :: nat where
  "sizeof_entry = CMDLINE_MAX_KEY + CMDLINE_MAX_VALUE + 1"

definition entry_key :: "cmdline_state \<Rightarrow> nat \<Rightarrow> ptr" where
  "entry_key s i = tbl s + i * sizeof_entry"

definition entry_value :: "cmdline_state \<Rightarrow> nat \<Rightarrow> ptr" where
  "entry_value s i = entry_key s i + CMDLINE_MAX_KEY"

definition entry_used :: "cmdline_state \<Rightarrow> nat \<Rightarrow> ptr" where
  "entry_used s i = entry_value s i + CMDLINE_MAX_VALUE"

definition is_space :: "u8 \<Rightarrow> bool" where
  "is_space c \<longleftrightarrow> c = 32 \<or> c = 9"

definition store_pair :: "cmdline_state \<Rightarrow> ptr \<Rightarrow> nat \<Rightarrow> ptr \<Rightarrow> nat \<Rightarrow> cmdline_state" where
  "store_pair s k klen v vlen =
     (if entry_count s \<ge> CMDLINE_MAX_ENTRIES then s
      else if klen = 0 then s
      else
        let e = entry_count s;
            klen = (if klen \<ge> CMDLINE_MAX_KEY then CMDLINE_MAX_KEY - 1 else klen);
            m = memcpy (mem s) (entry_key s e) k klen;
            m = m(entry_key s e + klen := 0);
            vlen = (if vlen \<ge> CMDLINE_MAX_VALUE then CMDLINE_MAX_VALUE - 1 else vlen);
            m = memcpy m (entry_value s e) v vlen;
            m = m(entry_value s e + vlen := 0);
            m = m(entry_used s e := 1)
        in s\<lparr>mem := m, entry_count := e + 1\<rparr>)"

text \<open>The three inner loops of \<^verbatim>\<open>cmdline_parse\<close> step a pointer while the byte under it satisfies a condition.\<close>

partial_function (option) scan :: "(u8 \<Rightarrow> bool) \<Rightarrow> mem \<Rightarrow> ptr \<Rightarrow> ptr option" where
  "scan P m p = (if P (m p) then scan P m (p + 1) else Some p)"

definition key_char :: "u8 \<Rightarrow> bool" where
  "key_char c \<longleftrightarrow> c \<noteq> 0 \<and> \<not> is_space c \<and> c \<noteq> 61"

definition value_char :: "u8 \<Rightarrow> bool" where
  "value_char c \<longleftrightarrow> c \<noteq> 0 \<and> \<not> is_space c"

partial_function (option) parse_loop :: "cmdline_state \<Rightarrow> ptr \<Rightarrow> cmdline_state option" where
  "parse_loop s p =
     (if mem s p = 0 then Some s
      else do {
        key \<leftarrow> scan is_space (mem s) p;
        if mem s key = 0 then Some s
        else do {
          p \<leftarrow> scan key_char (mem s) key;
          if mem s p = 61 then do {
            q \<leftarrow> scan value_char (mem s) (p + 1);
            parse_loop (store_pair s key (p - key) (p + 1) (q - (p + 1))) q
          }
          else parse_loop (store_pair s key (p - key) (one s) 1) p
        }
      })"

definition cmdline_parse :: "cmdline_state \<Rightarrow> ptr \<Rightarrow> cmdline_state option" where
  "cmdline_parse st s =
     (let st = st\<lparr>entry_count := 0, mem := memset (mem st) (tbl st) 0 (CMDLINE_MAX_ENTRIES * sizeof_entry)\<rparr> in
      if s = NULL then Some (st\<lparr>mem := (mem st)(raw st := 0)\<rparr>)
      else
        let n = strnlen (mem st) s (CMDLINE_BUF_SIZE - 1);
            m = memcpy (mem st) (raw st) s n;
            m = m(raw st + n := 0)
        in parse_loop (st\<lparr>mem := m\<rparr>) (raw st))"

function get_from :: "cmdline_state \<Rightarrow> ptr \<Rightarrow> nat \<Rightarrow> ptr option" where
  "get_from s key i =
     (if i < entry_count s then
        if mem s (entry_used s i) = 0 then get_from s key (i + 1)
        else do {
          r \<leftarrow> strcmp (mem s) (entry_key s i) key;
          if r = 0 then Some (entry_value s i) else get_from s key (i + 1)
        }
      else Some NULL)"
  by auto
termination by (relation "measure (\<lambda>(s, key, i). entry_count s - i)") auto

declare get_from.simps [simp del]

definition cmdline_get :: "cmdline_state \<Rightarrow> ptr \<Rightarrow> ptr option" where
  "cmdline_get s key = get_from s key 0"

definition cmdline_bool :: "cmdline_state \<Rightarrow> ptr \<Rightarrow> bool option" where
  "cmdline_bool s key = do {
     v \<leftarrow> cmdline_get s key;
     if v = NULL then Some False
     else if mem s v = 48 \<and> mem s (v + 1) = 0 then Some False
     else Some True
   }"

section \<open>The specification\<close>

text \<open>The words of a text, and the key and value of a word.\<close>

function split_words :: "u8 list \<Rightarrow> u8 list list" where
  "split_words xs =
     (case dropWhile is_space xs of [] \<Rightarrow> []
      | y # ys \<Rightarrow> takeWhile (\<lambda>c. \<not> is_space c) (y # ys) # split_words (dropWhile (\<lambda>c. \<not> is_space c) ys))"
  by auto
termination
proof (relation "measure length")
  fix xs y :: "u8 list" and c
  assume "dropWhile is_space xs = c # y"
  then have "length (c # y) \<le> length xs" by (metis length_dropWhile_le)
  then show "(dropWhile (\<lambda>c. \<not> is_space c) y, xs) \<in> measure length"
    using length_dropWhile_le [of "\<lambda>c. \<not> is_space c" y] by simp
qed simp

declare split_words.simps [simp del]

definition pair_of :: "u8 list \<Rightarrow> u8 list \<times> u8 list" where
  "pair_of w = (takeWhile (\<lambda>c. c \<noteq> 61) w, if 61 \<in> set w then tl (dropWhile (\<lambda>c. c \<noteq> 61) w) else [49])"

text \<open>What fits into an entry, and what a table holds after the pairs \<open>ps\<close> were stored in turn.\<close>

definition clip :: "u8 list \<times> u8 list \<Rightarrow> u8 list \<times> u8 list" where
  "clip p = (take (CMDLINE_MAX_KEY - 1) (fst p), take (CMDLINE_MAX_VALUE - 1) (snd p))"

definition stored :: "(u8 list \<times> u8 list) list \<Rightarrow> (u8 list \<times> u8 list) list" where
  "stored ps = take CMDLINE_MAX_ENTRIES (map clip (filter (\<lambda>p. fst p \<noteq> []) ps))"

text \<open>The text at an address: the bytes up to a zero, at most as many as the buffer has room for.\<close>

definition text_at :: "mem \<Rightarrow> ptr \<Rightarrow> u8 list" where
  "text_at m s = takeWhile (\<lambda>c. c \<noteq> 0) (map (\<lambda>i. m (s + i)) [0..<CMDLINE_BUF_SIZE - 1])"

section \<open>The table\<close>

definition bytes_at :: "mem \<Rightarrow> ptr \<Rightarrow> u8 list \<Rightarrow> bool" where
  "bytes_at m p xs \<longleftrightarrow> (\<forall>i<length xs. m (p + i) = xs ! i)"

text \<open>The entries are valid: terminated inside their arrays, the keys not empty, the flags set.\<close>

definition pair_ok :: "u8 list \<times> u8 list \<Rightarrow> bool" where
  "pair_ok p \<longleftrightarrow> fst p \<noteq> [] \<and> length (fst p) < CMDLINE_MAX_KEY \<and> length (snd p) < CMDLINE_MAX_VALUE"

definition table_ok :: "cmdline_state \<Rightarrow> (u8 list \<times> u8 list) list \<Rightarrow> bool" where
  "table_ok s es \<longleftrightarrow> entry_count s = length es \<and> length es \<le> CMDLINE_MAX_ENTRIES \<and>
     (\<forall>i<length es. pair_ok (es ! i) \<and> cstr (mem s) (entry_key s i) (fst (es ! i)) \<and>
        cstr (mem s) (entry_value s i) (snd (es ! i)) \<and> mem s (entry_used s i) = 1)"

definition in_table :: "cmdline_state \<Rightarrow> ptr \<Rightarrow> bool" where
  "in_table s x \<longleftrightarrow> tbl s \<le> x \<and> x < tbl s + CMDLINE_MAX_ENTRIES * sizeof_entry"

lemma cstr_cong: "(\<And>i. i \<le> length xs \<Longrightarrow> m' (p + i) = m (p + i)) \<Longrightarrow> cstr m' p xs = cstr m p xs"
  by (simp add: cstr_def)

lemma entry_size: "sizeof_entry = 97" by (simp add: sizeof_entry_def cmdline_consts)

lemmas entry_addr = entry_key_def entry_value_def entry_used_def entry_size cmdline_consts

lemma entry_upd [simp]:
  "entry_key (s\<lparr>mem := m\<rparr>) = entry_key s" "entry_value (s\<lparr>mem := m\<rparr>) = entry_value s" "entry_used (s\<lparr>mem := m\<rparr>) = entry_used s"
  "entry_key (s\<lparr>entry_count := n\<rparr>) = entry_key s" "entry_value (s\<lparr>entry_count := n\<rparr>) = entry_value s"
  "entry_used (s\<lparr>entry_count := n\<rparr>) = entry_used s"
  by (simp_all add: fun_eq_iff entry_addr)

lemma memcpy_apart: "s + n \<le> d \<or> d + n \<le> s \<Longrightarrow> memcpy m d s n x = (if d \<le> x \<and> x < d + n then m (s + (x - d)) else m x)"
  by (rule memcpy_result) linarith

text \<open>A range with no byte in an array lies before or behind every part of the array.\<close>

lemma apart:
  assumes out: "\<And>i. i < n \<Longrightarrow> k + i < a \<or> a + len \<le> k + i" and b: "a \<le> (b :: nat)" "b + n \<le> a + len"
  shows "k + n \<le> b \<or> b + n \<le> k"
proof (rule ccontr)
  assume "\<not> (k + n \<le> b \<or> b + n \<le> k)"
  then have l: "k < b + n" "b < k + n" by auto
  then have "k + 0 < a \<or> a + len \<le> k + 0" by (intro out) linarith
  then have "k < a" using l b by linarith
  then have "a - k < n" using l b by linarith
  then show False using out [of "a - k"] \<open>k < a\<close> b l by simp
qed

lemma store_pair_mem:
  assumes c: "entry_count s < CMDLINE_MAX_ENTRIES" and ks: "bytes_at (mem s) k ks" "0 \<notin> set ks" "ks \<noteq> []"
    and vs: "bytes_at (mem s) v vs" "0 \<notin> set vs"
    and ka: "\<forall>i<length ks. \<not> in_table s (k + i)" and va: "\<forall>i<length vs. \<not> in_table s (v + i)"
  shows "\<exists>m. store_pair s k (length ks) v (length vs) = s\<lparr>mem := m, entry_count := entry_count s + 1\<rparr> \<and>
    cstr m (entry_key s (entry_count s)) (take 31 ks) \<and> cstr m (entry_value s (entry_count s)) (take 63 vs) \<and>
    m (entry_used s (entry_count s)) = 1 \<and>
    (\<forall>x. x < entry_key s (entry_count s) \<or> entry_key s (entry_count s + 1) \<le> x \<longrightarrow> m x = mem s x)"
proof -
  define a where "a = entry_key s (entry_count s)"
  have ad: "entry_value s (entry_count s) = a + 32" "entry_used s (entry_count s) = a + 96" "entry_key s (entry_count s + 1) = a + 97"
    by (simp_all add: a_def entry_addr)
  have tb: "tbl s \<le> a" "a + 97 \<le> tbl s + 32 * 97" using c by (simp_all add: a_def entry_addr)
  define kl where "kl = length (take 31 ks)"
  define vl where "vl = length (take 63 vs)"
  have kv: "kl \<le> 31" "kl \<le> length ks" "vl \<le> 63" "vl \<le> length vs" by (simp_all add: kl_def vl_def)
  define m1 where "m1 = memcpy (mem s) a k kl"
  define m2 where "m2 = m1(a + kl := 0)"
  define m3 where "m3 = memcpy m2 (a + 32) v vl"
  define m4 where "m4 = m3(a + 32 + vl := 0, a + 96 := 1)"
  have out: "x < a \<or> a + 97 \<le> x" if "\<not> in_table s x" for x
    using that tb by (auto simp: in_table_def entry_size cmdline_consts)
  have kout: "k + i < a \<or> a + 97 \<le> k + i" if "i < kl" for i using ka kv that out by simp
  have vout: "v + i < a \<or> a + 97 \<le> v + i" if "i < vl" for i using va kv that out by simp
  have kap: "k + kl \<le> a \<or> a + kl \<le> k" by (rule apart [of _ _ a 97, OF kout]) (use kv in simp_all)
  have vap: "v + vl \<le> a + 32 \<or> a + 32 + vl \<le> v" by (rule apart [of _ _ a 97, OF vout]) (use kv in simp_all)
  have m1: "m1 x = (if a \<le> x \<and> x < a + kl then mem s (k + (x - a)) else mem s x)" for x
    unfolding m1_def by (rule memcpy_apart [OF kap])
  have m3: "m3 x = (if a + 32 \<le> x \<and> x < a + 32 + vl then m2 (v + (x - (a + 32))) else m2 x)" for x
    unfolding m3_def by (rule memcpy_apart [OF vap])
  have other: "m4 x = mem s x" if "x < a \<or> a + 97 \<le> x" for x
    using that kv unfolding m4_def by (auto simp: m3 m2_def m1)
  have kb: "m4 (a + i) = ks ! i" if "i < kl" for i
    using that kv ks(1) by (simp add: m4_def m3 m2_def m1 bytes_at_def)
  have kz: "m4 (a + kl) = 0" using kv by (simp add: m4_def m3 m2_def)
  have vb: "m4 (a + 32 + i) = vs ! i" if "i < vl" for i
  proof -
    have "m4 (a + 32 + i) = m2 (v + i)" using that kv by (simp add: m4_def m3)
    also have "... = mem s (v + i)" using vout [OF that] kv by (auto simp: m2_def m1)
    finally show ?thesis using vs(1) kv that by (simp add: bytes_at_def)
  qed
  have "cstr m4 a (take 31 ks)"
    using kb kz ks(2) by (auto simp: cstr_def kl_def dest: in_set_takeD)
  moreover have "cstr m4 (a + 32) (take 63 vs)"
    using vb kv vs(2) by (auto simp: cstr_def vl_def m4_def dest: in_set_takeD)
  moreover have "m4 (a + 96) = 1" by (simp add: m4_def)
  moreover have "store_pair s k (length ks) v (length vs) = s\<lparr>mem := m4, entry_count := entry_count s + 1\<rparr>"
  proof -
    have "(if CMDLINE_MAX_KEY \<le> length ks then CMDLINE_MAX_KEY - 1 else length ks) = kl"
      "(if CMDLINE_MAX_VALUE \<le> length vs then CMDLINE_MAX_VALUE - 1 else length vs) = vl"
      by (auto simp: kl_def vl_def cmdline_consts)
    then show ?thesis using c ks(3) unfolding store_pair_def Let_def m4_def m3_def m2_def m1_def
      by (simp add: ad a_def [symmetric])
  qed
  ultimately show ?thesis unfolding ad a_def [symmetric] using other by blast
qed

lemma store_pair_full: "CMDLINE_MAX_ENTRIES \<le> entry_count s \<or> klen = 0 \<Longrightarrow> store_pair s k klen v vlen = s"
  by (auto simp: store_pair_def)

lemma stored_snoc:
  "stored (ps @ [p]) = (if fst p \<noteq> [] \<and> length (stored ps) < CMDLINE_MAX_ENTRIES then stored ps @ [clip p] else stored ps)"
  by (auto simp: stored_def min_def not_less)

definition same_layout :: "cmdline_state \<Rightarrow> cmdline_state \<Rightarrow> bool" where
  "same_layout s s' \<longleftrightarrow> raw s' = raw s \<and> tbl s' = tbl s \<and> one s' = one s \<and> (\<forall>x. \<not> in_table s x \<longrightarrow> mem s' x = mem s x)"

lemma in_table_cong: "same_layout s s' \<Longrightarrow> in_table s' = in_table s"
  by (simp add: same_layout_def in_table_def fun_eq_iff)

lemma same_layout_refl [simp]: "same_layout s s"
  by (simp add: same_layout_def)

lemma same_layout_trans: "same_layout s u \<Longrightarrow> same_layout u v \<Longrightarrow> same_layout s v"
  by (simp add: same_layout_def in_table_def)

lemma store_pair_ok:
  assumes ok: "table_ok s (stored ps)" and ks: "bytes_at (mem s) k ks" "0 \<notin> set ks" "\<forall>i<length ks. \<not> in_table s (k + i)"
    and vs: "bytes_at (mem s) v vs" "0 \<notin> set vs" "\<forall>i<length vs. \<not> in_table s (v + i)"
  shows "table_ok (store_pair s k (length ks) v (length vs)) (stored (ps @ [(ks, vs)]))"
    "same_layout s (store_pair s k (length ks) v (length vs))"
proof -
  let ?n = "entry_count s" and ?es = "stored ps"
  have n: "?n = length ?es" "?n \<le> CMDLINE_MAX_ENTRIES" using ok by (simp_all add: table_ok_def)
  have "table_ok (store_pair s k (length ks) v (length vs)) (stored (ps @ [(ks, vs)])) \<and>
    same_layout s (store_pair s k (length ks) v (length vs))"
  proof (cases "?n < CMDLINE_MAX_ENTRIES \<and> ks \<noteq> []")
    case False
    then have "store_pair s k (length ks) v (length vs) = s" "stored (ps @ [(ks, vs)]) = ?es"
      using n by (auto simp: stored_snoc intro!: store_pair_full)
    then show ?thesis using ok by simp
  next
    case True
    obtain m where m: "store_pair s k (length ks) v (length vs) = s\<lparr>mem := m, entry_count := ?n + 1\<rparr>"
      "cstr m (entry_key s ?n) (take 31 ks)" "cstr m (entry_value s ?n) (take 63 vs)" "m (entry_used s ?n) = 1"
      and oth: "\<And>x. x < entry_key s ?n \<or> entry_key s (?n + 1) \<le> x \<Longrightarrow> m x = mem s x"
      using store_pair_mem [OF _ ks(1,2) _ vs(1,2) ks(3) vs(3)] True by blast
    let ?s = "s\<lparr>mem := m, entry_count := ?n + 1\<rparr>"
    have old: "pair_ok (?es ! i) \<and> cstr m (entry_key s i) (fst (?es ! i)) \<and> cstr m (entry_value s i) (snd (?es ! i)) \<and>
      m (entry_used s i) = 1" if i: "i < ?n" for i
    proof -
      have o: "pair_ok (?es ! i)" "cstr (mem s) (entry_key s i) (fst (?es ! i))" "cstr (mem s) (entry_value s i) (snd (?es ! i))"
        "mem s (entry_used s i) = 1" using ok i n by (simp_all add: table_ok_def)
      have "(i + 1) * 97 \<le> ?n * 97" using i by (intro mult_le_mono1) simp
      then have b: "m (entry_key s i + j) = mem s (entry_key s i + j)" if "j < 97" for j
        using that by (intro oth) (simp add: entry_addr)
      have "cstr m (entry_key s i) (fst (?es ! i)) = cstr (mem s) (entry_key s i) (fst (?es ! i))"
        by (rule cstr_cong, rule b) (use o(1) in \<open>simp add: pair_ok_def cmdline_consts\<close>)
      moreover have "m (entry_value s i + j) = mem s (entry_value s i + j)" if "j < 64" for j
        using b [of "32 + j"] that by (simp add: entry_addr add.assoc)
      then have "cstr m (entry_value s i) (snd (?es ! i)) = cstr (mem s) (entry_value s i) (snd (?es ! i))"
        by (intro cstr_cong) (use o(1) in \<open>simp add: pair_ok_def cmdline_consts\<close>)
      moreover have "m (entry_used s i) = mem s (entry_used s i)" using b [of 96] by (simp add: entry_addr add.assoc)
      ultimately show ?thesis using o by simp
    qed
    have new: "stored (ps @ [(ks, vs)]) = ?es @ [clip (ks, vs)]" using True n by (simp add: stored_snoc)
    have "pair_ok (clip (ks, vs))" using True by (auto simp: pair_ok_def clip_def cmdline_consts)
    then have "table_ok ?s (?es @ [clip (ks, vs)])"
      using old m(2-4) n True
      by (auto simp: table_ok_def nth_append less_Suc_eq clip_def CMDLINE_MAX_KEY_def CMDLINE_MAX_VALUE_def)
    moreover have "same_layout s ?s"
    proof -
      have "(?n + 1) * 97 \<le> 32 * 97" using True by (intro mult_le_mono1) (simp add: cmdline_consts)
      then show ?thesis by (auto simp: same_layout_def in_table_def entry_addr intro!: oth)
    qed
    ultimately show ?thesis by (simp add: m(1) new)
  qed
  then show "table_ok (store_pair s k (length ks) v (length vs)) (stored (ps @ [(ks, vs)]))"
    "same_layout s (store_pair s k (length ks) v (length vs))" by simp_all
qed

section \<open>Parsing\<close>

lemma cstr_append: "cstr m p (xs @ ys) \<longleftrightarrow> bytes_at m p xs \<and> 0 \<notin> set xs \<and> cstr m (p + length xs) ys"
  by (induction xs arbitrary: p) (auto simp: bytes_at_def All_less_Suc2)

lemma cstr_while:
  assumes "cstr m p xs"
  shows "bytes_at m p (takeWhile P xs)" "0 \<notin> set (takeWhile P xs)" "cstr m (p + length (takeWhile P xs)) (dropWhile P xs)"
  using assms cstr_append [of m p "takeWhile P xs" "dropWhile P xs"] by simp_all

lemma scan_result: "cstr m p xs \<Longrightarrow> \<not> P 0 \<Longrightarrow> scan P m p = Some (p + length (takeWhile P xs))"
  by (induction xs arbitrary: p) (subst scan.simps; simp)+

text \<open>Where the code looks for the end of the key and of the value, the word ends.\<close>

lemma word_end:
  assumes "0 \<notin> set l"
  shows "dropWhile key_char l = 61 # zs \<Longrightarrow> takeWhile (\<lambda>c. \<not> is_space c) l = takeWhile key_char l @ 61 # takeWhile value_char zs \<and>
      dropWhile (\<lambda>c. \<not> is_space c) l = dropWhile value_char zs"
    "\<forall>zs. dropWhile key_char l \<noteq> 61 # zs \<Longrightarrow> takeWhile (\<lambda>c. \<not> is_space c) l = takeWhile key_char l \<and>
      dropWhile (\<lambda>c. \<not> is_space c) l = dropWhile key_char l"
proof -
  have v: "takeWhile value_char zs = takeWhile (\<lambda>c. \<not> is_space c) zs \<and> dropWhile value_char zs = dropWhile (\<lambda>c. \<not> is_space c) zs"
    if "0 \<notin> set zs" for zs
    using that by (induction zs) (auto simp: value_char_def)
  show "takeWhile (\<lambda>c. \<not> is_space c) l = takeWhile key_char l @ 61 # takeWhile value_char zs \<and>
      dropWhile (\<lambda>c. \<not> is_space c) l = dropWhile value_char zs" if "dropWhile key_char l = 61 # zs"
    using assms that by (induction l) (auto simp: key_char_def v is_space_def split: if_splits)
  show "takeWhile (\<lambda>c. \<not> is_space c) l = takeWhile key_char l \<and> dropWhile (\<lambda>c. \<not> is_space c) l = dropWhile key_char l"
    if "\<forall>zs. dropWhile key_char l \<noteq> 61 # zs"
    using assms that by (induction l) (auto simp: key_char_def split: if_splits)
qed

lemma no_eq: "61 \<notin> set (takeWhile key_char l)"
  by (auto dest: set_takeWhileD simp: key_char_def)

lemma pair_of_simps:
  "61 \<notin> set k \<Longrightarrow> pair_of (k @ 61 # v) = (k, v)" "61 \<notin> set k \<Longrightarrow> pair_of k = (k, [49])"
proof -
  assume k: "61 \<notin> set k"
  then have "takeWhile (\<lambda>c. c \<noteq> 61) k = k" "dropWhile (\<lambda>c. c \<noteq> 61) k = []" by (auto simp: takeWhile_eq_all_conv)
  then show "pair_of (k @ 61 # v) = (k, v)" "pair_of k = (k, [49])"
    using k takeWhile_append2 [of k "\<lambda>c. c \<noteq> 61" "61 # v"] dropWhile_append2 [of k "\<lambda>c. c \<noteq> 61" "61 # v"]
    by (auto simp: pair_of_def)
qed

text \<open>The statics do not overlap, and the literal is what the source says.\<close>

definition layout_ok :: "cmdline_state \<Rightarrow> bool" where
  "layout_ok s \<longleftrightarrow> (\<forall>i<CMDLINE_BUF_SIZE. \<not> in_table s (raw s + i)) \<and> mem s (one s) = 49 \<and> \<not> in_table s (one s) \<and>
     \<not> (raw s \<le> one s \<and> one s < raw s + CMDLINE_BUF_SIZE)"

lemma layout_keep: "same_layout s s' \<Longrightarrow> layout_ok s \<Longrightarrow> layout_ok s'"
  using in_table_cong [of s s'] by (simp add: layout_ok_def) (simp add: same_layout_def)

text \<open>One round of the loop stores the pair of the first word and stops behind that word.\<close>

lemma parse_word:
  assumes l: "cstr (mem s) key l" "l \<noteq> []" and ok: "table_ok s (stored ps)" and one: "layout_ok s"
    and raw: "\<And>i. i \<le> length l \<Longrightarrow> \<not> in_table s (key + i)" and p: "mem s p \<noteq> 0" "scan is_space (mem s) p = Some key"
  obtains u q where "parse_loop s p = parse_loop u q" "table_ok u (stored (ps @ [pair_of (takeWhile (\<lambda>c. \<not> is_space c) l)]))"
    "same_layout s u" "cstr (mem s) q (dropWhile (\<lambda>c. \<not> is_space c) l)" "key \<le> q"
    "q + length (dropWhile (\<lambda>c. \<not> is_space c) l) = key + length l"
proof -
  let ?k = "takeWhile key_char l" and ?r = "dropWhile key_char l"
  let ?e = "key + length ?k"
  have zl: "0 \<notin> set l" using l(1) by (simp add: cstr_def)
  have lk: "mem s key \<noteq> 0" using l by (cases l) auto
  have kk: "scan key_char (mem s) key = Some ?e" using scan_result [OF l(1), of key_char] by (simp add: key_char_def)
  note kb = cstr_while [OF l(1), of key_char]
  have lenl: "length ?k + length ?r = length l" by (metis length_append takeWhile_dropWhile_id)
  show thesis
  proof (cases "\<exists>zs. ?r = 61 # zs")
    case True
    then obtain zs where zs: "?r = 61 # zs" by blast
    note we = word_end(1) [OF zl zs]
    let ?v = "takeWhile value_char zs"
    have c: "mem s ?e = 61" "cstr (mem s) (?e + 1) zs" using kb(3) zs by simp_all
    let ?q = "?e + 1 + length ?v"
    have v: "scan value_char (mem s) (?e + 1) = Some ?q" using scan_result [OF c(2), of value_char] by (simp add: value_char_def)
    note vb = cstr_while [OF c(2), of value_char]
    have lz: "length ?v + length (dropWhile value_char zs) = length zs" by (metis length_append takeWhile_dropWhile_id)
    let ?u = "store_pair s key (length ?k) (?e + 1) (length ?v)"
    have lp: "parse_loop s p = parse_loop ?u ?q" using p lk kk c(1) v by (subst parse_loop.simps) simp
    have "table_ok ?u (stored (ps @ [(?k, ?v)]))" "same_layout s ?u"
      by (rule store_pair_ok [OF ok kb(1,2) _ vb(1,2)]; use raw [of "length ?k + 1 + i" for i] raw lenl lz zs in \<open>fastforce simp: add.assoc\<close>)+
    then show thesis by (intro that [OF lp]) (use we vb(3) lz lenl zs pair_of_simps(1) [OF no_eq] in simp_all)
  next
    case False
    then have nz: "\<forall>zs. ?r \<noteq> 61 # zs" by blast
    note we = word_end(2) [OF zl nz]
    have c: "mem s ?e \<noteq> 61" using kb(3) nz by (cases ?r) auto
    let ?u = "store_pair s key (length ?k) (one s) (length [49 :: u8])"
    have lp: "parse_loop s p = parse_loop ?u ?e" using p lk kk c by (subst parse_loop.simps) simp
    have "table_ok ?u (stored (ps @ [(?k, [49])]))" "same_layout s ?u"
      by (rule store_pair_ok [OF ok kb(1,2)]; use raw lenl one in \<open>force simp: layout_ok_def bytes_at_def\<close>)+
    then show thesis by (intro that [OF lp]) (use we kb(3) lenl pair_of_simps(2) [OF no_eq] in simp_all)
  qed
qed

lemma parse_loop_result:
  assumes "cstr (mem s) p xs" "raw s \<le> p" "p + length xs < raw s + CMDLINE_BUF_SIZE" "layout_ok s" "table_ok s (stored ps)"
  shows "\<exists>s'. parse_loop s p = Some s' \<and> table_ok s' (stored (ps @ map pair_of (split_words xs))) \<and> same_layout s s'"
  using assms
proof (induction xs arbitrary: s p ps rule: split_words.induct)
  case (1 xs)
  let ?key = "p + length (takeWhile is_space xs)"
  have k: "scan is_space (mem s) p = Some ?key" "cstr (mem s) ?key (dropWhile is_space xs)"
    using scan_result [OF 1(2), of is_space] cstr_while [OF 1(2), of is_space] by (simp_all add: is_space_def)
  have len: "length (takeWhile is_space xs) + length (dropWhile is_space xs) = length xs"
    by (metis length_append takeWhile_dropWhile_id)
  show ?case
  proof (cases "dropWhile is_space xs")
    case Nil
    have "mem s ?key = 0" using k(2) unfolding Nil by simp
    then have "parse_loop s p = Some s" using k(1) by (subst parse_loop.simps) simp
    moreover have "split_words xs = []" unfolding split_words.simps [of xs] Nil by simp
    ultimately show ?thesis using 1(6) by simp
  next
    case (Cons y ys)
    define l where "l = y # ys"
    let ?w = "takeWhile (\<lambda>c. \<not> is_space c) l" and ?d = "dropWhile (\<lambda>c. \<not> is_space c) l"
    have "\<not> is_space y" using Cons by (metis hd_dropWhile list.distinct(1) list.sel(1))
    then have dl: "?d = dropWhile (\<lambda>c. \<not> is_space c) ys" by (simp add: l_def)
    have w: "split_words xs = ?w # split_words ?d" unfolding split_words.simps [of xs] Cons dl by (simp add: l_def)
    have ne: "mem s p \<noteq> 0" using 1(2) Cons by (cases xs) auto
    have raw: "\<not> in_table s (?key + i)" if "i \<le> length l" for i
    proof -
      have "?key + i = raw s + (?key + i - raw s)" "?key + i - raw s < CMDLINE_BUF_SIZE" using 1(3,4) len that Cons by (auto simp: l_def)
      then show ?thesis using 1(5) unfolding layout_ok_def by metis
    qed
    have l: "cstr (mem s) ?key l" "l \<noteq> []" using k(2) Cons by (simp_all add: l_def)
    obtain u q where u: "parse_loop s p = parse_loop u q" "table_ok u (stored (ps @ [pair_of ?w]))" "same_layout s u"
      and q: "cstr (mem s) q ?d" "?key \<le> q" "q + length ?d = ?key + length l"
      by (rule parse_word [OF l 1(6,5) raw ne k(1)])
    have "cstr (mem u) q ?d = cstr (mem s) q ?d"
    proof (rule cstr_cong)
      fix i assume "i \<le> length ?d"
      then have "\<not> in_table s (?key + (q - ?key + i))" by (intro raw) (use q in simp)
      then show "mem u (q + i) = mem s (q + i)" using u(3) q(2) by (simp add: same_layout_def add.assoc)
    qed
    then have a: "cstr (mem u) q (dropWhile (\<lambda>c. \<not> is_space c) ys)" using q(1) dl by simp
    have "raw u = raw s" using u(3) by (simp add: same_layout_def)
    then have b: "raw u \<le> q" "q + length (dropWhile (\<lambda>c. \<not> is_space c) ys) < raw u + CMDLINE_BUF_SIZE"
      using 1(3,4) q(2,3) len Cons dl by (auto simp: l_def)
    obtain s' where "parse_loop u q = Some s'" "same_layout u s'" "table_ok s' (stored ((ps @ [pair_of ?w]) @ map pair_of (split_words ?d)))"
      using 1(1) [OF Cons a b layout_keep [OF u(3) 1(5)] u(2)] dl by auto
    then show ?thesis using same_layout_trans [OF u(3)] unfolding w u(1) by auto
  qed
qed

lemma strnlen_loop_text: "i \<le> k \<Longrightarrow> strnlen_loop m s k i = i + length (takeWhile (\<lambda>c. c \<noteq> 0) (map (\<lambda>i. m (s + i)) [i..<k]))"
proof (induction m s k i rule: strnlen_loop.induct)
  case (1 m s k i)
  then show ?case by (subst strnlen_loop.simps) (cases "i < k"; auto simp: upt_conv_Cons)
qed

lemma text_at_facts:
  "strnlen m s (CMDLINE_BUF_SIZE - 1) = length (text_at m s)" "bytes_at m s (text_at m s)" "0 \<notin> set (text_at m s)"
  "length (text_at m s) < CMDLINE_BUF_SIZE"
proof -
  show "strnlen m s (CMDLINE_BUF_SIZE - 1) = length (text_at m s)" by (simp add: strnlen_def text_at_def strnlen_loop_text)
  have "length (text_at m s) \<le> CMDLINE_BUF_SIZE - 1" unfolding text_at_def by (rule order_trans [OF length_takeWhile_le]) simp
  then show l: "length (text_at m s) < CMDLINE_BUF_SIZE" by (simp add: cmdline_consts)
  show "bytes_at m s (text_at m s)"
    using l unfolding bytes_at_def text_at_def by (auto simp: takeWhile_nth)
  show "0 \<notin> set (text_at m s)" by (auto simp: text_at_def dest: set_takeWhileD)
qed

lemma text_at_cong: "(\<And>i. i < CMDLINE_BUF_SIZE \<Longrightarrow> m' (s + i) = m (s + i)) \<Longrightarrow> text_at m' s = text_at m s"
  by (auto simp: text_at_def intro!: arg_cong [of _ _ "takeWhile _"] map_cong)

lemma text_at_cstr:
  assumes "cstr m s xs" "length xs < CMDLINE_BUF_SIZE"
  shows "text_at m s = xs"
proof -
  let ?t = "text_at m s"
  have n: "length ?t = length xs" using strnlen_result [OF assms(1), of "CMDLINE_BUF_SIZE - 1"] assms(2) text_at_facts(1) [of m s] by simp
  then show ?thesis using text_at_facts(2) [of m s] assms(1) by (intro nth_equalityI) (auto simp: bytes_at_def cstr_def)
qed

text \<open>No byte of the caller's string is in the statics.\<close>

definition outside :: "cmdline_state \<Rightarrow> ptr \<Rightarrow> bool" where
  "outside st x \<longleftrightarrow> \<not> in_table st x \<and> \<not> (raw st \<le> x \<and> x < raw st + CMDLINE_BUF_SIZE)"

definition entries_of :: "u8 list \<Rightarrow> (u8 list \<times> u8 list) list" where
  "entries_of xs = stored (map pair_of (split_words xs))"

lemma parse_result:
  assumes lay: "layout_ok st" and s: "s \<noteq> 0 \<longrightarrow> (\<forall>i<CMDLINE_BUF_SIZE. outside st (s + i))"
  obtains st' where "cmdline_parse st s = Some st'" "table_ok st' (entries_of (if s = 0 then [] else text_at (mem st) s))"
    "\<forall>x. outside st x \<longrightarrow> mem st' x = mem st x"
proof -
  define m0 where "m0 = memset (mem st) (tbl st) 0 (CMDLINE_MAX_ENTRIES * sizeof_entry)"
  have m0: "m0 x = (if in_table st x then 0 else mem st x)" for x by (simp add: m0_def memset_result in_table_def)
  have empty: "table_ok (st\<lparr>entry_count := 0, mem := m\<rparr>) (stored [])" for m by (simp add: table_ok_def stored_def)
  show thesis
  proof (cases "s = 0")
    case True
    let ?u = "st\<lparr>entry_count := 0, mem := m0(raw st := 0)\<rparr>"
    have "cmdline_parse st s = Some ?u" using True by (simp add: cmdline_parse_def Let_def m0_def)
    moreover have "split_words [] = []" by (simp add: split_words.simps)
    ultimately show thesis using that True empty m0 by (auto simp: entries_of_def outside_def cmdline_consts)
  next
    case False
    let ?t = "text_at (mem st) s"
    have t: "text_at m0 s = ?t" by (rule text_at_cong) (use s False in \<open>simp add: m0 outside_def\<close>)
    define m1 where "m1 = (memcpy m0 (raw st) s (length ?t))(raw st + length ?t := 0)"
    let ?u = "st\<lparr>entry_count := 0, mem := m1\<rparr>"
    have p: "cmdline_parse st s = parse_loop ?u (raw st)"
      using False text_at_facts(1) [of m0 s] by (simp add: cmdline_parse_def Let_def m0_def [symmetric] t m1_def)
    note tf = text_at_facts(2-4) [of m0 s, unfolded t]
    have "s + i < raw st \<or> raw st + CMDLINE_BUF_SIZE \<le> s + i" if "i < length ?t" for i
      using s False that tf(3) by (auto simp: outside_def not_le not_less)
    then have ap: "s + length ?t \<le> raw st \<or> raw st + length ?t \<le> s"
      by (rule apart [of _ _ "raw st" CMDLINE_BUF_SIZE]) (use tf(3) in simp_all)
    have m1: "m1 x = (if x = raw st + length ?t then 0 else if raw st \<le> x \<and> x < raw st + length ?t then m0 (s + (x - raw st)) else m0 x)" for x
      by (simp add: m1_def memcpy_apart [OF ap])
    have c: "cstr m1 (raw st) ?t" using tf(1,2) by (auto simp: cstr_def m1 bytes_at_def)
    have inT: "in_table ?u = in_table st" by (simp add: in_table_def fun_eq_iff)
    have "layout_ok ?u" using lay tf(3) unfolding layout_ok_def inT by (auto simp: m1 m0)
    then obtain st' where st': "parse_loop ?u (raw st) = Some st'" "table_ok st' (stored ([] @ map pair_of (split_words ?t)))" "same_layout ?u st'"
      using parse_loop_result [of ?u "raw st" ?t "[]"] c empty tf(3) by auto
    then have "\<forall>x. outside st x \<longrightarrow> mem st' x = mem st x"
      using tf(3) by (auto simp: same_layout_def inT outside_def m1 m0)
    then show thesis using that st'(1,2) p False by (simp add: entries_of_def)
  qed
qed

section \<open>Looking up\<close>

lemma get_from_result:
  assumes "table_ok s es" "cstr (mem s) key k" "i \<le> length es"
  shows "\<exists>r. get_from s key i = Some r \<and> (case map_of (drop i es) k of None \<Rightarrow> r = 0 | Some v \<Rightarrow> r \<noteq> 0 \<and> cstr (mem s) r v)"
  using assms(3)
proof (induction i rule: inc_induct)
  case base
  then show ?case using assms(1) by (subst get_from.simps) (simp add: table_ok_def)
next
  case (step i)
  have e: "cstr (mem s) (entry_key s i) (fst (es ! i))" "cstr (mem s) (entry_value s i) (snd (es ! i))" "mem s (entry_used s i) = 1"
    "i < entry_count s" using assms(1) step(1,2) by (simp_all add: table_ok_def)
  have z: "0 \<notin> set (fst (es ! i))" "0 \<notin> set k" using e(1) assms(2) by (simp_all add: cstr_def)
  have d: "drop i es = es ! i # drop (Suc i) es" using step(2) by (simp add: Cons_nth_drop_Suc)
  have m: "map_of (drop i es) k = (if fst (es ! i) = k then Some (snd (es ! i)) else map_of (drop (Suc i) es) k)"
    unfolding d by (cases "es ! i") auto
  have nz: "entry_value s i \<noteq> 0" by (simp add: entry_value_def cmdline_consts)
  show ?case
  proof (cases "fst (es ! i) = k")
    case True
    then have "get_from s key i = Some (entry_value s i)"
      using e strcmp_result [OF e(1) assms(2)] str_diff_zero [OF z] by (subst get_from.simps) simp
    then show ?thesis using True m e(2) nz by auto
  next
    case False
    then have "get_from s key i = get_from s key (Suc i)"
      using e strcmp_result [OF e(1) assms(2)] str_diff_zero [OF z] by (subst get_from.simps) simp
    then show ?thesis using False m step.IH by auto
  qed
qed

lemma cstr_zero: "cstr m r v \<Longrightarrow> m r = 48 \<and> m (r + 1) = 0 \<longleftrightarrow> v = [48]"
  by (cases v; cases "tl v") auto

lemma get_result:
  assumes "table_ok s es" "cstr (mem s) key k"
  shows "\<exists>r. cmdline_get s key = Some r \<and> (case map_of es k of None \<Rightarrow> r = 0 | Some v \<Rightarrow> r \<noteq> 0 \<and> cstr (mem s) r v)"
    "cmdline_bool s key = Some (case map_of es k of None \<Rightarrow> False | Some v \<Rightarrow> v \<noteq> [48])"
proof -
  show g: "\<exists>r. cmdline_get s key = Some r \<and> (case map_of es k of None \<Rightarrow> r = 0 | Some v \<Rightarrow> r \<noteq> 0 \<and> cstr (mem s) r v)"
    using get_from_result [OF assms, of 0] by (simp add: cmdline_get_def)
  then show "cmdline_bool s key = Some (case map_of es k of None \<Rightarrow> False | Some v \<Rightarrow> v \<noteq> [48])"
    using cstr_zero by (cases "map_of es k") (auto simp: cmdline_bool_def)
qed

section \<open>Properties\<close>

text \<open>
  C20. \<^verbatim>\<open>cmdline_parse\<close> returns on arbitrary bytes, and looking up after it is looking up in the specified
  list: the text is cut at 1023 bytes and split at blanks and tabs; a word is a key up to the first
  equals sign and a value after it, or a key with the value \<open>1\<close>; words with an empty key are passed
  over and only 32 pairs kept, cut to 31 and 63 bytes. For a key \<^verbatim>\<open>cmdline_get\<close> gives the value of its
  first pair, or null, and \<^verbatim>\<open>cmdline_bool\<close> says whether there is a pair whose value is not \<open>0\<close>.
\<close>

theorem cmdline_lookup:
  assumes "layout_ok st" "s \<noteq> 0" "\<forall>i<CMDLINE_BUF_SIZE. outside st (s + i)"
  shows "\<exists>st'. cmdline_parse st s = Some st' \<and>
    (\<forall>key k. cstr (mem st') key k \<longrightarrow>
       (\<exists>r. cmdline_get st' key = Some r \<and>
          (case map_of (entries_of (text_at (mem st) s)) k of None \<Rightarrow> r = 0 | Some v \<Rightarrow> r \<noteq> 0 \<and> cstr (mem st') r v)) \<and>
       cmdline_bool st' key = Some (case map_of (entries_of (text_at (mem st) s)) k of None \<Rightarrow> False | Some v \<Rightarrow> v \<noteq> [48])) \<and>
    (\<forall>x. outside st x \<longrightarrow> mem st' x = mem st x)"
proof -
  obtain st' where st': "cmdline_parse st s = Some st'" "table_ok st' (entries_of (if s = 0 then [] else text_at (mem st) s))"
    "\<forall>x. outside st x \<longrightarrow> mem st' x = mem st x" by (rule parse_result [OF assms(1) impI [OF assms(3)]])
  have "table_ok st' (entries_of (text_at (mem st) s))" using st'(2) assms(2) by simp
  note g = get_result [OF this]
  show ?thesis using st'(1,3) g by (intro exI [of _ st']) blast
qed

text \<open>The text \<open>a=0 b\<close> at 100, the keys \<open>a\<close> at 2000 and \<open>b\<close> at 2010, and the literal \<open>1\<close> at 5.\<close>

definition cmdline_sample :: cmdline_state where
  "cmdline_sample = \<lparr>mem = (\<lambda>_. 0)(5 := 49, 100 := 97, 101 := 61, 102 := 48, 103 := 32, 104 := 98, 2000 := 97, 2010 := 98),
     raw = 10000, tbl = 20000, one = 5, entry_count = 7\<rparr>"

lemma cmdline_sample_facts:
  "layout_ok cmdline_sample" "\<forall>i<CMDLINE_BUF_SIZE. outside cmdline_sample (100 + i)"
  "outside cmdline_sample x \<longleftrightarrow> x < 10000 \<or> 11024 \<le> x \<and> x < 20000 \<or> 23104 \<le> x"
  "text_at (mem cmdline_sample) 100 = [97, 61, 48, 32, 98]"
  "entries_of [97, 61, 48, 32, 98] = [([97], [48]), ([98], [49])]"
proof -
  show "layout_ok cmdline_sample" "\<forall>i<CMDLINE_BUF_SIZE. outside cmdline_sample (100 + i)"
    "outside cmdline_sample x \<longleftrightarrow> x < 10000 \<or> 11024 \<le> x \<and> x < 20000 \<or> 23104 \<le> x"
    by (auto simp: layout_ok_def cmdline_sample_def in_table_def outside_def entry_size cmdline_consts)
  show "text_at (mem cmdline_sample) 100 = [97, 61, 48, 32, 98]"
    by (rule text_at_cstr) (simp_all add: cmdline_sample_def cmdline_consts)
  show "entries_of [97, 61, 48, 32, 98] = [([97], [48]), ([98], [49])]"
    by (simp add: entries_of_def split_words.simps is_space_def pair_of_def stored_def clip_def cmdline_consts)
qed

theorem cmdline_lookup_witness:
  "\<exists>st'. cmdline_parse cmdline_sample 100 = Some st' \<and> cmdline_bool st' 2000 = Some False \<and> cmdline_bool st' 2010 = Some True"
proof -
  obtain st' where p: "cmdline_parse cmdline_sample 100 = Some st'"
    and g: "\<forall>key k. cstr (mem st') key k \<longrightarrow>
      cmdline_bool st' key = Some (case map_of [([97], [48]), ([98], [49])] k of None \<Rightarrow> False | Some v \<Rightarrow> v \<noteq> [48 :: u8])"
    and m: "\<forall>x. outside cmdline_sample x \<longrightarrow> mem st' x = mem cmdline_sample x"
    using cmdline_lookup [of cmdline_sample 100] cmdline_sample_facts by auto
  have "cstr (mem st') 2000 [97]" "cstr (mem st') 2010 [98]" using m by (simp_all add: cmdline_sample_facts(3)) (simp_all add: cmdline_sample_def)
  note this [THEN g [rule_format]]
  then show ?thesis using p by simp
qed

text \<open>
  C26. The table is always well-formed. Whatever the pointer passed in (null included) and whatever
  bytes are there, the parser returns with at most 32 entries, each marked used, with a key and a
  value that end inside their arrays and a key that is not empty, and it writes to no byte outside
  its own statics.
\<close>

theorem cmdline_table_valid:
  assumes "layout_ok st" "s \<noteq> 0 \<longrightarrow> (\<forall>i<CMDLINE_BUF_SIZE. outside st (s + i))"
  shows "\<exists>st'. cmdline_parse st s = Some st' \<and> entry_count st' \<le> CMDLINE_MAX_ENTRIES \<and>
    (\<forall>i<entry_count st'. mem st' (entry_used st' i) = 1 \<and>
       (\<exists>k v. cstr (mem st') (entry_key st' i) k \<and> k \<noteq> [] \<and> length k < CMDLINE_MAX_KEY \<and>
          cstr (mem st') (entry_value st' i) v \<and> length v < CMDLINE_MAX_VALUE)) \<and>
    (\<forall>x. outside st x \<longrightarrow> mem st' x = mem st x)"
proof -
  obtain st' where st': "cmdline_parse st s = Some st'" "table_ok st' (entries_of (if s = 0 then [] else text_at (mem st) s))"
    "\<forall>x. outside st x \<longrightarrow> mem st' x = mem st x" by (rule parse_result [OF assms])
  then obtain es where "table_ok st' es" by blast
  then have n: "entry_count st' \<le> CMDLINE_MAX_ENTRIES" and e: "\<forall>i<entry_count st'. mem st' (entry_used st' i) = 1 \<and>
       (\<exists>k v. cstr (mem st') (entry_key st' i) k \<and> k \<noteq> [] \<and> length k < CMDLINE_MAX_KEY \<and>
          cstr (mem st') (entry_value st' i) v \<and> length v < CMDLINE_MAX_VALUE)"
    by (simp add: table_ok_def) (use \<open>table_ok st' es\<close> in \<open>fastforce simp: table_ok_def pair_ok_def\<close>)
  then show ?thesis using st'(1,3) by blast
qed

theorem cmdline_table_valid_witness:
  "\<exists>st'. cmdline_parse cmdline_sample 100 = Some st' \<and> entry_count st' \<le> 32 \<and> (\<exists>st0. cmdline_parse cmdline_sample 0 = Some st0)"
  using cmdline_table_valid [of cmdline_sample 100] cmdline_table_valid [of cmdline_sample 0] cmdline_sample_facts
  by (auto simp: CMDLINE_MAX_ENTRIES_def)

end
