(* ===== verification/Process.thy ===== *)
theory Process
  imports Sched_Run
begin

text \<open>
  The process tree, \<^verbatim>\<open>kernel/user/process.c\<close>: exit with the reparenting of children to init, the wait
  that collects a zombie, and the reaping of its tasks, kernel stacks and object. Everything under
  \<^verbatim>\<open>process_tree_lock\<close> is one step. \<^verbatim>\<open>process_wait\<close> is cut where it leaves the lock to sleep and where it
  resumes. What \<^verbatim>\<open>vfs_close\<close> does to the file-system layer is the argument \<open>vc\<close>, and what
  \<^verbatim>\<open>vmm_destroy_space\<close> does to the heap is the argument \<open>ds\<close>.
\<close>

section \<open>The code\<close>

definition process_set_init :: "'v sched_state \<Rightarrow> ptr \<Rightarrow> 'v sched_state" where
  "process_set_init s proc = s\<lparr>init_proc := proc\<rparr>"

definition process_get_init :: "'v sched_state \<Rightarrow> ptr" where
  "process_get_init s = init_proc s"

text \<open>The walk to the end of the child list: the last child, and whether a zombie was passed.\<close>

partial_function (option) reparent_loop :: "'v sched_state \<Rightarrow> ptr \<Rightarrow> ptr \<Rightarrow> bool \<Rightarrow> (ptr \<times> bool \<times> 'v sched_state) option" where
  "reparent_loop s lst init wake =
     (if p_next_sibling s lst \<noteq> NULL then
        let lst = p_next_sibling s lst;
            s = s\<lparr>p_parent := (p_parent s)(lst := init)\<rparr>
        in reparent_loop s lst init (if p_state s lst = PROCESS_ZOMBIE then True else wake)
      else Some (lst, wake, s))"

definition reparent_children :: "'v sched_state \<Rightarrow> ptr \<Rightarrow> ptr \<Rightarrow> (bool \<times> 'v sched_state) option" where
  "reparent_children s proc init =
     (if proc = init then if p_first_child s proc \<noteq> NULL then None else Some (False, s)
      else if p_first_child s proc \<noteq> NULL then do {
        let head = p_first_child s proc;
        let s = s\<lparr>p_parent := (p_parent s)(head := init)\<rparr>;
        (lst, wake, s) \<leftarrow> reparent_loop s head init (p_state s head = PROCESS_ZOMBIE);
        Some (wake,
          if init \<noteq> NULL
          then s\<lparr>p_next_sibling := (p_next_sibling s)(lst := p_first_child s init), p_first_child := (p_first_child s)(init := head)\<rparr>
          else s)
      }
      else Some (False, s))"

definition process_exit_current :: "(ptr \<Rightarrow> 'v \<Rightarrow> 'v) \<Rightarrow> 'v sched_state \<Rightarrow> int \<Rightarrow> 'v sched_state option" where
  "process_exit_current vc s status =
     (let task = current s;
          proc = (if task \<noteq> NULL then t_process s task else NULL);
          init = init_proc s in
      if proc = NULL then Some s
      else do {
        s \<leftarrow> fd_drain vc s proc [0..<JNU_MAX_FDS];
        (wake_init, s) \<leftarrow> reparent_children s proc init;
        let s = s\<lparr>p_first_child := (p_first_child s)(proc := NULL), p_exit_status := (p_exit_status s)(proc := status AND 0xFF),
                  p_state := (p_state s)(proc := PROCESS_ZOMBIE)\<rparr>;
        let s = (if p_parent s proc \<noteq> NULL \<and> p_main_task s (p_parent s proc) \<noteq> NULL
                 then sched_wake s (p_main_task s (p_parent s proc)) else s);
        Some (if wake_init \<and> init \<noteq> NULL \<and> p_main_task s init \<noteq> NULL then sched_wake s (p_main_task s init) else s)
      })"

partial_function (option) find_child_from :: "'v sched_state \<Rightarrow> ptr \<Rightarrow> int \<Rightarrow> ptr option" where
  "find_child_from s child pid =
     (if child = NULL then Some NULL
      else if pid = -1 \<or> p_pid s child = pid then Some child
      else find_child_from s (p_next_sibling s child) pid)"

definition find_child :: "'v sched_state \<Rightarrow> ptr \<Rightarrow> int \<Rightarrow> ptr option" where
  "find_child s parent pid = find_child_from s (p_first_child s parent) pid"

definition unlink_child :: "'v sched_state \<Rightarrow> ptr \<Rightarrow> ptr \<Rightarrow> 'v sched_state option" where
  "unlink_child s parent target =
     do {
       (found, h, N) \<leftarrow> list_unlink (p_next_sibling s) (p_first_child s parent) NULL target;
       Some (if found
             then s\<lparr>p_first_child := (p_first_child s)(parent := h), p_next_sibling := N, p_parent := (p_parent s)(target := NULL)\<rparr>
             else s)
     }"

partial_function (option) reap_tasks :: "'v sched_state \<Rightarrow> ptr \<Rightarrow> 'v sched_state option" where
  "reap_tasks s t =
     (if t = NULL then Some s
      else let next = task_next s t in do { s \<leftarrow> sched_reap_task s t; reap_tasks s next })"

definition process_reap ::
    "(ptr \<Rightarrow> 'v \<Rightarrow> 'v) \<Rightarrow> (kmem_state \<Rightarrow> ptr \<Rightarrow> kmem_state option) \<Rightarrow> 'v sched_state \<Rightarrow> ptr \<Rightarrow> 'v sched_state option" where
  "process_reap vc ds s child =
     (if child = NULL then Some s
      else do {
        s \<leftarrow> fd_drain vc s child [0..<JNU_MAX_FDS];
        s \<leftarrow> (if p_space s child \<noteq> NULL \<and> p_space s child \<noteq> kernel_space s
              then do { h \<leftarrow> ds (heap s) (p_space s child); Some (s\<lparr>heap := h\<rparr>) } else Some s);
        s \<leftarrow> reap_tasks s (p_tasks s child);
        let s = s\<lparr>p_tasks := (p_tasks s)(child := NULL), p_main_task := (p_main_task s)(child := NULL)\<rparr>;
        let s = process_release_pid s (p_pid s child);
        kfree_object_at s child
      })"

text \<open>Where a call of \<^verbatim>\<open>process_wait\<close> stands; \<open>Wait_done\<close> holds the result and the status stored, if any.\<close>

datatype wait_pc = Wait_look | Wait_sleep | Wait_blocked | Wait_done int "int option"

definition process_wait_start :: "'v sched_state \<Rightarrow> int \<Rightarrow> wait_pc" where
  "process_wait_start s pid =
     (let parent = (if current s \<noteq> NULL then t_process s (current s) else NULL) in
      if parent = NULL \<or> pid \<noteq> -1 \<and> pid \<le> 0 then Wait_done (- EINVAL) None else Wait_look)"

definition process_wait_look ::
    "(ptr \<Rightarrow> 'v \<Rightarrow> 'v) \<Rightarrow> (kmem_state \<Rightarrow> ptr \<Rightarrow> kmem_state option) \<Rightarrow> 'v sched_state \<Rightarrow> int \<Rightarrow> (wait_pc \<times> 'v sched_state) option" where
  "process_wait_look vc ds s pid =
     (let parent = t_process s (current s) in
      if signal_pending s then Some (Wait_done (- EINTR) None, s)
      else do {
        child \<leftarrow> find_child s parent pid;
        if child = NULL then Some (Wait_done (- ECHILD) None, s)
        else if p_state s child = PROCESS_ZOMBIE then do {
          let child_pid = p_pid s child;
          let status = p_exit_status s child;
          s \<leftarrow> unlink_child s parent child;
          s \<leftarrow> process_reap vc ds s child;
          Some (Wait_done child_pid (Some status), s)
        }
        else Some (Wait_sleep, s)
      })"

text \<open>\<^verbatim>\<open>sched_sleep_interruptible\<close> up to the switch, and after it.\<close>

definition process_wait_sleep :: "'v sched_state \<Rightarrow> u64 \<Rightarrow> (wait_pc \<times> 'v sched_state) option" where
  "process_wait_sleep s now =
     (case sleep_timed_start s 0 now of
        Inl e \<Rightarrow> Some (if e = - EINTR then Wait_done (- EINTR) None else Wait_look, s)
      | Inr deadline \<Rightarrow> do {
          (r, s) \<leftarrow> sleep_timed_block s deadline;
          Some (case r of None \<Rightarrow> Wait_blocked | Some e \<Rightarrow> if e = - EINTR then Wait_done (- EINTR) None else Wait_look, s)
        })"

definition process_wait_resume :: "'v sched_state \<Rightarrow> wait_pc \<times> 'v sched_state" where
  "process_wait_resume s =
     (let (e, s) = sleep_timed_resume s in (if e = - EINTR then Wait_done (- EINTR) None else Wait_look, s))"

definition process_destroy :: "'v sched_state \<Rightarrow> ptr \<Rightarrow> 'v sched_state option" where
  "process_destroy s proc = kfree_object_at s proc"

section \<open>Trees\<close>

text \<open>
  \<open>C\<close> gives the children of every process of \<open>P\<close> in the order of its child list: exactly the
  processes whose parent it is. A parent pointer never leaves the tree.
\<close>

definition tree :: "(ptr \<Rightarrow> ptr) \<Rightarrow> (ptr \<Rightarrow> ptr) \<Rightarrow> (ptr \<Rightarrow> ptr) \<Rightarrow> ptr set \<Rightarrow> (ptr \<Rightarrow> ptr list) \<Rightarrow> bool" where
  "tree N F Q P C \<longleftrightarrow> 0 \<notin> P \<and>
     (\<forall>p\<in>P. sll N (F p) (C p) \<and> set (C p) = {c \<in> P. Q c = p} \<and> (Q p \<in> P \<or> Q p = 0))"

abbreviation tree_inv :: "'v sched_state \<Rightarrow> ptr set \<Rightarrow> (ptr \<Rightarrow> ptr list) \<Rightarrow> bool" where
  "tree_inv s \<equiv> tree (p_next_sibling s) (p_first_child s) (p_parent s)"

lemma treeD:
  assumes "tree N F Q P C" "p \<in> P"
  shows "sll N (F p) (C p)" "set (C p) = {c \<in> P. Q c = p}" "Q p \<in> P \<or> Q p = 0" "p \<noteq> 0"
  using assms by (auto simp: tree_def)

lemma sll_append:
  assumes "sll N h xs" "sll N g ys" "xs \<noteq> []" "set xs \<inter> set ys = {}"
  shows "sll (N(last xs := g)) h (xs @ ys)"
  using assms(1,3,4)
proof (induction xs arbitrary: h)
  case (Cons x xs)
  have d: "x \<notin> set xs" using sll_distinct [OF Cons.prems(1)] by simp
  show ?case
  proof (cases "xs = []")
    case True
    have "sll (N(x := g)) g ys" by (subst sll_upd) (use Cons.prems assms(2) in auto)
    then show ?thesis using True Cons.prems(1) by (simp add: fun_upd_def)
  next
    case False
    then have "last xs \<noteq> x" using d by (metis last_in_set)
    then show ?thesis using Cons False by simp
  qed
qed simp

lemma tree_reparent:
  assumes t: "tree N F Q P C" and p: "p \<in> P" "i \<in> P" "p \<noteq> i" "C p \<noteq> []"
  shows "tree (N(last (C p) := F i)) (F(i := F p, p := 0)) (\<lambda>c. if c \<in> set (C p) then i else Q c) P (C(p := [], i := C p @ C i))"
proof -
  note D = treeD [OF t]
  have l: "last (C p) \<in> set (C p)" using p(4) by simp
  have dis: "set (C p) \<inter> set (C q) = {}" if "q \<in> P" "q \<noteq> p" for q using D(2) [OF p(1)] D(2) [OF that(1)] that(2) by auto
  have i: "sll (N(last (C p) := F i)) (F p) (C p @ C i)"
    by (rule sll_append [OF D(1) [OF p(1)] D(1) [OF p(2)] p(4)]) (use dis p in auto)
  have o: "sll (N(last (C p) := F i)) (F q) (C q)" if "q \<in> P" "q \<noteq> p" for q
    using D(1) [OF that(1)] dis [OF that] l by (subst sll_upd) auto
  have s: "set ((C(p := [], i := C p @ C i)) q) = {c \<in> P. (if c \<in> set (C p) then i else Q c) = q}" if "q \<in> P" for q
    using D(2) [OF p(1)] D(2) [OF p(2)] D(2) [OF that] p by (cases "q = i"; cases "q = p") auto
  show ?thesis
    unfolding tree_def using s i o D(3) p t by (auto simp: tree_def)
qed

lemma tree_cut_empty: "tree N F Q P C \<Longrightarrow> p \<in> P \<Longrightarrow> C p = [] \<Longrightarrow> F(p := 0) = F"
  using treeD(1) [of N F Q P C p] by (simp add: fun_upd_idem_iff)

lemma tree_unlink:
  assumes t: "tree N F Q P C" and p: "p \<in> P" "c \<in> set (C p)" "C c = []"
    and n: "sll N' h (remove1 c (C p))" "\<forall>y. y \<notin> set (C p) \<longrightarrow> N' y = N y"
  shows "tree N' (F(p := h)) (Q(c := 0)) (P - {c}) (C(p := remove1 c (C p)))"
proof -
  note D = treeD [OF t]
  have c: "c \<in> P" "Q c = p" "c \<noteq> p" using D(2) [OF p(1)] p(2,3) by auto
  have r: "set (remove1 c (C p)) = set (C p) - {c}" using sll_distinct [OF D(1) [OF p(1)]] by (simp add: set_remove1_eq)
  have o: "sll N' (F q) (C q)" if "q \<in> P" "q \<noteq> p" for q
  proof -
    have "set (C q) \<inter> set (C p) = {}" using D(2) [OF p(1)] D(2) [OF that(1)] that(2) by auto
    then have "sll N' (F q) (C q) = sll N (F q) (C q)" by (intro sll_frame) (use n(2) in auto)
    then show ?thesis using D(1) [OF that(1)] by simp
  qed
  have s: "set ((C(p := remove1 c (C p))) q) = {x \<in> P - {c}. (Q(c := 0)) x = q}" if "q \<in> P - {c}" for q
    using D(2) [OF p(1)] D(2) [of q] that r c by (cases "q = p") auto
  have q: "(Q(c := 0)) q \<in> P - {c} \<or> (Q(c := 0)) q = 0" if "q \<in> P - {c}" for q
  proof -
    have "Q q \<noteq> c" using D(2) [OF c(1)] p(3) that by auto
    then show ?thesis using D(3) [of q] that by auto
  qed
  show ?thesis unfolding tree_def using s n(1) o q t by (auto simp: tree_def)
qed

section \<open>Exit\<close>

lemma put_frame:
  assumes "file_put vc s f = Some (s' :: 'v sched_state)"
  shows "\<exists>h v r. s' = s\<lparr>heap := h, vfs := v, f_refcount := r\<rparr>"
proof -
  let ?r = "(f_refcount s)(f := f_refcount s f - 1)"
  let ?u = "s\<lparr>f_refcount := ?r\<rparr>"
  consider "f = 0" | "f \<noteq> 0" "0 < sint (?r f)" | "f \<noteq> 0" "\<not> 0 < sint (?r f)" by blast
  then show ?thesis
  proof cases
    case 1
    then have "s' = s\<lparr>heap := heap s, vfs := vfs s, f_refcount := f_refcount s\<rparr>" using assms by (simp add: file_put_def)
    then show ?thesis by blast
  next
    case 2
    then have "s' = s\<lparr>heap := heap s, vfs := vfs s, f_refcount := ?r\<rparr>" using assms by (simp add: file_put_def)
    then show ?thesis by blast
  next
    case 3
    then have d: "file_destroy vc ?u f = Some s'" using assms by (simp add: file_put_def)
    then obtain h where h: "kfree (heap s) f = Some h" using 3(1) by (cases "f_type s f = JNU_FILE_VFS") (auto simp: file_destroy_def split: bind_splits)
    have "s' = s\<lparr>heap := h, vfs := (if f_type s f = JNU_FILE_VFS then vc (f_vfs s f) (vfs s) else vfs s), f_refcount := ?r\<rparr>"
      using d h 3(1) by (cases "f_type s f = JNU_FILE_VFS") (auto simp: file_destroy_def)
    then show ?thesis by blast
  qed
qed

lemma drain_frame:
  "fd_drain vc s t fds = Some (s' :: 'v sched_state) \<Longrightarrow> \<exists>h v r sl. s' = s\<lparr>heap := h, vfs := v, f_refcount := r, slots := sl\<rparr>"
proof (induction fds arbitrary: s)
  case Nil
  then show ?case by (intro exI [of _ "heap s"] exI [of _ "vfs s"] exI [of _ "f_refcount s"] exI [of _ "slots s"]) simp
next
  case (Cons fd fds)
  define f where "f = fst (fd_close s t (int fd))"
  define sl where "sl = slots (snd (fd_close s t (int fd)))"
  have c: "fd_close s t (int fd) = (f, s\<lparr>slots := sl\<rparr>)" by (simp add: f_def sl_def fd_close_def)
  then obtain u where u: "file_put vc (s\<lparr>slots := sl\<rparr>) f = Some u" "fd_drain vc u t fds = Some s'"
    using Cons.prems by (auto split: bind_splits)
  obtain h v r where "u = s\<lparr>slots := sl, heap := h, vfs := v, f_refcount := r\<rparr>" using put_frame [OF u(1)] by blast
  moreover obtain h' v' r' sl' where "s' = u\<lparr>heap := h', vfs := v', f_refcount := r', slots := sl'\<rparr>" using Cons.IH [OF u(2)] by blast
  ultimately have "s' = s\<lparr>heap := h', vfs := v', f_refcount := r', slots := sl'\<rparr>" by simp
  then show ?case by blast
qed

lemma reparent_loop_result:
  "sll (p_next_sibling s) (p_next_sibling s l) xs \<Longrightarrow> reparent_loop s l i w =
    Some (last (l # xs), w \<or> (\<exists>c\<in>set xs. p_state s c = PROCESS_ZOMBIE), s\<lparr>p_parent := (\<lambda>c. if c \<in> set xs then i else p_parent s c)\<rparr>)"
proof (induction xs arbitrary: s l w)
  case Nil
  then show ?case by (subst reparent_loop.simps) simp
next
  case (Cons x xs)
  let ?s = "s\<lparr>p_parent := (p_parent s)(x := i)\<rparr>"
  have x: "p_next_sibling s l = x" "x \<noteq> 0" "sll (p_next_sibling s) (p_next_sibling s x) xs" using Cons.prems by auto
  have "reparent_loop s l i w = reparent_loop ?s x i (if p_state s x = PROCESS_ZOMBIE then True else w)"
    using x by (subst reparent_loop.simps) simp
  also have "\<dots> = Some (last (x # xs), (if p_state s x = PROCESS_ZOMBIE then True else w) \<or> (\<exists>c\<in>set xs. p_state s c = PROCESS_ZOMBIE),
      ?s\<lparr>p_parent := (\<lambda>c. if c \<in> set xs then i else p_parent ?s c)\<rparr>)"
    using Cons.IH [of ?s x] x(3) by simp
  also have "?s\<lparr>p_parent := (\<lambda>c. if c \<in> set xs then i else p_parent ?s c)\<rparr> =
      s\<lparr>p_parent := (\<lambda>c. if c \<in> set (x # xs) then i else p_parent s c)\<rparr>"
    by (simp, rule arg_cong [of _ _ "\<lambda>f. p_parent_update f s"]) (auto simp: fun_eq_iff)
  finally show ?case by auto
qed

lemma reparent_result:
  assumes t: "tree_inv s P C" and p: "p \<in> P" "i \<in> P" "p \<noteq> i"
  obtains N F Q where "reparent_children s p i = Some (\<exists>c\<in>set (C p). p_state s c = PROCESS_ZOMBIE,
      s\<lparr>p_next_sibling := N, p_first_child := F, p_parent := Q\<rparr>)"
    "tree N (F(p := 0)) Q P (C(p := [], i := C p @ C i))"
proof (cases "C p = []")
  case True
  have "p_first_child s p = 0" using treeD(1) [OF t p(1)] True by simp
  then have "reparent_children s p i = Some (\<exists>c\<in>set (C p). p_state s c = PROCESS_ZOMBIE,
      s\<lparr>p_next_sibling := p_next_sibling s, p_first_child := p_first_child s, p_parent := p_parent s\<rparr>)"
    using True p(3) by (simp add: reparent_children_def)
  moreover have "tree (p_next_sibling s) ((p_first_child s)(p := 0)) (p_parent s) P (C(p := [], i := C p @ C i))"
  proof -
    have "C(p := [], i := C p @ C i) = C" using True p(3) by (auto simp: fun_eq_iff)
    then show ?thesis using t tree_cut_empty [OF t p(1) True] by simp
  qed
  ultimately show ?thesis by (rule that)
next
  case False
  then obtain c cs where C: "C p = c # cs" by (cases "C p") auto
  have l: "sll (p_next_sibling s) (p_first_child s p) (c # cs)" using treeD(1) [OF t p(1)] C by simp
  have nz: "i \<noteq> 0" "p_first_child s p = c" "c \<noteq> 0" using treeD(4) [OF t p(2)] l by auto
  let ?s = "s\<lparr>p_parent := (p_parent s)(c := i)\<rparr>"
  let ?Q = "\<lambda>x. if x \<in> set (C p) then i else p_parent s x"
  have Q: "(\<lambda>x. if x \<in> set cs then i else p_parent ?s x) = ?Q" by (auto simp: C fun_eq_iff)
  have "reparent_loop ?s c i (p_state s c = PROCESS_ZOMBIE) =
      Some (last (c # cs), \<exists>x\<in>set (C p). p_state s x = PROCESS_ZOMBIE, s\<lparr>p_parent := ?Q\<rparr>)"
    using reparent_loop_result [of ?s c cs i] l Q C by simp
  then have "reparent_children s p i = Some (\<exists>x\<in>set (C p). p_state s x = PROCESS_ZOMBIE,
      s\<lparr>p_next_sibling := (p_next_sibling s)(last (C p) := p_first_child s i),
        p_first_child := (p_first_child s)(i := p_first_child s p), p_parent := ?Q\<rparr>)"
    using nz p(3) C by (simp add: reparent_children_def)
  then show ?thesis by (rule that) (rule tree_reparent [OF t p False])
qed

text \<open>What the processes see of a wake-up.\<close>

lemma requeued_process:
  assumes "requeued s s'"
  shows "p_state s' = p_state s" "p_parent s' = p_parent s" "p_first_child s' = p_first_child s" "p_next_sibling s' = p_next_sibling s"
    "p_exit_status s' = p_exit_status s" "p_main_task s' = p_main_task s" "slots s' = slots s" "f_refcount s' = f_refcount s"
    "init_proc s' = init_proc s"
proof -
  note e = assms [unfolded requeued_def]
  show "p_state s' = p_state s" using arg_cong [OF e, of p_state] by simp
  show "p_parent s' = p_parent s" using arg_cong [OF e, of p_parent] by simp
  show "p_first_child s' = p_first_child s" using arg_cong [OF e, of p_first_child] by simp
  show "p_next_sibling s' = p_next_sibling s" using arg_cong [OF e, of p_next_sibling] by simp
  show "p_exit_status s' = p_exit_status s" using arg_cong [OF e, of p_exit_status] by simp
  show "p_main_task s' = p_main_task s" using arg_cong [OF e, of p_main_task] by simp
  show "slots s' = slots s" using arg_cong [OF e, of slots] by simp
  show "f_refcount s' = f_refcount s" using arg_cong [OF e, of f_refcount] by simp
  show "init_proc s' = init_proc s" using arg_cong [OF e, of init_proc] by simp
qed

lemma wake_if:
  assumes inv: "sched_inv s R A" and t: "t \<in> set A \<or> t = 0"
  obtains R' where "sched_inv (if b \<and> t \<noteq> 0 then sched_wake s t else s) R' A" "requeued s (if b \<and> t \<noteq> 0 then sched_wake s t else s)"
    "b \<longrightarrow> t \<noteq> 0 \<longrightarrow> t_state (if b \<and> t \<noteq> 0 then sched_wake s t else s) t \<noteq> TASK_SLEEPING"
    "\<forall>u. t_state (if b \<and> t \<noteq> 0 then sched_wake s t else s) u = TASK_SLEEPING \<longrightarrow> t_state s u = TASK_SLEEPING"
proof (cases "b \<and> t \<noteq> 0")
  case True
  then have tA: "t \<in> set A" "t \<noteq> 0" using t by simp_all
  show ?thesis
  proof (cases "t_state s t = TASK_SLEEPING")
    case sl: True
    note w = wake_sleeping [OF inv tA(1) sl]
    show ?thesis using that w True by auto
  next
    case False
    note w = wake_other [OF inv tA(2) False]
    show ?thesis using that w True False by auto
  qed
next
  case False
  then show ?thesis using that [of R] inv by auto
qed

text \<open>The scheduler invariant depends only on the scheduler's own fields and the memory of the tasks.\<close>

lemma sched_inv_transfer:
  assumes "sched_inv s R A" "run_next s' = run_next s" "runq_head s' = runq_head s" "runq_tail s' = runq_tail s" "all_next s' = all_next s"
    "all_tasks s' = all_tasks s" "nr_tasks s' = nr_tasks s" "idle_task s' = idle_task s" "current s' = current s"
    "reap_zombie s' = reap_zombie s" "t_state s' = t_state s" "mem_inv s' (set A)"
  shows "sched_inv s' R A"
  using assms by (simp add: sched_inv_def sched_mid_def)

lemma mem_inv_shrink:
  assumes m: "mem_inv s A" and h: "kmem_inv (heap s')" "same_pool (heap s) (heap s')" "live (heap s') \<subseteq> live (heap s)"
    and a: "A - {boot_task s, idle_task s} \<subseteq> live (heap s')" and f: "boot_task s' = boot_task s" "idle_task s' = idle_task s" "t_kstack_base s' = t_kstack_base s"
  shows "mem_inv s' A"
proof -
  have b: "stack_blk s' = stack_blk s" using h(2) f by (simp add: stack_blk_def fun_eq_iff same_pool_def pg_def)
  then have "stack_ok s' = stack_ok s" using h(2) f by (simp add: stack_ok_def fun_eq_iff same_pool_def pg_def at_page_def)
  then show ?thesis using m h a f b unfolding mem_inv_def by auto
qed

lemma fd_inv_cong: "fd_inv s T \<Longrightarrow> heap s' = heap s \<Longrightarrow> slots s' = slots s \<Longrightarrow> f_refcount s' = f_refcount s \<Longrightarrow> fd_inv s' T"
  by (simp add: fd_inv_def holders_def file_ok_def)

lemma exit_drain:
  assumes f: "fd_inv s P" and inv: "sched_inv s R A" and p: "p \<in> P" and fa: "\<forall>f\<in>set A. f = 0 \<or> holders s P f = {}"
  obtains h v r sl where "fd_drain vc s p [0..<JNU_MAX_FDS] = Some (s\<lparr>heap := h, vfs := v, f_refcount := r, slots := sl\<rparr>)"
    "fd_inv (s\<lparr>heap := h, vfs := v, f_refcount := r, slots := sl\<rparr>) P" "sched_inv (s\<lparr>heap := h, vfs := v, f_refcount := r, slots := sl\<rparr>) R A"
    "sl = (slots s)(p := (\<lambda>fd. if fd < JNU_MAX_FDS then 0 else slots s p fd))"
    "live h = live (heap s) - {f. f \<noteq> 0 \<and> holders s P f \<noteq> {} \<and> holders s P f \<subseteq> {p} \<times> {..<JNU_MAX_FDS}}"
proof -
  obtain s' where s': "fd_drain vc s p [0..<JNU_MAX_FDS] = Some s'" "fd_inv s' P"
    "slots s' = (slots s)(p := (\<lambda>fd. if fd \<in> set [0..<JNU_MAX_FDS] then 0 else slots s p fd))"
    "live (heap s') = live (heap s) - {f. f \<noteq> 0 \<and> holders s P f \<noteq> {} \<and> holders s P f \<subseteq> {p} \<times> set [0..<JNU_MAX_FDS]}"
    "same_pool (heap s) (heap s')" using drain_all [OF f p, of vc] by blast
  obtain h v r sl where e: "s' = s\<lparr>heap := h, vfs := v, f_refcount := r, slots := sl\<rparr>" using drain_frame [OF s'(1)] by blast
  have mem: "mem_inv s (set A)" "0 \<notin> set A" using inv sched_midD(7,10) [of s R A] by (simp_all add: sched_inv_def)
  have km: "kmem_inv (heap s')" using s'(2) by (simp add: fd_inv_def)
  have sub: "set A - {boot_task s, idle_task s} \<subseteq> live (heap s')"
  proof
    fix x assume x: "x \<in> set A - {boot_task s, idle_task s}"
    then have "x \<in> live (heap s)" using mem(1) by (auto simp: mem_inv_def)
    moreover have "holders s P x = {}" using fa x mem(2) by auto
    ultimately show "x \<in> live (heap s')" using s'(4) by simp
  qed
  have "mem_inv s' (set A)" by (rule mem_inv_shrink [OF mem(1) km s'(5) _ sub]) (use s'(4) e in auto)
  then have sc: "sched_inv s' R A" by (intro sched_inv_transfer [OF inv]) (simp_all add: e)
  show ?thesis
  proof (rule that)
    show "fd_drain vc s p [0..<JNU_MAX_FDS] = Some (s\<lparr>heap := h, vfs := v, f_refcount := r, slots := sl\<rparr>)" using s'(1) e by simp
    show "fd_inv (s\<lparr>heap := h, vfs := v, f_refcount := r, slots := sl\<rparr>) P" using s'(2) e by simp
    show "sched_inv (s\<lparr>heap := h, vfs := v, f_refcount := r, slots := sl\<rparr>) R A" using sc e by simp
    show "sl = (slots s)(p := (\<lambda>fd. if fd < JNU_MAX_FDS then 0 else slots s p fd))" using s'(3) e by simp
    show "live h = live (heap s) - {f. f \<noteq> 0 \<and> holders s P f \<noteq> {} \<and> holders s P f \<subseteq> {p} \<times> {..<JNU_MAX_FDS}}"
      using s'(4) e by (simp add: atLeast0LessThan)
  qed
qed

lemma exit_unfold:
  assumes "current s \<noteq> 0" "t_process s (current s) = p" "p \<noteq> 0" "fd_drain vc s p [0..<JNU_MAX_FDS] = Some s1"
    "reparent_children s1 p (init_proc s) = Some (w, u)"
    "u\<lparr>p_first_child := (p_first_child u)(p := 0), p_exit_status := (p_exit_status u)(p := status AND 255),
      p_state := (p_state u)(p := PROCESS_ZOMBIE)\<rparr> = s2"
    "(if p_parent s2 p \<noteq> 0 \<and> p_main_task s2 (p_parent s2 p) \<noteq> 0 then sched_wake s2 (p_main_task s2 (p_parent s2 p)) else s2) = s3"
    "(if w \<and> init_proc s \<noteq> 0 \<and> p_main_task s3 (init_proc s) \<noteq> 0 then sched_wake s3 (p_main_task s3 (init_proc s)) else s3) = s4"
  shows "process_exit_current vc s status = Some s4"
  unfolding process_exit_current_def Let_def using assms(1-3)
  by (simp only: assms(2) if_False if_True not_False_eq_True assms(4,5) bind.bind_lunit prod.case assms(6-8))

lemma exit_result:
  assumes t: "tree_inv s P C" and f: "fd_inv s P" and inv: "sched_inv s R A" and p: "t_process s (current s) = p" "p \<in> P"
    and i: "init_proc s = i" "i \<in> P" "p \<noteq> i" and mt: "\<forall>q\<in>P. p_main_task s q \<in> set A \<or> p_main_task s q = 0"
    and fa: "\<forall>f\<in>set A. f = 0 \<or> holders s P f = {}"
  obtains s' R' where "process_exit_current vc s status = Some s'" "tree_inv s' P (C(p := [], i := C p @ C i))" "fd_inv s' P" "sched_inv s' R' A"
    "p_state s' = (p_state s)(p := PROCESS_ZOMBIE)" "p_exit_status s' = (p_exit_status s)(p := status AND 255)"
    "slots s' = (slots s)(p := (\<lambda>fd. if fd < JNU_MAX_FDS then 0 else slots s p fd))"
    "live (heap s') = live (heap s) - {f. f \<noteq> 0 \<and> holders s P f \<noteq> {} \<and> holders s P f \<subseteq> {p} \<times> {..<JNU_MAX_FDS}}"
    "p_main_task s' = p_main_task s"
    "p_parent s' p \<noteq> 0 \<longrightarrow> p_main_task s (p_parent s' p) \<noteq> 0 \<longrightarrow> t_state s' (p_main_task s (p_parent s' p)) \<noteq> TASK_SLEEPING"
    "(\<exists>c\<in>set (C p). p_state s c = PROCESS_ZOMBIE) \<longrightarrow> p_main_task s i \<noteq> 0 \<longrightarrow> t_state s' (p_main_task s i) \<noteq> TASK_SLEEPING"
proof -
  obtain h v r sl where d: "fd_drain vc s p [0..<JNU_MAX_FDS] = Some (s\<lparr>heap := h, vfs := v, f_refcount := r, slots := sl\<rparr>)"
    "fd_inv (s\<lparr>heap := h, vfs := v, f_refcount := r, slots := sl\<rparr>) P" "sched_inv (s\<lparr>heap := h, vfs := v, f_refcount := r, slots := sl\<rparr>) R A"
    "sl = (slots s)(p := (\<lambda>fd. if fd < JNU_MAX_FDS then 0 else slots s p fd))"
    "live h = live (heap s) - {f. f \<noteq> 0 \<and> holders s P f \<noteq> {} \<and> holders s P f \<subseteq> {p} \<times> {..<JNU_MAX_FDS}}"
    by (rule exit_drain [OF f inv p(2) fa])
  let ?s1 = "s\<lparr>heap := h, vfs := v, f_refcount := r, slots := sl\<rparr>"
  let ?z = "\<exists>c\<in>set (C p). p_state s c = PROCESS_ZOMBIE"
  have t1: "tree_inv ?s1 P C" using t by simp
  obtain N F Q where q: "reparent_children ?s1 p i = Some (\<exists>c\<in>set (C p). p_state ?s1 c = PROCESS_ZOMBIE,
      ?s1\<lparr>p_next_sibling := N, p_first_child := F, p_parent := Q\<rparr>)" "tree N (F(p := 0)) Q P (C(p := [], i := C p @ C i))"
    by (rule reparent_result [OF t1 p(2) i(2,3)])
  define s2 where "s2 = ?s1\<lparr>p_next_sibling := N, p_first_child := F(p := 0), p_parent := Q, p_exit_status := (p_exit_status s)(p := status AND 255),
    p_state := (p_state s)(p := PROCESS_ZOMBIE)\<rparr>"
  have s2: "p_next_sibling s2 = N" "p_first_child s2 = F(p := 0)" "p_parent s2 = Q" "p_main_task s2 = p_main_task s"
    "p_state s2 = (p_state s)(p := PROCESS_ZOMBIE)" "p_exit_status s2 = (p_exit_status s)(p := status AND 255)" "heap s2 = h" "slots s2 = sl"
    "f_refcount s2 = r" by (simp_all add: s2_def)
  have nz: "current s \<noteq> 0" "p \<noteq> 0" "i \<noteq> 0" using sched_midD(11) [of s R A] inv treeD(4) [OF t] p(2) i(2) by (auto simp: sched_inv_def)
  have m2: "mem_inv s2 (set A)" by (rule mem_inv_cong [of ?s1]) (use d(3) in \<open>simp_all add: s2_def sched_inv_def sched_mid_def\<close>)
  have i2: "sched_inv s2 R A" by (rule sched_inv_transfer [OF d(3)]) (simp_all add: m2, simp_all add: s2_def)
  let ?m = "p_main_task s (Q p)"
  have Qp: "Q p \<in> P \<or> Q p = 0" by (rule treeD(3) [OF q(2) p(2)])
  then have mA: "(if Q p \<noteq> 0 then ?m else 0) \<in> set A \<or> (if Q p \<noteq> 0 then ?m else 0) = 0" using mt by auto
  define s3 where "s3 = (if True \<and> (if Q p \<noteq> 0 then ?m else 0) \<noteq> 0 then sched_wake s2 (if Q p \<noteq> 0 then ?m else 0) else s2)"
  obtain R3 where r3: "sched_inv s3 R3 A" "requeued s2 s3" "True \<longrightarrow> (if Q p \<noteq> 0 then ?m else 0) \<noteq> 0 \<longrightarrow> t_state s3 (if Q p \<noteq> 0 then ?m else 0) \<noteq> TASK_SLEEPING"
    "\<forall>u. t_state s3 u = TASK_SLEEPING \<longrightarrow> t_state s2 u = TASK_SLEEPING"
    unfolding s3_def by (rule wake_if [OF i2 mA, of True])
  define s4 where "s4 = (if ?z \<and> p_main_task s i \<noteq> 0 then sched_wake s3 (p_main_task s i) else s3)"
  obtain R4 where r4: "sched_inv s4 R4 A" "requeued s3 s4" "?z \<longrightarrow> p_main_task s i \<noteq> 0 \<longrightarrow> t_state s4 (p_main_task s i) \<noteq> TASK_SLEEPING"
    "\<forall>u. t_state s4 u = TASK_SLEEPING \<longrightarrow> t_state s3 u = TASK_SLEEPING"
    unfolding s4_def by (rule wake_if [OF r3(1) mt [rule_format, OF i(2)], of ?z])
  note rp = requeued_process [OF requeued_trans [OF r3(2) r4(2)]] and rs = requeued_sel [OF requeued_trans [OF r3(2) r4(2)]]
  have run: "process_exit_current vc s status = Some s4"
  proof -
    let ?u = "?s1\<lparr>p_next_sibling := N, p_first_child := F, p_parent := Q\<rparr>"
    have m: "?u\<lparr>p_first_child := (p_first_child ?u)(p := 0), p_exit_status := (p_exit_status ?u)(p := status AND 255),
      p_state := (p_state ?u)(p := PROCESS_ZOMBIE)\<rparr> = s2" by (simp add: s2_def)
    have w: "(if p_parent s2 p \<noteq> 0 \<and> p_main_task s2 (p_parent s2 p) \<noteq> 0 then sched_wake s2 (p_main_task s2 (p_parent s2 p)) else s2) = s3"
      by (simp add: s3_def s2(3,4))
    have "p_main_task s3 = p_main_task s" using requeued_process(6) [OF r3(2)] s2(4) by simp
    then have z: "(if ?z \<and> init_proc s \<noteq> 0 \<and> p_main_task s3 (init_proc s) \<noteq> 0 then sched_wake s3 (p_main_task s3 (init_proc s)) else s3) = s4"
      using nz(3) i(1) by (simp add: s4_def)
    have "reparent_children ?s1 p (init_proc s) = Some (?z, ?u)" using q(1) i(1) by simp
    then show ?thesis by (rule exit_unfold [OF nz(1) p(1) nz(2) d(1) _ m w z])
  qed
  show ?thesis
  proof (rule that [OF run])
    show "tree_inv s4 P (C(p := [], i := C p @ C i))" using q(2) rp s2 by simp
    show "fd_inv s4 P" by (rule fd_inv_cong [OF d(2)]) (use rp rs s2 in simp_all)
    show "sched_inv s4 R4 A" by (rule r4)
    show "live (heap s4) = live (heap s) - {f. f \<noteq> 0 \<and> holders s P f \<noteq> {} \<and> holders s P f \<subseteq> {p} \<times> {..<JNU_MAX_FDS}}"
      using rs s2 d(5) by simp
    show "slots s4 = (slots s)(p := (\<lambda>fd. if fd < JNU_MAX_FDS then 0 else slots s p fd))" using rp s2 d(4) by simp
    show "p_parent s4 p \<noteq> 0 \<longrightarrow> p_main_task s (p_parent s4 p) \<noteq> 0 \<longrightarrow> t_state s4 (p_main_task s (p_parent s4 p)) \<noteq> TASK_SLEEPING"
      using r3(3) r4(4) rp s2 by auto
    show "?z \<longrightarrow> p_main_task s i \<noteq> 0 \<longrightarrow> t_state s4 (p_main_task s i) \<noteq> TASK_SLEEPING" by (rule r4)
  qed (use rp s2 in simp_all)
qed

section \<open>Wait\<close>

abbreviation matching :: "'v sched_state \<Rightarrow> int \<Rightarrow> ptr \<Rightarrow> bool" where
  "matching s pid \<equiv> (\<lambda>c. pid = -1 \<or> p_pid s c = pid)"

lemma find_child_result:
  assumes t: "tree_inv s P C" "p \<in> P"
  shows "find_child s p pid = Some (case find (matching s pid) (C p) of None \<Rightarrow> 0 | Some c \<Rightarrow> c)"
proof -
  have "find_child_from s c pid = Some (case find (matching s pid) cs of None \<Rightarrow> 0 | Some c \<Rightarrow> c)"
    if "sll (p_next_sibling s) c cs" for c cs
    using that
  proof (induction cs arbitrary: c)
    case Nil
    then show ?case by (subst find_child_from.simps) simp
  next
    case (Cons x xs)
    then show ?case by (subst find_child_from.simps) auto
  qed
  then show ?thesis using treeD(1) [OF t] by (simp add: find_child_def)
qed

lemma unlink_child_result:
  assumes t: "tree_inv s P C" and p: "p \<in> P" "c \<in> set (C p)" "C c = []"
  obtains N F where "unlink_child s p c = Some (s\<lparr>p_first_child := F, p_next_sibling := N, p_parent := (p_parent s)(c := 0)\<rparr>)"
    "tree N F ((p_parent s)(c := 0)) (P - {c}) (C(p := remove1 c (C p)))"
proof -
  obtain h N where u: "list_unlink (p_next_sibling s) (p_first_child s p) 0 c = Some (True, h, N)" "sll N h (remove1 c (C p))"
    "N c = 0" "\<forall>y. y \<notin> set (C p) \<longrightarrow> N y = p_next_sibling s y"
    by (rule list_unlink_result [OF treeD(1) [OF t p(1)] p(2)])
  have "unlink_child s p c = Some (s\<lparr>p_first_child := (p_first_child s)(p := h), p_next_sibling := N, p_parent := (p_parent s)(c := 0)\<rparr>)"
    using u(1) by (simp add: unlink_child_def)
  then show ?thesis by (rule that) (rule tree_unlink [OF t p u(2,4)])
qed

text \<open>A zombie task is freed with its stack.\<close>

lemma reap_task_result:
  assumes inv: "sched_inv s R A" and t: "t \<in> set A" "t_state s t = TASK_ZOMBIE" "t \<noteq> boot_task s"
  obtains N a m where "sched_reap_task s t = Some (s\<lparr>all_tasks := a, all_next := N, nr_tasks := int (length (remove1 t A)), heap := m\<rparr>)"
    "sched_inv (s\<lparr>all_tasks := a, all_next := N, nr_tasks := int (length (remove1 t A)), heap := m\<rparr>) R (remove1 t A)"
    "live m = live (heap s) - {t}" "pool m = pool (heap s) \<union> stack_blk s t" "hhdm m = hhdm (heap s)"
proof -
  have mid: "sched_mid s R A" and run: "t_state s (current s) = TASK_RUNNING" using inv by (simp_all add: sched_inv_def)
  note d = sched_midD [OF mid]
  have idle: "t \<noteq> idle_task s" using mid t(2) by (auto simp: sched_mid_def)
  have ne: "t \<noteq> current s" "t \<noteq> 0" "t \<notin> set R" using run t d(10) mid by (auto simp: sched_mid_def)
  have set: "set (remove1 t A) = set A - {t}" using d(9) by (simp add: set_remove1_eq)
  obtain N a where r: "all_tasks_remove s t = Some (s\<lparr>all_tasks := a, all_next := N, nr_tasks := int (length (remove1 t A))\<rparr>)"
    "sll N a (remove1 t A)" by (rule all_tasks_remove_result [OF d(2) t(1) d(3)])
  let ?u = "s\<lparr>all_tasks := a, all_next := N, nr_tasks := int (length (remove1 t A))\<rparr>"
  have "mem_inv ?u (set A)" by (rule mem_inv_cong [OF d(7)]) simp_all
  from free_task_result [OF this t(1)] t(3) idle obtain m where m: "free_task ?u t = Some (?u\<lparr>heap := m\<rparr>)"
    "mem_inv (?u\<lparr>heap := m\<rparr>) (set A - {t})" "live m = live (heap s) - {t}" "pool m = pool (heap s) \<union> stack_blk ?u t" "hhdm m = hhdm (heap s)" by auto
  have "sched_reap_task s t = Some (?u\<lparr>heap := m\<rparr>)" using ne r(1) m(1) by (simp add: sched_reap_task_def)
  moreover have "sched_inv (?u\<lparr>heap := m\<rparr>) R (remove1 t A)"
    using mid run r(2) m(2) ne idle t(2) unfolding sched_inv_def sched_mid_def set by auto
  moreover have "pool m = pool (heap s) \<union> stack_blk s t" using m(4) by (simp add: stack_blk_def)
  ultimately show ?thesis using m(3,5) by (intro that)
qed

lemma reap_tasks_result:
  assumes "sched_inv s R A" "sll (task_next s) h TS" "\<forall>t\<in>set TS. t \<in> set A \<and> t_state s t = TASK_ZOMBIE \<and> t \<noteq> boot_task s"
  shows "\<exists>N a n m. reap_tasks s h = Some (s\<lparr>all_tasks := a, all_next := N, nr_tasks := n, heap := m\<rparr>) \<and>
    sched_inv (s\<lparr>all_tasks := a, all_next := N, nr_tasks := n, heap := m\<rparr>) R (filter (\<lambda>t. t \<notin> set TS) A) \<and>
    live m = live (heap s) - set TS \<and> pool m = pool (heap s) \<union> \<Union> (stack_blk s ` set TS) \<and> hhdm m = hhdm (heap s)"
  using assms
proof (induction TS arbitrary: s h A)
  case Nil
  have "reap_tasks s h = Some (s\<lparr>all_tasks := all_tasks s, all_next := all_next s, nr_tasks := nr_tasks s, heap := heap s\<rparr>)"
    using Nil(2) by (subst reap_tasks.simps) simp
  then show ?case using Nil(1) by (intro exI [of _ "all_next s"] exI [of _ "all_tasks s"] exI [of _ "nr_tasks s"] exI [of _ "heap s"]) simp
next
  case (Cons x xs)
  have x: "h = x" "x \<noteq> 0" "sll (task_next s) (task_next s x) xs" using Cons.prems(2) by auto
  have tx: "x \<in> set A" "t_state s x = TASK_ZOMBIE" "x \<noteq> boot_task s" using Cons.prems(3) by simp_all
  obtain N a m where r: "sched_reap_task s x = Some (s\<lparr>all_tasks := a, all_next := N, nr_tasks := int (length (remove1 x A)), heap := m\<rparr>)"
    "sched_inv (s\<lparr>all_tasks := a, all_next := N, nr_tasks := int (length (remove1 x A)), heap := m\<rparr>) R (remove1 x A)"
    "live m = live (heap s) - {x}" "pool m = pool (heap s) \<union> stack_blk s x" "hhdm m = hhdm (heap s)"
    by (rule reap_task_result [OF Cons.prems(1) tx])
  let ?u = "s\<lparr>all_tasks := a, all_next := N, nr_tasks := int (length (remove1 x A)), heap := m\<rparr>"
  have dx: "x \<notin> set xs" using sll_distinct [OF Cons.prems(2)] by simp
  have dA: "distinct A" using Cons.prems(1) sched_midD(9) by (auto simp: sched_inv_def)
  have zs: "\<forall>t\<in>set xs. t \<in> set (remove1 x A) \<and> t_state ?u t = TASK_ZOMBIE \<and> t \<noteq> boot_task ?u"
    using Cons.prems(3) dx dA by (auto simp: set_remove1_eq)
  have sl: "sll (task_next ?u) (task_next s x) xs" using x(3) by simp
  obtain N' a' n' m' where q: "reap_tasks ?u (task_next s x) = Some (?u\<lparr>all_tasks := a', all_next := N', nr_tasks := n', heap := m'\<rparr>)"
    "sched_inv (?u\<lparr>all_tasks := a', all_next := N', nr_tasks := n', heap := m'\<rparr>) R (filter (\<lambda>t. t \<notin> set xs) (remove1 x A))"
    "live m' = live (heap ?u) - set xs" "pool m' = pool (heap ?u) \<union> \<Union> (stack_blk ?u ` set xs)" "hhdm m' = hhdm (heap ?u)"
    using Cons.IH [OF r(2) sl zs] by (elim exE conjE) (rule that)
  have f: "filter (\<lambda>t. t \<notin> set xs) (remove1 x A) = filter (\<lambda>t. t \<notin> set (x # xs)) A"
    using dA by (simp add: distinct_remove1_removeAll removeAll_filter_not_eq conj_commute eq_commute)
  have b: "stack_blk ?u = stack_blk s" using r(5) by (simp add: stack_blk_def pg_def fun_eq_iff)
  have "reap_tasks s h = Some (s\<lparr>all_tasks := a', all_next := N', nr_tasks := n', heap := m'\<rparr>)"
    using x r(1) q(1) by (subst reap_tasks.simps) (simp add: Let_def)
  moreover have "sched_inv (s\<lparr>all_tasks := a', all_next := N', nr_tasks := n', heap := m'\<rparr>) R (filter (\<lambda>t. t \<notin> set (x # xs)) A)"
    using q(2) unfolding f by simp
  moreover have "live m' = live (heap s) - set (x # xs)" "pool m' = pool (heap s) \<union> \<Union> (stack_blk s ` set (x # xs))"
    "hhdm m' = hhdm (heap s)" using q(3-5) r(3-5) b by auto
  ultimately show ?case by (intro exI conjI)
qed

lemma drain_empty: "\<forall>fd\<in>set fds. slots s c fd = 0 \<Longrightarrow> fd_drain vc s c fds = Some (s :: 'v sched_state)"
proof (induction fds)
  case (Cons fd fds)
  have "fd_close s c (int fd) = (0, s)" using Cons.prems by (simp add: fd_close_def fun_upd_idem)
  then show ?case using Cons by (simp add: file_put_def)
qed simp

text \<open>
  What exit leaves of a process: an empty descriptor table, an object on the heap, and the list
  \<open>TS\<close> of its tasks, all zombies. Destroying its address space gives back the objects \<open>X\<close> and the
  pages \<open>G\<close>, which belong to no task and to no kernel stack.
\<close>

definition reapable :: "'v sched_state \<Rightarrow> ptr list \<Rightarrow> ptr \<Rightarrow> ptr list \<Rightarrow> bool" where
  "reapable s A c TS \<longleftrightarrow> (\<forall>fd<JNU_MAX_FDS. slots s c fd = 0) \<and> c \<in> live (heap s) \<and> c \<noteq> 0 \<and> c \<notin> set A \<and>
     sll (task_next s) (p_tasks s c) TS \<and> (\<forall>t\<in>set TS. t \<in> set A \<and> t_state s t = TASK_ZOMBIE \<and> t \<noteq> boot_task s)"

definition destroys :: "kmem_state \<Rightarrow> kmem_state \<Rightarrow> ptr set \<Rightarrow> nat set \<Rightarrow> bool" where
  "destroys h h' X G \<longleftrightarrow> kmem_inv h' \<and> live h' = live h - X \<and> pool h' = pool h \<union> G \<and> hhdm h' = hhdm h \<and>
     pfn_count (pmm h') = pfn_count (pmm h)"

definition space_ok :: "(kmem_state \<Rightarrow> ptr \<Rightarrow> kmem_state option) \<Rightarrow> 'v sched_state \<Rightarrow> ptr list \<Rightarrow> ptr \<Rightarrow> ptr set \<Rightarrow> nat set \<Rightarrow> bool" where
  "space_ok ds s A c X G \<longleftrightarrow>
     (if p_space s c \<noteq> 0 \<and> p_space s c \<noteq> kernel_space s
      then (\<exists>h. ds (heap s) (p_space s c) = Some h \<and> destroys (heap s) h X G) \<and> X \<inter> insert c (set A) = {} \<and>
        (\<forall>t\<in>set A - {boot_task s}. stack_blk s t \<inter> G = {})
      else X = {} \<and> G = {})"

lemma destroy_inv:
  assumes inv: "sched_inv s R A" and d: "destroys (heap s) h X G" "X \<inter> set A = {}" "\<forall>t\<in>set A - {boot_task s}. stack_blk s t \<inter> G = {}"
  shows "sched_inv (s\<lparr>heap := h\<rparr>) R A" "stack_blk (s\<lparr>heap := h\<rparr>) = stack_blk s"
proof -
  note D = d(1) [unfolded destroys_def]
  show b: "stack_blk (s\<lparr>heap := h\<rparr>) = stack_blk s" using D by (simp add: stack_blk_def pg_def fun_eq_iff)
  have m: "mem_inv s (set A)" using inv by (simp add: sched_inv_def sched_mid_def)
  have "stack_ok (s\<lparr>heap := h\<rparr>) t" if t: "t \<in> set A - {boot_task s}" for t
  proof -
    have "stack_ok s t" using m t by (simp add: mem_inv_def)
    then show ?thesis using D d(3) t fun_cong [OF b, of t] by (auto simp: stack_ok_def pg_def at_page_def)
  qed
  moreover have "\<forall>t\<in>set A - {boot_task s, idle_task s}. t \<in> live h" using m d(2) D by (auto simp: mem_inv_def)
  ultimately have "mem_inv (s\<lparr>heap := h\<rparr>) (set A)" using m D b by (simp add: mem_inv_def)
  then show "sched_inv (s\<lparr>heap := h\<rparr>) R A" by (intro sched_inv_transfer [OF inv]) simp_all
qed

lemma space_step:
  assumes inv: "sched_inv s R A" and sp: "space_ok ds s A c X G"
  obtains h where "(if p_space s c \<noteq> 0 \<and> p_space s c \<noteq> kernel_space s
      then do { h \<leftarrow> ds (heap s) (p_space s c); Some (s\<lparr>heap := h\<rparr>) } else Some s) = Some (s\<lparr>heap := h\<rparr>)"
    "sched_inv (s\<lparr>heap := h\<rparr>) R A" "stack_blk (s\<lparr>heap := h\<rparr>) = stack_blk s" "live h = live (heap s) - X" "pool h = pool (heap s) \<union> G"
    "c \<notin> X"
proof (cases "p_space s c \<noteq> 0 \<and> p_space s c \<noteq> kernel_space s")
  case True
  obtain h where h: "ds (heap s) (p_space s c) = Some h" "destroys (heap s) h X G"
    and x: "X \<inter> insert c (set A) = {}" "\<forall>t\<in>set A - {boot_task s}. stack_blk s t \<inter> G = {}"
    using sp True unfolding space_ok_def by auto
  have xA: "X \<inter> set A = {}" using x(1) by auto
  show ?thesis
  proof (rule that)
    show "sched_inv (s\<lparr>heap := h\<rparr>) R A" "stack_blk (s\<lparr>heap := h\<rparr>) = stack_blk s" by (rule destroy_inv [OF inv h(2) xA x(2)])+
  qed (use True h x in \<open>auto simp: destroys_def\<close>)
next
  case False
  then have "X = {}" "G = {}" using sp by (auto simp: space_ok_def split: if_splits)
  then show ?thesis by (intro that [of "heap s"]) (use False inv in auto)
qed

lemma process_reap_result:
  assumes inv: "sched_inv s R A" and c: "reapable s A c TS" and sp: "space_ok ds s A c X G"
  obtains s' where "process_reap vc ds s c = Some s'" "sched_inv s' R (filter (\<lambda>t. t \<notin> set TS) A)"
    "live (heap s') = live (heap s) - X - set TS - {c}" "pool (heap s') = pool (heap s) \<union> G \<union> \<Union> (stack_blk s ` set TS)"
    "p_next_sibling s' = p_next_sibling s" "p_first_child s' = p_first_child s" "p_parent s' = p_parent s" "p_state s' = p_state s"
proof -
  note R = c [unfolded reapable_def]
  have dr: "fd_drain vc s c [0..<JNU_MAX_FDS] = Some s" using R by (intro drain_empty) simp
  obtain h where h: "(if p_space s c \<noteq> 0 \<and> p_space s c \<noteq> kernel_space s
      then do { h \<leftarrow> ds (heap s) (p_space s c); Some (s\<lparr>heap := h\<rparr>) } else Some s) = Some (s\<lparr>heap := h\<rparr>)"
    "sched_inv (s\<lparr>heap := h\<rparr>) R A" "stack_blk (s\<lparr>heap := h\<rparr>) = stack_blk s" "live h = live (heap s) - X" "pool h = pool (heap s) \<union> G"
    "c \<notin> X" by (rule space_step [OF inv sp])
  let ?s1 = "s\<lparr>heap := h\<rparr>"
  have ts: "sll (task_next ?s1) (p_tasks s c) TS" "\<forall>t\<in>set TS. t \<in> set A \<and> t_state ?s1 t = TASK_ZOMBIE \<and> t \<noteq> boot_task ?s1"
    using R by simp_all
  obtain N a n m where r: "reap_tasks ?s1 (p_tasks s c) = Some (?s1\<lparr>all_tasks := a, all_next := N, nr_tasks := n, heap := m\<rparr>)"
    "sched_inv (?s1\<lparr>all_tasks := a, all_next := N, nr_tasks := n, heap := m\<rparr>) R (filter (\<lambda>t. t \<notin> set TS) A)"
    "live m = live (heap ?s1) - set TS" "pool m = pool (heap ?s1) \<union> \<Union> (stack_blk ?s1 ` set TS)" "hhdm m = hhdm (heap ?s1)"
    using reap_tasks_result [OF h(2) ts] by (elim exE conjE) (rule that)
  let ?A = "filter (\<lambda>t. t \<notin> set TS) A" and ?s2 = "?s1\<lparr>all_tasks := a, all_next := N, nr_tasks := n, heap := m\<rparr>"
  have m2: "mem_inv ?s2 (set ?A)" by (rule sched_midD(7) [OF conjunct1 [OF r(2) [unfolded sched_inv_def]]])
  then have km: "kmem_inv m" by (simp add: mem_inv_def)
  have cl: "c \<in> live m" using R h(4,6) r(3) by auto
  obtain k where k: "kfree m c = Some k" "kmem_inv k" "live k = live m - {c}" "same_pool m k" using kfree_result [OF km cl] by blast
  define s' where "s' = ?s2\<lparr>p_tasks := (p_tasks s)(c := 0), p_main_task := (p_main_task s)(c := 0), heap := k\<rparr>"
  have s': "heap s' = k" "boot_task s' = boot_task s" "idle_task s' = idle_task s" "t_kstack_base s' = t_kstack_base s" by (simp_all add: s'_def)
  have sub: "set ?A - {boot_task ?s2, idle_task ?s2} \<subseteq> live k" using m2 R k(3) by (auto simp: mem_inv_def)
  have "mem_inv s' (set ?A)" by (rule mem_inv_shrink [OF m2]) (use k sub s' in auto)
  then have iv: "sched_inv s' R ?A" by (intro sched_inv_transfer [OF r(2)]) (simp_all add: s'_def)
  have run: "process_reap vc ds s c = Some s'"
    unfolding process_reap_def dr using R h(1) r(1) k(1)
    by (simp add: process_release_pid_def kfree_object_at_def s'_def)
  show ?thesis by (rule that [OF run iv]) (use s' k(3,4) r(3,4) h(3-5) in \<open>auto simp: s'_def same_pool_def\<close>)
qed

section \<open>Properties\<close>


definition exit_sample :: "kmem_state \<Rightarrow> ptr \<Rightarrow> unit sched_state" where
  "exit_sample h p = (sched_sample h p)\<lparr>t_process := (\<lambda>_. 11), init_proc := 10, p_main_task := (\<lambda>q. if q = 10 then p else 0),
     p_first_child := (\<lambda>q. if q = 10 then 11 else if q = 11 then 12 else 0), p_parent := (\<lambda>q. if q = 11 then 10 else if q = 12 then 11 else 0),
     p_state := (\<lambda>q. if q = 12 then PROCESS_ZOMBIE else PROCESS_ALIVE)\<rparr>"



definition wait_sample :: "kmem_state \<Rightarrow> ptr \<Rightarrow> unit sched_state" where
  "wait_sample h p = (sched_sample h p)\<lparr>runq_head := 0, runq_tail := 0, all_tasks := p + 2, nr_tasks := 2, t_process := (\<lambda>_. p + 5),
     p_first_child := (\<lambda>q. if q = p + 5 then p else 0), p_parent := (\<lambda>q. if q = p then p + 5 else 0),
     p_state := (\<lambda>q. if q = p then PROCESS_ZOMBIE else PROCESS_ALIVE), p_exit_status := (\<lambda>_. 3), p_pid := (\<lambda>_. 42)\<rparr>"


end
