(* ===== verification/Paging.thy ===== *)
theory Paging
  imports Pmm_Boot
begin

text \<open>
  The four-level page tables of \<^verbatim>\<open>kernel/arch/x86_64/paging.c\<close>. A table is a page frame, named by its
  number, and its 512 entries are a map of their own; a pointer to a table, always
  \<^verbatim>\<open>phys_to_virt\<close> of its frame, is the frame's number. Tables come from and go back to the page-frame
  allocator. The allocator clears the memory of a page it takes back; the entries of a table that was
  given back are not reset here, because they are not read before a new table is made of the page,
  and that clears them. The processor's cache of translations is not modelled.
\<close>

section \<open>The code\<close>

definition PAGE_HUGE_SHIFT :: nat where "PAGE_HUGE_SHIFT = 21"
definition PAGE_HUGE_SIZE :: nat where "PAGE_HUGE_SIZE = 2 ^ PAGE_HUGE_SHIFT"

definition PTE_PRESENT :: u64 where "PTE_PRESENT = push_bit 0 1"
definition PTE_WRITE :: u64 where "PTE_WRITE = push_bit 1 1"
definition PTE_USER :: u64 where "PTE_USER = push_bit 2 1"
definition PTE_HUGE :: u64 where "PTE_HUGE = push_bit 7 1"
definition PTE_NX :: u64 where "PTE_NX = push_bit 63 1"
definition PTE_ADDR_MASK :: u64 where "PTE_ADDR_MASK = 0x000FFFFFFFFFF000"

record paging_state =
  pm :: pmm_state
  ent :: "nat \<Rightarrow> nat \<Rightarrow> u64"
  kernel_pml4 :: nat

abbreviation set_ent :: "paging_state \<Rightarrow> nat \<Rightarrow> nat \<Rightarrow> u64 \<Rightarrow> paging_state" where
  "set_ent s t i e \<equiv> s\<lparr>ent := (ent s)(t := (ent s t)(i := e))\<rparr>"

text \<open>The frame an entry points to.\<close>

definition frame_of :: "u64 \<Rightarrow> nat" where
  "frame_of e = pa_to_pfn (e AND PTE_ADDR_MASK)"

subsection \<open>Boot\<close>

text \<open>
  The two passes that set the no-execute bit have the same shape: over the kernel image (\<open>w\<close> true) only
  writable mappings get it, over the direct map all present ones.
\<close>

fun nx_pt :: "bool \<Rightarrow> paging_state \<Rightarrow> nat \<Rightarrow> nat list \<Rightarrow> paging_state" where
  "nx_pt w s pt [] = s"
| "nx_pt w s pt (i # is) =
     (let e = ent s pt i
      in nx_pt w (if e AND PTE_PRESENT \<noteq> 0 \<and> (w \<longrightarrow> e AND PTE_WRITE \<noteq> 0) then set_ent s pt i (e OR PTE_NX) else s) pt is)"

fun nx_pd :: "bool \<Rightarrow> paging_state \<Rightarrow> nat \<Rightarrow> nat list \<Rightarrow> paging_state" where
  "nx_pd w s pd [] = s"
| "nx_pd w s pd (i # is) =
     (let e = ent s pd i
      in nx_pd w
        (if e AND PTE_PRESENT = 0 then s
         else if e AND PTE_HUGE \<noteq> 0 then if w \<longrightarrow> e AND PTE_WRITE \<noteq> 0 then set_ent s pd i (e OR PTE_NX) else s
         else nx_pt w s (frame_of e) [0..<512]) pd is)"

fun nx_pdpt :: "bool \<Rightarrow> paging_state \<Rightarrow> nat \<Rightarrow> nat list \<Rightarrow> paging_state" where
  "nx_pdpt w s pdpt [] = s"
| "nx_pdpt w s pdpt (i # is) =
     (let e = ent s pdpt i
      in nx_pdpt w
        (if e AND PTE_PRESENT = 0 then s
         else if e AND PTE_HUGE \<noteq> 0 then if w \<longrightarrow> e AND PTE_WRITE \<noteq> 0 then set_ent s pdpt i (e OR PTE_NX) else s
         else nx_pd w s (frame_of e) [0..<512]) pdpt is)"

definition enforce_nx_on_kernel_image :: "paging_state \<Rightarrow> paging_state" where
  "enforce_nx_on_kernel_image s =
     (let e = ent s (kernel_pml4 s) 511
      in if e AND PTE_PRESENT = 0 then s else nx_pdpt True s (frame_of e) [0..<512])"

fun nx_pml4 :: "paging_state \<Rightarrow> nat list \<Rightarrow> paging_state" where
  "nx_pml4 s [] = s"
| "nx_pml4 s (i # is) =
     (let e = ent s (kernel_pml4 s) i
      in nx_pml4 (if e AND PTE_PRESENT = 0 then s else nx_pdpt False s (frame_of e) [0..<512]) is)"

definition enforce_nx_on_hhdm :: "paging_state \<Rightarrow> paging_state" where
  "enforce_nx_on_hhdm s = nx_pml4 s [256..<511]"

fun prepopulate :: "paging_state \<Rightarrow> nat list \<Rightarrow> paging_state option" where
  "prepopulate s [] = Some s"
| "prepopulate s (i # is) =
     (if ent s (kernel_pml4 s) i AND PTE_PRESENT \<noteq> 0 then prepopulate s is
      else
        let (pa, p) = pmm_alloc_pages (pm s) 0;
            s = s\<lparr>pm := p\<rparr>
        in if pa = 0 then None
           else
             let s = s\<lparr>ent := (ent s)(pa_to_pfn pa := (\<lambda>_. 0))\<rparr>
             in prepopulate (set_ent s (kernel_pml4 s) i (pa OR PTE_PRESENT OR PTE_WRITE)) is)"

definition prepopulate_kernel_pml4 :: "paging_state \<Rightarrow> paging_state option" where
  "prepopulate_kernel_pml4 s = prepopulate s [256..<512]"

definition paging_init :: "paging_state \<Rightarrow> u64 \<Rightarrow> paging_state option" where
  "paging_init s cr3 =
     (let s = s\<lparr>kernel_pml4 := pa_to_pfn (cr3 AND 0x000FFFFFFFFFF000)\<rparr>
      in prepopulate_kernel_pml4 (enforce_nx_on_kernel_image (enforce_nx_on_hhdm s)))"

definition paging_kernel_pml4 :: "paging_state \<Rightarrow> nat" where
  "paging_kernel_pml4 s = kernel_pml4 s"

subsection \<open>Walking\<close>

definition table_for :: "paging_state \<Rightarrow> nat \<Rightarrow> nat \<Rightarrow> bool \<Rightarrow> u64 \<Rightarrow> nat option \<times> paging_state" where
  "table_for s parent idx create pflags =
     (let e = ent s parent idx in
      if e AND PTE_PRESENT = 0 then
        if \<not> create then (None, s)
        else
          let (pa, p) = pmm_alloc_pages (pm s) 0;
              s = s\<lparr>pm := p\<rparr>
          in if pa = 0 then (None, s)
             else
               let t = pa_to_pfn pa;
                   s = s\<lparr>ent := (ent s)(t := (\<lambda>_. 0))\<rparr>
               in (Some t, set_ent s parent idx (pa OR PTE_PRESENT OR PTE_WRITE OR pflags))
      else if e AND PTE_HUGE \<noteq> 0 then (None, s)
      else (Some (frame_of e), s))"

definition pml4_idx :: "vaddr_t \<Rightarrow> nat" where "pml4_idx v = unat (drop_bit 39 v AND 0x1FF)"
definition pdpt_idx :: "vaddr_t \<Rightarrow> nat" where "pdpt_idx v = unat (drop_bit 30 v AND 0x1FF)"
definition pd_idx :: "vaddr_t \<Rightarrow> nat" where "pd_idx v = unat (drop_bit 21 v AND 0x1FF)"
definition pt_idx :: "vaddr_t \<Rightarrow> nat" where "pt_idx v = unat (drop_bit 12 v AND 0x1FF)"

text \<open>The tables to work on: those of the address space, if there is one with a root of its own.\<close>

definition root_of :: "paging_state \<Rightarrow> nat option \<Rightarrow> nat" where
  "root_of s space = (case space of Some pml4 \<Rightarrow> pml4 | None \<Rightarrow> kernel_pml4 s)"

text \<open>The three steps down to the table of the page, as each operation takes them.\<close>

definition walk_tables :: "paging_state \<Rightarrow> nat \<Rightarrow> vaddr_t \<Rightarrow> bool \<Rightarrow> u64 \<Rightarrow> nat option \<times> paging_state" where
  "walk_tables s pml4 v create pflags =
     (case table_for s pml4 (pml4_idx v) create pflags of
        (None, s) \<Rightarrow> (None, s)
      | (Some pdpt, s) \<Rightarrow>
          case table_for s pdpt (pdpt_idx v) create pflags of
            (None, s) \<Rightarrow> (None, s)
          | (Some pd, s) \<Rightarrow> table_for s pd (pd_idx v) create pflags)"

subsection \<open>Mapping\<close>

fun map_loop :: "paging_state \<Rightarrow> nat \<Rightarrow> vaddr_t \<Rightarrow> paddr_t \<Rightarrow> u64 \<Rightarrow> nat list \<Rightarrow> int \<times> paging_state" where
  "map_loop s pml4 virt phys flags [] = (0, s)"
| "map_loop s pml4 virt phys flags (i # is) =
     (let v = virt + of_nat i * PAGE_SIZE;
          p = phys + of_nat i * PAGE_SIZE
      in case walk_tables s pml4 v True (if flags AND PTE_USER \<noteq> 0 then PTE_USER else 0) of
           (None, s) \<Rightarrow> (- ENOMEM, s)
         | (Some pt, s) \<Rightarrow>
             map_loop (set_ent s pt (pt_idx v) ((p AND PTE_ADDR_MASK) OR PTE_PRESENT OR flags)) pml4 virt phys flags is)"

definition paging_map :: "paging_state \<Rightarrow> nat option \<Rightarrow> vaddr_t \<Rightarrow> paddr_t \<Rightarrow> nat \<Rightarrow> u64 \<Rightarrow> int \<times> paging_state" where
  "paging_map s space virt phys pages flags = map_loop s (root_of s space) virt phys flags [0..<pages]"

fun unmap_loop :: "paging_state \<Rightarrow> nat \<Rightarrow> vaddr_t \<Rightarrow> nat list \<Rightarrow> paging_state option" where
  "unmap_loop s pml4 virt [] = Some s"
| "unmap_loop s pml4 virt (i # is) =
     (let v = virt + of_nat i * PAGE_SIZE
      in case walk_tables s pml4 v False 0 of
           (None, s) \<Rightarrow> unmap_loop s pml4 virt is
         | (Some pt, s) \<Rightarrow>
             let e = ent s pt (pt_idx v) in
             if e AND PTE_PRESENT \<noteq> 0 then do {
               p \<leftarrow> (if e AND PTE_USER \<noteq> 0 \<and> e AND PTE_ADDR_MASK \<noteq> mm_zero_page (pm s)
                     then pmm_put_user_page (pm s) (e AND PTE_ADDR_MASK) else Some (pm s));
               unmap_loop (set_ent (s\<lparr>pm := p\<rparr>) pt (pt_idx v) 0) pml4 virt is
             }
             else unmap_loop s pml4 virt is)"

definition paging_unmap :: "paging_state \<Rightarrow> nat option \<Rightarrow> vaddr_t \<Rightarrow> nat \<Rightarrow> (int \<times> paging_state) option" where
  "paging_unmap s space virt pages = do { s \<leftarrow> unmap_loop s (root_of s space) virt [0..<pages]; Some (0, s) }"

fun protect_loop :: "paging_state \<Rightarrow> nat \<Rightarrow> vaddr_t \<Rightarrow> u64 \<Rightarrow> nat list \<Rightarrow> int \<times> paging_state" where
  "protect_loop s pml4 virt new_flags [] = (0, s)"
| "protect_loop s pml4 virt new_flags (i # is) =
     (let v = virt + of_nat i * PAGE_SIZE
      in case walk_tables s pml4 v False 0 of
           (None, s) \<Rightarrow> (- ENOENT, s)
         | (Some pt, s) \<Rightarrow>
             let e = ent s pt (pt_idx v) in
             if e AND PTE_PRESENT = 0 then (- ENOENT, s)
             else protect_loop (set_ent s pt (pt_idx v) ((e AND PTE_ADDR_MASK) OR PTE_PRESENT OR new_flags)) pml4 virt new_flags is)"

definition paging_protect :: "paging_state \<Rightarrow> nat option \<Rightarrow> vaddr_t \<Rightarrow> nat \<Rightarrow> u64 \<Rightarrow> int \<times> paging_state" where
  "paging_protect s space virt pages new_flags = protect_loop s (root_of s space) virt new_flags [0..<pages]"

text \<open>\<open>Inl\<close> an error number, \<open>Inr\<close> the flags stored; \<open>out\<close> says that there is a place to store them.\<close>

definition paging_get_flags :: "paging_state \<Rightarrow> nat option \<Rightarrow> vaddr_t \<Rightarrow> bool \<Rightarrow> int + u64" where
  "paging_get_flags s space virt out =
     (if \<not> out then Inl (- EINVAL)
      else
        case fst (table_for s (root_of s space) (pml4_idx virt) False 0) of
          None \<Rightarrow> Inl (- ENOENT)
        | Some pdpt \<Rightarrow>
            let e = ent s pdpt (pdpt_idx virt) in
            if e AND PTE_PRESENT = 0 then Inl (- ENOENT)
            else if e AND PTE_HUGE \<noteq> 0 then Inr e
            else
              case fst (table_for s pdpt (pdpt_idx virt) False 0) of
                None \<Rightarrow> Inl (- ENOENT)
              | Some pd \<Rightarrow>
                  let e = ent s pd (pd_idx virt) in
                  if e AND PTE_PRESENT = 0 then Inl (- ENOENT)
                  else if e AND PTE_HUGE \<noteq> 0 then Inr e
                  else
                    case fst (table_for s pd (pd_idx virt) False 0) of
                      None \<Rightarrow> Inl (- ENOENT)
                    | Some pt \<Rightarrow>
                        let e = ent s pt (pt_idx virt) in if e AND PTE_PRESENT = 0 then Inl (- ENOENT) else Inr e)"

definition paging_clone_kernel_half :: "paging_state \<Rightarrow> nat \<Rightarrow> paging_state" where
  "paging_clone_kernel_half s new_pml4 =
     s\<lparr>ent := (ent s)(new_pml4 := (\<lambda>i. if 256 \<le> i \<and> i < 512 then ent s (kernel_pml4 s) i else ent s new_pml4 i))\<rparr>"

subsection \<open>Tearing down\<close>

fun put_huge_loop :: "pmm_state \<Rightarrow> paddr_t \<Rightarrow> nat list \<Rightarrow> pmm_state option" where
  "put_huge_loop p base [] = Some p"
| "put_huge_loop p base (k # ks) =
     (let pa = base + of_nat k * PAGE_SIZE in
      if pa = mm_zero_page p then put_huge_loop p base ks
      else if pmm_user_refcount p pa = 0 then put_huge_loop p base ks
      else do { p \<leftarrow> pmm_put_user_page p pa; put_huge_loop p base ks })"

definition put_huge_user_range :: "pmm_state \<Rightarrow> paddr_t \<Rightarrow> nat \<Rightarrow> pmm_state option" where
  "put_huge_user_range p base span = put_huge_loop p base [0..<span div 4096]"

fun destroy_pt :: "paging_state \<Rightarrow> nat \<Rightarrow> nat list \<Rightarrow> paging_state option" where
  "destroy_pt s pt [] = Some s"
| "destroy_pt s pt (i # is) =
     (let e1 = ent s pt i in
      if e1 AND PTE_PRESENT \<noteq> 0 \<and> e1 AND PTE_ADDR_MASK \<noteq> mm_zero_page (pm s) then do {
        p \<leftarrow> pmm_put_user_page (pm s) (e1 AND PTE_ADDR_MASK);
        destroy_pt (s\<lparr>pm := p\<rparr>) pt is
      }
      else destroy_pt s pt is)"

fun destroy_pd :: "paging_state \<Rightarrow> nat \<Rightarrow> nat list \<Rightarrow> paging_state option" where
  "destroy_pd s pd [] = Some s"
| "destroy_pd s pd (i # is) =
     (let e2 = ent s pd i in
      if e2 AND PTE_PRESENT = 0 then destroy_pd s pd is
      else if e2 AND PTE_HUGE \<noteq> 0 then do {
        p \<leftarrow> put_huge_user_range (pm s) (e2 AND PTE_ADDR_MASK) PAGE_HUGE_SIZE;
        destroy_pd (s\<lparr>pm := p\<rparr>) pd is
      }
      else do {
        s \<leftarrow> destroy_pt s (frame_of e2) [0..<512];
        p \<leftarrow> pmm_free_pages (pm s) (e2 AND PTE_ADDR_MASK) 0;
        destroy_pd (s\<lparr>pm := p\<rparr>) pd is
      })"

fun destroy_pdpt :: "paging_state \<Rightarrow> nat \<Rightarrow> nat list \<Rightarrow> paging_state option" where
  "destroy_pdpt s pdpt [] = Some s"
| "destroy_pdpt s pdpt (i # is) =
     (let e3 = ent s pdpt i in
      if e3 AND PTE_PRESENT = 0 then destroy_pdpt s pdpt is
      else if e3 AND PTE_HUGE \<noteq> 0 then do {
        p \<leftarrow> put_huge_user_range (pm s) (e3 AND PTE_ADDR_MASK) (2 ^ 30);
        destroy_pdpt (s\<lparr>pm := p\<rparr>) pdpt is
      }
      else do {
        s \<leftarrow> destroy_pd s (frame_of e3) [0..<512];
        p \<leftarrow> pmm_free_pages (pm s) (e3 AND PTE_ADDR_MASK) 0;
        destroy_pdpt (s\<lparr>pm := p\<rparr>) pdpt is
      })"

fun destroy_pml4 :: "paging_state \<Rightarrow> nat \<Rightarrow> nat list \<Rightarrow> paging_state option" where
  "destroy_pml4 s pml4 [] = Some s"
| "destroy_pml4 s pml4 (i # is) =
     (let e4 = ent s pml4 i in
      if e4 AND PTE_PRESENT = 0 then destroy_pml4 s pml4 is
      else do {
        s \<leftarrow> destroy_pdpt s (frame_of e4) [0..<512];
        p \<leftarrow> pmm_free_pages (pm s) (e4 AND PTE_ADDR_MASK) 0;
        destroy_pml4 (set_ent (s\<lparr>pm := p\<rparr>) pml4 i 0) pml4 is
      })"

definition paging_destroy_user_half :: "paging_state \<Rightarrow> nat option \<Rightarrow> paging_state option" where
  "paging_destroy_user_half s pml4 =
     (case pml4 of
        None \<Rightarrow> Some s
      | Some pml4 \<Rightarrow> if pml4 = kernel_pml4 s then Some s else destroy_pml4 s pml4 [0..<256])"

subsection \<open>The direct map\<close>

text \<open>The entry of a table that must exist, made if it is missing; false if there is no page for it.\<close>

definition ensure_table :: "paging_state \<Rightarrow> nat \<Rightarrow> nat \<Rightarrow> bool \<times> paging_state" where
  "ensure_table s t i =
     (if ent s t i AND PTE_PRESENT \<noteq> 0 then (True, s)
      else
        let (tpa, p) = pmm_alloc_pages (pm s) 0;
            s = s\<lparr>pm := p\<rparr>
        in if tpa = 0 then (False, s)
           else
             let s = s\<lparr>ent := (ent s)(pa_to_pfn tpa := (\<lambda>_. 0))\<rparr>
             in (True, set_ent s t i (tpa OR PTE_PRESENT OR PTE_WRITE)))"

abbreviation huge_at :: "paging_state \<Rightarrow> nat \<Rightarrow> nat \<Rightarrow> bool" where
  "huge_at s t i \<equiv> ent s t i AND PTE_PRESENT \<noteq> 0 \<and> ent s t i AND PTE_HUGE \<noteq> 0"

definition ensure_page :: "paging_state \<Rightarrow> u64 \<Rightarrow> paddr_t \<Rightarrow> int \<times> paging_state" where
  "ensure_page s hhdm pa =
     (let va = pa + hhdm in
      case ensure_table s (kernel_pml4 s) (pml4_idx va) of
        (False, s) \<Rightarrow> (- ENOMEM, s)
      | (True, s) \<Rightarrow>
          let pdpt = frame_of (ent s (kernel_pml4 s) (pml4_idx va)) in
          if huge_at s pdpt (pdpt_idx va) then (0, s)
          else
            case ensure_table s pdpt (pdpt_idx va) of
              (False, s) \<Rightarrow> (- ENOMEM, s)
            | (True, s) \<Rightarrow>
                let pd = frame_of (ent s pdpt (pdpt_idx va)) in
                if huge_at s pd (pd_idx va) then (0, s)
                else
                  case ensure_table s pd (pd_idx va) of
                    (False, s) \<Rightarrow> (- ENOMEM, s)
                  | (True, s) \<Rightarrow>
                      let pt = frame_of (ent s pd (pd_idx va)) in
                      if ent s pt (pt_idx va) AND PTE_PRESENT = 0
                      then (0, set_ent s pt (pt_idx va) ((pa AND PTE_ADDR_MASK) OR PTE_PRESENT OR PTE_WRITE OR PTE_NX))
                      else (0, s))"

fun ensure_loop :: "paging_state \<Rightarrow> u64 \<Rightarrow> paddr_t \<Rightarrow> nat list \<Rightarrow> int \<times> paging_state" where
  "ensure_loop s hhdm start [] = (0, s)"
| "ensure_loop s hhdm start (k # ks) =
     (case ensure_page s hhdm (start + of_nat k * PAGE_SIZE) of
        (err, s) \<Rightarrow> if err \<noteq> 0 then (err, s) else ensure_loop s hhdm start ks)"

text \<open>Both bounds are page-aligned, so the loop from one to the other takes a known number of rounds.\<close>

definition paging_ensure_hhdm :: "paging_state \<Rightarrow> u64 \<Rightarrow> paddr_t \<Rightarrow> u64 \<Rightarrow> int \<times> paging_state" where
  "paging_ensure_hhdm s hhdm base len =
     (let start = base AND NOT PAGE_MASK;
          stop = (base + len + PAGE_MASK) AND NOT PAGE_MASK
      in ensure_loop s hhdm start (if start < stop then [0..<unat (stop - start) div 4096] else []))"

section \<open>What the tables mean\<close>

text \<open>
  \<open>child\<close> is the table an entry refers to, \<open>sub\<close> the table at the end of a path of indices, and
  \<open>pte\<close> the entry that translates a page, with four indices.
\<close>

definition child :: "paging_state \<Rightarrow> nat \<Rightarrow> nat \<Rightarrow> nat option" where
  "child s t i = (let e = ent s t i in if e AND PTE_PRESENT \<noteq> 0 \<and> e AND PTE_HUGE = 0 then Some (frame_of e) else None)"

fun sub :: "paging_state \<Rightarrow> nat \<Rightarrow> nat list \<Rightarrow> nat option" where
  "sub s t [] = Some t"
| "sub s t (i # is) = (case child s t i of None \<Rightarrow> None | Some u \<Rightarrow> sub s u is)"

definition path :: "vaddr_t \<Rightarrow> nat list" where
  "path v = [pml4_idx v, pdpt_idx v, pd_idx v]"

definition pte :: "paging_state \<Rightarrow> nat \<Rightarrow> vaddr_t \<Rightarrow> u64 option" where
  "pte s root v =
     (case sub s root (path v) of
        None \<Rightarrow> None
      | Some t \<Rightarrow> if ent s t (pt_idx v) AND PTE_PRESENT \<noteq> 0 then Some (ent s t (pt_idx v)) else None)"

text \<open>A page by its indices, and the entry at the end of them.\<close>

definition slot :: "vaddr_t \<Rightarrow> nat list \<times> nat" where
  "slot v = (path v, pt_idx v)"

definition leaf :: "paging_state \<Rightarrow> nat \<Rightarrow> nat list \<times> nat \<Rightarrow> u64 option" where
  "leaf s root x =
     (case sub s root (fst x) of
        None \<Rightarrow> None
      | Some t \<Rightarrow> if ent s t (snd x) AND PTE_PRESENT \<noteq> 0 then Some (ent s t (snd x)) else None)"

definition slots :: "(nat list \<times> nat) set" where
  "slots = {q. set q \<subseteq> {..<512} \<and> length q = 3} \<times> {..<512}"

lemma pte_leaf: "pte s root v = leaf s root (slot v)"
  by (simp add: pte_def leaf_def slot_def split: option.split)

lemma finite_slots [simp]: "finite slots"
  unfolding slots_def by (intro finite_cartesian_product finite_lists_length_eq) auto

definition same_page :: "vaddr_t \<Rightarrow> vaddr_t \<Rightarrow> bool" where
  "same_page v w \<longleftrightarrow> path v = path w \<and> pt_idx v = pt_idx w"

text \<open>
  The tables under a root form a tree of frames that are in use: no frame is reached by two paths,
  and none is free or counted as a user page. Physical memory ends below the 52 bits the architecture
  allows.
\<close>

definition tables_ok :: "paging_state \<Rightarrow> nat \<Rightarrow> bool" where
  "tables_ok s root \<longleftrightarrow> pmm_inv (pm s) \<and> pfn_count (pm s) \<le> 2 ^ 40 \<and> (\<forall>f\<in>free_set (pm s). pfn_refcount (pm s) f = 0) \<and>
     (\<forall>p q f. length p \<le> 3 \<longrightarrow> length q \<le> 3 \<longrightarrow> sub s root p = Some f \<longrightarrow> sub s root q = Some f \<longrightarrow> p = q) \<and>
     (\<forall>p f. length p \<le> 3 \<longrightarrow> sub s root p = Some f \<longrightarrow> f \<notin> free_set (pm s) \<and> pfn_refcount (pm s) f = 0)"

lemma tables_okD:
  assumes "tables_ok s root"
  shows "pmm_inv (pm s)" "length p \<le> 3 \<Longrightarrow> length q \<le> 3 \<Longrightarrow> sub s root p = Some f \<Longrightarrow> sub s root q = Some f \<Longrightarrow> p = q"
    "length p \<le> 3 \<Longrightarrow> sub s root p = Some f \<Longrightarrow> f \<notin> free_set (pm s)" "pfn_count (pm s) \<le> 2 ^ 40"
    "f \<in> free_set (pm s) \<Longrightarrow> pfn_refcount (pm s) f = 0" "length p \<le> 3 \<Longrightarrow> sub s root p = Some f \<Longrightarrow> pfn_refcount (pm s) f = 0"
  using assms unfolding tables_ok_def by blast+

lemma sub_append: "sub s t (p @ q) = (case sub s t p of None \<Rightarrow> None | Some u \<Rightarrow> sub s u q)"
  by (induction p arbitrary: t) (auto split: option.splits)

text \<open>An entry of a table at the third level down does not lead on, as far as the walk goes.\<close>

lemma sub_other:
  assumes "\<And>p u. length p < n \<Longrightarrow> sub s t p = Some u \<Longrightarrow> child s' u = child s u" "length q \<le> n"
  shows "sub s' t q = sub s t q"
  using assms
proof (induction q arbitrary: t n)
  case (Cons i q)
  obtain m where n: "n = Suc m" using Cons.prems(2) by (cases n) auto
  have c: "child s' t i = child s t i" using Cons.prems(1) [of "[]" t] n by simp
  show ?case
  proof (cases "child s t i")
    case (Some u)
    have "sub s' u q = sub s u q"
    proof (rule Cons.IH [of m])
      fix p w assume "length p < m" "sub s u p = Some w"
      then show "child s' w = child s w" using Cons.prems(1) [of "i # p" w] Some n by simp
    qed (use Cons.prems(2) n in simp)
    then show ?thesis using c Some by simp
  qed (use c in simp)
qed simp

section \<open>Entries\<close>

lemmas pte_bits = PTE_PRESENT_def PTE_WRITE_def PTE_USER_def PTE_HUGE_def PTE_NX_def

lemma mask_bits: "PTE_ADDR_MASK = push_bit 12 (mask 40)"
  by (simp add: PTE_ADDR_MASK_def mask_eq_exp_minus_1 push_bit_eq_mult)

lemma pa_masked:
  assumes "p < 2 ^ 40"
  shows "pfn_to_pa p AND PTE_ADDR_MASK = pfn_to_pa p" "pfn_to_pa p AND 0xFFF = 0" "pa_to_pfn (pfn_to_pa p) = p"
proof -
  have "take_bit 40 p = p" by (rule take_bit_nat_eq_self) (use assms in simp)
  then have "take_bit 40 (of_nat p :: u64) = of_nat p" by (simp add: take_bit_of_nat)
  then have "of_nat p AND mask 40 = (of_nat p :: u64)" by (simp add: take_bit_eq_mask)
  then show "pfn_to_pa p AND PTE_ADDR_MASK = pfn_to_pa p" unfolding mask_bits pfn_to_pa_def push_bit_and [symmetric] by simp
  have "pfn_to_pa p AND mask 12 = 0" by (simp add: pfn_to_pa_def take_bit_eq_mask [symmetric] take_bit_push_bit)
  then show "pfn_to_pa p AND 0xFFF = 0" by (simp add: mask_eq_exp_minus_1)
  show "pa_to_pfn (pfn_to_pa p) = p" using assms by (simp add: pa_to_pfn_to_pa)
qed

lemma low_bits: "x AND 0xFFF = (0 :: u64) \<Longrightarrow> c AND 0xFFF = c \<Longrightarrow> x AND c = 0"
proof -
  assume x: "x AND 0xFFF = 0" and c: "c AND 0xFFF = c"
  have "x AND c = x AND (c AND 0xFFF)" by (simp only: c)
  also have "\<dots> = (x AND 0xFFF) AND c" by (simp only: and.assoc and.commute [of c])
  finally show "x AND c = 0" unfolding x by simp
qed

lemma table_entry:
  assumes "p < 2 ^ 40" "fl = 0 \<or> fl = PTE_USER"
  shows "(pfn_to_pa p OR PTE_PRESENT OR PTE_WRITE OR fl) AND PTE_PRESENT \<noteq> 0"
    "(pfn_to_pa p OR PTE_PRESENT OR PTE_WRITE OR fl) AND PTE_HUGE = 0"
    "frame_of (pfn_to_pa p OR PTE_PRESENT OR PTE_WRITE OR fl) = p"
proof -
  let ?x = "PTE_PRESENT OR PTE_WRITE OR fl"
  have x: "?x AND PTE_PRESENT = 1" "?x AND PTE_HUGE = 0" "?x AND PTE_ADDR_MASK = 0"
    using assms(2) by (auto simp: pte_bits PTE_ADDR_MASK_def)
  note m = pa_masked [OF assms(1)]
  have e: "(pfn_to_pa p OR ?x) AND c = (pfn_to_pa p AND c) OR (?x AND c)" for c by (rule bit.conj_disj_distrib2)
  have "pfn_to_pa p AND PTE_PRESENT = 0" "pfn_to_pa p AND PTE_HUGE = 0" by (rule low_bits [OF m(2)]; simp add: pte_bits)+
  then show "(pfn_to_pa p OR ?x) AND PTE_PRESENT \<noteq> 0" "(pfn_to_pa p OR ?x) AND PTE_HUGE = 0" unfolding e using x by simp_all
  show "frame_of (pfn_to_pa p OR ?x) = p" unfolding frame_of_def e using x m by simp
qed

lemma present_or: "(x OR PTE_PRESENT OR y) AND PTE_PRESENT \<noteq> 0"
proof -
  have "(x OR PTE_PRESENT OR y) AND PTE_PRESENT = PTE_PRESENT" by (rule bit_word_eqI) (auto simp: bit_simps PTE_PRESENT_def)
  then show ?thesis by (simp add: PTE_PRESENT_def)
qed

section \<open>Changing one entry\<close>

text \<open>The entry of a page: the other tables and the other pages are as before.\<close>

lemma path_length [simp]: "length (path v) = 3"
  by (simp add: path_def)

lemma child_set_other: "u \<noteq> t \<Longrightarrow> child (set_ent s t i e) u = child s u"
  by (simp add: child_def fun_eq_iff)

lemma set_leaf:
  assumes ok: "tables_ok s root" and t: "sub s root (path v) = Some t"
  shows "length q \<le> 3 \<Longrightarrow> sub (set_ent s t (pt_idx v) e) root q = sub s root q"
    "tables_ok (set_ent s t (pt_idx v) e) root"
    "pte (set_ent s t (pt_idx v) e) root w =
       (if same_page w v then if e AND PTE_PRESENT \<noteq> 0 then Some e else None else pte s root w)"
proof -
  let ?s = "set_ent s t (pt_idx v) e"
  show s: "sub ?s root q = sub s root q" if "length q \<le> 3" for q
  proof (rule sub_other [of 3])
    fix p u assume p: "length p < 3" "sub s root p = Some u"
    have "u \<noteq> t"
    proof
      assume "u = t"
      then have "p = path v" using tables_okD(2) [OF ok, of p "path v" t] p t by simp
      then show False using p(1) by simp
    qed
    then show "child ?s u = child s u" by (rule child_set_other)
  qed (rule that)
  show "tables_ok ?s root" using ok s unfolding tables_ok_def by simp
  show "pte ?s root w = (if same_page w v then if e AND PTE_PRESENT \<noteq> 0 then Some e else None else pte s root w)"
  proof (cases "sub s root (path w)")
    case None
    then have "path w \<noteq> path v" using t by auto
    then show ?thesis using s [of "path w"] None by (simp add: pte_def same_page_def)
  next
    case (Some u)
    have "u = t \<longleftrightarrow> path w = path v" using tables_okD(2) [OF ok, of "path w" "path v" t] Some t by auto
    then show ?thesis using s [of "path w"] Some by (auto simp: pte_def same_page_def)
  qed
qed

text \<open>A new, empty table under an entry that was not present.\<close>

lemma new_table:
  assumes ok: "tables_ok s root" and p: "sub s root p = Some t" "length p < 3" and i: "ent s t i AND PTE_PRESENT = 0"
    and f: "f \<in> free_set (pm s)" and m: "pmm_inv m" "free_set m = free_set (pm s) - {f}" "pfn_count m = pfn_count (pm s)"
      "pfn_refcount m = pfn_refcount (pm s)"
    and e: "e AND PTE_PRESENT \<noteq> 0" "e AND PTE_HUGE = 0" "frame_of e = f"
  defines "s' \<equiv> set_ent (s\<lparr>pm := m, ent := (ent s)(f := (\<lambda>_. 0))\<rparr>) t i e"
  shows "length q \<le> 3 \<Longrightarrow> sub s' root q = (if q = p @ [i] then Some f else sub s root q)" "tables_ok s' root" "pte s' root w = pte s root w"
proof -
  have tf: "t \<noteq> f" using tables_okD(3) [OF ok _ p(1)] p(2) f by auto
  have ent: "ent s' = (ent s)(f := (\<lambda>_. 0), t := (ent s t)(i := e))" using tf by (simp add: s'_def fun_upd_twist)
  have cf: "child s' f j = None" for j using tf by (simp add: child_def ent)
  have ct: "child s' t i = Some f" "child s t i = None" using e i by (simp_all add: child_def ent)
  have co: "child s' u j = child s u j" if "u \<noteq> f" "u \<noteq> t \<or> j \<noteq> i" for u j using that tf by (auto simp: child_def ent)
  have main: "sub s' u q = (if r @ q = p @ [i] then Some f else sub s u q)"
    if "sub s root r = Some u" "length (r @ q) \<le> 3" "r \<noteq> p @ [i]" for r u q
    using that
  proof (induction q arbitrary: r u)
    case (Cons j q)
    have uf: "u \<noteq> f" using tables_okD(3) [OF ok, of r u] Cons.prems f by auto
    have rp: "u = t \<longleftrightarrow> r = p" using tables_okD(2) [OF ok, of r p t] Cons.prems p by auto
    show ?case
    proof (cases "u = t \<and> j = i")
      case True
      have "sub s' f q = (if q = [] then Some f else None)" using cf by (cases q) auto
      then show ?thesis using True rp ct by simp
    next
      case False
      then have c: "child s' u j = child s u j" using co uf by auto
      have ne: "r @ [j] \<noteq> p @ [i]" using False rp by auto
      show ?thesis
      proof (cases "child s u j")
        case None
        have "r @ j # q \<noteq> p @ [i]"
        proof
          assume a: "r @ j # q = p @ [i]"
          then have "sub s root (p @ [i]) = None" using sub_append [of s root r "j # q"] Cons.prems(1) None by simp
          moreover have "q \<noteq> []" using a ne by auto
          then have "p = r @ j # butlast q" using a by (metis append_butlast_last_id append_Cons append_assoc butlast_append butlast_snoc list.distinct(1) butlast.simps(2))
          then have "sub s root p = None" using sub_append [of s root r "j # butlast q"] Cons.prems(1) None by simp
          then show False using p(1) by simp
        qed
        then show ?thesis using c None by simp
      next
        case (Some x)
        have "sub s root (r @ [j]) = Some x" using sub_append [of s root r "[j]"] Cons.prems(1) Some by simp
        then have "sub s' x q = (if (r @ [j]) @ q = p @ [i] then Some f else sub s x q)" using Cons.IH [of "r @ [j]" x] Cons.prems(2) ne by simp
        then show ?thesis using c Some by simp
      qed
    qed
  qed auto
  show S: "sub s' root q = (if q = p @ [i] then Some f else sub s root q)" if "length q \<le> 3" for q
    using main [of "[]" root q] that by simp
  have nf: "u \<noteq> f" if "sub s root q = Some u" "length q \<le> 3" for u q using tables_okD(3) [OF ok, of q u] that f by auto
  show "tables_ok s' root"
    unfolding tables_ok_def
  proof (intro conjI allI impI)
    show "pmm_inv (pm s')" "pfn_count (pm s') \<le> 2 ^ 40" using m tables_okD(4) [OF ok] by (simp_all add: s'_def)
    show "\<forall>f\<in>free_set (pm s'). pfn_refcount (pm s') f = 0" using m tables_okD(5) [OF ok] by (simp add: s'_def)
    show "a = b" if "length a \<le> 3" "length b \<le> 3" "sub s' root a = Some u" "sub s' root b = Some u" for a b u
      using that S nf tables_okD(2) [OF ok, of a b u] by (auto split: if_splits)
    show "u \<notin> free_set (pm s')" "pfn_refcount (pm s') u = 0" if "length a \<le> 3" "sub s' root a = Some u" for a u
      using that S tables_okD(3,6) [OF ok, of a u] tables_okD(5) [OF ok f] m(2,4) by (auto simp: s'_def split: if_splits)
  qed
  show "pte s' root w = pte s root w"
  proof (cases "path w = p @ [i]")
    case True
    have "sub s root (path w) = None" unfolding True sub_append using p(1) ct(2) by simp
    moreover have "sub s' root (path w) = Some f" "ent s' f = (\<lambda>_. 0)" using S [of "path w"] True tf p(2) by (simp_all add: ent)
    ultimately show ?thesis by (simp add: pte_def)
  next
    case False
    have "u \<noteq> f \<and> u \<noteq> t" if "sub s root (path w) = Some u" for u
    proof -
      have "u \<noteq> t" using tables_okD(2) [OF ok, of "path w" p t] that p by auto
      then show ?thesis using nf [OF that] by simp
    qed
    then show ?thesis using S [of "path w"] False by (auto simp: pte_def ent split: option.splits)
  qed
qed

section \<open>Walking\<close>

lemma pte_pm [simp]: "pte (s\<lparr>pm := m\<rparr>) = pte s" and sub_pm [simp]: "sub (s\<lparr>pm := m\<rparr>) = sub s"
proof -
  have c: "child (s\<lparr>pm := m\<rparr>) = child s" by (simp add: child_def fun_eq_iff)
  show s: "sub (s\<lparr>pm := m\<rparr>) = sub s"
  proof (intro ext)
    show "sub (s\<lparr>pm := m\<rparr>) t q = sub s t q" for t q by (induction q arbitrary: t) (simp_all add: c cong: option.case_cong)
  qed
  show "pte (s\<lparr>pm := m\<rparr>) = pte s" by (simp add: pte_def fun_eq_iff s split: option.split)
qed

lemma table_for_look:
  assumes "sub s root p = Some t"
  shows "table_for s t i False fl = (sub s root (p @ [i]), s)"
  using assms by (simp add: table_for_def sub_append child_def Let_def)

text \<open>A step down that makes missing tables changes no page and loses no table.\<close>

lemma table_for_create:
  assumes ok: "tables_ok s root" and p: "sub s root p = Some t" "length p < 3" and fl: "fl = 0 \<or> fl = PTE_USER"
  obtains r s' where "table_for s t i True fl = (r, s')" "tables_ok s' root" "\<forall>w. pte s' root w = pte s root w"
    "kernel_pml4 s' = kernel_pml4 s" "\<forall>u. r = Some u \<longrightarrow> sub s' root (p @ [i]) = Some u"
    "r = None \<longrightarrow> free_set (pm s') = {} \<or> sub s' root p = Some t \<and> huge_at s' t i"
proof (cases "ent s t i AND PTE_PRESENT = 0")
  case False
  then show ?thesis
    using that [of "child s t i" s] ok p(1)
    by (auto simp: table_for_def Let_def child_def sub_append)
next
  case True
  obtain pa m where a: "pmm_alloc_pages (pm s) 0 = (pa, m)" by fastforce
  have r: "alloc_result (pm s) UNIV 0 pa m" using pmm_alloc_result [OF tables_okD(1) [OF ok], of 0] a by simp
  show ?thesis
  proof (cases "pa = 0")
    case z: True
    then have m: "m = pm s" and h: "\<forall>z j. j < 11 \<longrightarrow> heads (pm s) z j = {}" using r by (auto simp: alloc_result_def)
    have "table_for s t i True fl = (None, s)" using True a z m by (simp add: table_for_def)
    moreover have "free_set (pm s) = {}" using free_set_heads [OF tables_okD(1) [OF ok]] h by auto
    ultimately show ?thesis using that [of None s] ok by simp
  next
    case nz: False
    let ?f = "pa_to_pfn pa"
    have R: "pfn_to_pa ?f = pa" "block_fits (pfn_count (pm s)) ?f 0" "blk ?f 0 \<subseteq> free_set (pm s)" "free_set m = free_set (pm s) - blk ?f 0"
      "pmm_inv m" "pmm_frame (pm s) m" using r nz by (auto simp: alloc_result_def)
    have b: "blk ?f 0 = {?f}" by (auto simp: blk_def)
    have lt: "?f < 2 ^ 40" using block_fits_less [OF R(2)] tables_okD(4) [OF ok] by linarith
    let ?e = "pa OR PTE_PRESENT OR PTE_WRITE OR fl"
    have e: "?e AND PTE_PRESENT \<noteq> 0" "?e AND PTE_HUGE = 0" "frame_of ?e = ?f" using table_entry [OF lt fl] unfolding R(1) by simp_all
    have fr: "?f \<in> free_set (pm s)" "free_set m = free_set (pm s) - {?f}" "pfn_count m = pfn_count (pm s)" "pfn_refcount m = pfn_refcount (pm s)"
      using R(3,4,6) b by (auto simp: pmm_frame_def)
    note N = new_table [OF ok p True fr(1) R(5) fr(2,3,4) e]
    let ?s = "set_ent (s\<lparr>pm := m, ent := (ent s)(?f := (\<lambda>_. 0))\<rparr>) t i ?e"
    have run: "table_for s t i True fl = (Some ?f, ?s)" using True a nz by (simp add: table_for_def Let_def)
    show ?thesis by (rule that [OF run N(2)]) (use N(1) [of "p @ [i]"] N(3) p(2) in simp_all)
  qed
qed

definition huge_on :: "paging_state \<Rightarrow> nat \<Rightarrow> vaddr_t \<Rightarrow> bool" where
  "huge_on s root v \<longleftrightarrow> (\<exists>p i q t. path v = p @ i # q \<and> sub s root p = Some t \<and> huge_at s t i)"

lemma walk_look: "walk_tables s root v False fl = (sub s root (path v), s)"
proof (cases "sub s root [pml4_idx v]")
  case None
  then show ?thesis using table_for_look [of s root "[]" root "pml4_idx v" fl] sub_append [of s root "[pml4_idx v]" "[pdpt_idx v, pd_idx v]"]
    by (simp add: walk_tables_def path_def)
next
  case a: (Some pdpt)
  note l1 = table_for_look [of s root "[]" root "pml4_idx v" fl] table_for_look [OF a, of "pdpt_idx v" fl]
  show ?thesis
  proof (cases "sub s root [pml4_idx v, pdpt_idx v]")
    case None
    then show ?thesis using l1 a sub_append [of s root "[pml4_idx v, pdpt_idx v]" "[pd_idx v]"] by (simp add: walk_tables_def path_def)
  next
    case (Some pd)
    then show ?thesis using l1 a table_for_look [OF Some, of "pd_idx v" fl] by (simp add: walk_tables_def path_def)
  qed
qed

lemma walk_create:
  assumes ok: "tables_ok s root" and fl: "fl = 0 \<or> fl = PTE_USER"
  obtains r s' where "walk_tables s root v True fl = (r, s')" "tables_ok s' root" "\<forall>w. pte s' root w = pte s root w"
    "\<forall>t. r = Some t \<longrightarrow> sub s' root (path v) = Some t" "r = None \<longrightarrow> free_set (pm s') = {} \<or> huge_on s' root v"
    "kernel_pml4 s' = kernel_pml4 s"
proof -
  let ?a = "pml4_idx v" and ?b = "pdpt_idx v" and ?c = "pd_idx v"
  obtain r1 s1 where 1: "table_for s root ?a True fl = (r1, s1)" "tables_ok s1 root" "\<forall>w. pte s1 root w = pte s root w"
    "kernel_pml4 s1 = kernel_pml4 s" "\<forall>u. r1 = Some u \<longrightarrow> sub s1 root ([] @ [?a]) = Some u"
    "r1 = None \<longrightarrow> free_set (pm s1) = {} \<or> sub s1 root [] = Some root \<and> huge_at s1 root ?a"
    by (rule table_for_create [OF ok, of "[]" root fl ?a]) (use fl in auto)
  have h: "huge_on u root v" if "path v = p @ i # q" "sub u root p = Some t" "huge_at u t i" for u p i q t
    using that unfolding huge_on_def by blast
  show ?thesis
  proof (cases r1)
    case None
    have run: "walk_tables s root v True fl = (None, s1)" using 1(1) None by (simp add: walk_tables_def)
    show ?thesis by (rule that [OF run 1(2)]) (use 1(3,4,6) None h [of "[]" ?a "[?b, ?c]" s1 root] in \<open>auto simp: path_def\<close>)
  next
    case r1: (Some t1)
    have p1: "sub s1 root [?a] = Some t1" using 1(5) r1 by simp
    obtain r2 s2 where 2: "table_for s1 t1 ?b True fl = (r2, s2)" "tables_ok s2 root" "\<forall>w. pte s2 root w = pte s1 root w"
      "kernel_pml4 s2 = kernel_pml4 s1" "\<forall>u. r2 = Some u \<longrightarrow> sub s2 root ([?a] @ [?b]) = Some u"
      "r2 = None \<longrightarrow> free_set (pm s2) = {} \<or> sub s2 root [?a] = Some t1 \<and> huge_at s2 t1 ?b"
      by (rule table_for_create [OF 1(2) p1 _ fl, of ?b]) auto
    show ?thesis
    proof (cases r2)
      case None
      have run: "walk_tables s root v True fl = (None, s2)" using 1(1) 2(1) r1 None by (simp add: walk_tables_def)
      show ?thesis by (rule that [OF run 2(2)]) (use 1(3,4) 2(3,4,6) None h [of "[?a]" ?b "[?c]" s2 t1] in \<open>auto simp: path_def\<close>)
    next
      case r2: (Some t2)
      have p2: "sub s2 root [?a, ?b] = Some t2" using 2(5) r2 by simp
      obtain r3 s3 where 3: "table_for s2 t2 ?c True fl = (r3, s3)" "tables_ok s3 root" "\<forall>w. pte s3 root w = pte s2 root w"
        "kernel_pml4 s3 = kernel_pml4 s2" "\<forall>u. r3 = Some u \<longrightarrow> sub s3 root ([?a, ?b] @ [?c]) = Some u"
        "r3 = None \<longrightarrow> free_set (pm s3) = {} \<or> sub s3 root [?a, ?b] = Some t2 \<and> huge_at s3 t2 ?c"
        by (rule table_for_create [OF 2(2) p2 _ fl, of ?c]) auto
      have run: "walk_tables s root v True fl = (r3, s3)" using 1(1) 2(1) 3(1) r1 r2 by (simp add: walk_tables_def)
      show ?thesis by (rule that [OF run 3(2)]) (use 1(3,4) 2(3,4) 3(3,4,5,6) h [of "[?a, ?b]" ?c "[]" s3 t2] in \<open>auto simp: path_def\<close>)
    qed
  qed
qed

section \<open>The pages of a range\<close>

abbreviation page_at :: "vaddr_t \<Rightarrow> nat \<Rightarrow> vaddr_t" where
  "page_at virt i \<equiv> virt + of_nat i * PAGE_SIZE"

lemma same_page_refl [simp]: "same_page v v"
  by (simp add: same_page_def)

lemma same_page_sym: "same_page v w \<longleftrightarrow> same_page w v"
  by (auto simp: same_page_def)

lemma idx_digit: "unat (drop_bit n v AND 0x1FF) = unat v div 2 ^ n mod 512" for v :: u64
proof -
  have "drop_bit n v AND 0x1FF = take_bit 9 (drop_bit n v)" by (simp add: take_bit_eq_mask mask_eq_exp_minus_1)
  then have "unat (drop_bit n v AND 0x1FF) = take_bit 9 (drop_bit n (unat v))"
    by (simp only: unsigned_take_bit_eq unat_drop_bit_eq)
  then show ?thesis by (simp add: take_bit_eq_mod drop_bit_eq_div)
qed

lemma digits4: "(x :: nat) mod 512 = y mod 512 \<Longrightarrow> x div 512 mod 512 = y div 512 mod 512 \<Longrightarrow>
    x div 512 div 512 mod 512 = y div 512 div 512 mod 512 \<Longrightarrow>
    x div 512 div 512 div 512 mod 512 = y div 512 div 512 div 512 mod 512 \<Longrightarrow> x mod 2 ^ 36 = y mod 2 ^ 36"
proof -
  have d: "x mod (512 * m) = y mod (512 * m)" if "x mod 512 = y mod 512" "x div 512 mod m = y div 512 mod m" for x y m :: nat
    using that by (simp add: mod_mult2_eq)
  assume "x mod 512 = y mod 512" "x div 512 mod 512 = y div 512 mod 512" "x div 512 div 512 mod 512 = y div 512 div 512 mod 512"
    "x div 512 div 512 div 512 mod 512 = y div 512 div 512 div 512 mod 512"
  then have "x mod (512 * (512 * (512 * 512))) = y mod (512 * (512 * (512 * 512)))" by (intro d)
  then show ?thesis by simp
qed

lemma same_page_number: "same_page v w \<Longrightarrow> unat v div 4096 mod 2 ^ 36 = unat w div 4096 mod 2 ^ 36"
  by (rule digits4)
    (simp_all add: same_page_def path_def pml4_idx_def pdpt_idx_def pd_idx_def pt_idx_def idx_digit div_mult2_eq [symmetric])

lemma page_number:
  assumes "i < 2 ^ 36"
  shows "unat (page_at virt i) div 4096 mod 2 ^ 36 = (unat virt div 4096 + i) mod 2 ^ 36"
proof -
  have "unat (of_nat i * PAGE_SIZE :: u64) = i * 4096"
    using assms by (simp add: unat_word_ariths unat_of_nat page_consts)
  then have "unat (page_at virt i) = (unat virt + i * 4096) mod (4096 * 2 ^ 52)"
    by (simp add: unat_word_ariths)
  moreover have "x mod (4096 * m) div 4096 = x div 4096 mod m" for x m :: nat
    by (simp add: mod_mult2_eq)
  ultimately have "unat (page_at virt i) div 4096 = (unat virt + i * 4096) div 4096 mod 2 ^ 52"
    by (simp only:)
  also have "(unat virt + i * 4096) div 4096 = unat virt div 4096 + i" by simp
  finally have "unat (page_at virt i) div 4096 = (unat virt div 4096 + i) mod 2 ^ 52" .
  then show ?thesis by (simp add: mod_mod_cancel [of "2 ^ 36" "2 ^ 52" "unat virt div 4096 + i", simplified])
qed

lemma pages_distinct:
  assumes "i < 2 ^ 36" "j < 2 ^ 36" "same_page (page_at virt i) (page_at virt j)"
  shows "i = j"
proof -
  have "(unat virt div 4096 + i) mod 2 ^ 36 = (unat virt div 4096 + j) mod 2 ^ 36"
    using same_page_number [OF assms(3)] page_number [of i virt] page_number [of j virt] assms(1,2) by simp
  then have "i mod 2 ^ 36 = j mod 2 ^ 36" unfolding nat_mod_eq_iff by (simp only: add.assoc add_left_cancel)
  then show ?thesis using assms(1,2) by simp
qed

section \<open>The loops over a range\<close>

definition apart :: "vaddr_t \<Rightarrow> nat list \<Rightarrow> bool" where
  "apart virt is \<longleftrightarrow> distinct is \<and> (\<forall>i\<in>set is. \<forall>j\<in>set is. same_page (page_at virt i) (page_at virt j) \<longrightarrow> i = j)"

lemma apart_upto: "n \<le> 2 ^ 36 \<Longrightarrow> apart virt [0..<n]"
  unfolding apart_def by (auto intro: pages_distinct [of _ _ virt])

lemma apart_Cons: "apart virt (i # is) \<Longrightarrow> apart virt is \<and> (\<forall>j\<in>set is. \<not> same_page (page_at virt j) (page_at virt i))"
  unfolding apart_def by auto

lemma map_loop_result:
  assumes "tables_ok s root" "apart virt is"
  shows "\<exists>err s' n. map_loop s root virt phys flags is = (err, s') \<and> tables_ok s' root \<and> kernel_pml4 s' = kernel_pml4 s \<and>
    (err = 0 \<and> n = length is \<or>
     err = - ENOMEM \<and> n < length is \<and> (free_set (pm s') = {} \<or> huge_on s' root (page_at virt (is ! n)))) \<and>
    (\<forall>w. pte s' root w =
      (case find (\<lambda>i. same_page w (page_at virt i)) (take n is) of
         None \<Rightarrow> pte s root w
       | Some i \<Rightarrow> Some ((page_at phys i AND PTE_ADDR_MASK) OR PTE_PRESENT OR flags)))"
  using assms
proof (induction "is" arbitrary: s)
  case Nil
  then show ?case by simp
next
  case (Cons i "is")
  let ?v = "page_at virt i" and ?e = "\<lambda>i. (page_at phys i AND PTE_ADDR_MASK) OR PTE_PRESENT OR flags"
  note ap = apart_Cons [OF Cons.prems(2)]
  obtain r s1 where w: "walk_tables s root ?v True (if flags AND PTE_USER \<noteq> 0 then PTE_USER else 0) = (r, s1)"
    "tables_ok s1 root" "\<forall>w. pte s1 root w = pte s root w" "\<forall>t. r = Some t \<longrightarrow> sub s1 root (path ?v) = Some t"
    "r = None \<longrightarrow> free_set (pm s1) = {} \<or> huge_on s1 root ?v" "kernel_pml4 s1 = kernel_pml4 s"
    by (rule walk_create [OF Cons.prems(1), of "if flags AND PTE_USER \<noteq> 0 then PTE_USER else 0" ?v]) auto
  show ?case
  proof (cases r)
    case None
    show ?thesis
      by (intro exI [of _ "- ENOMEM"] exI [of _ s1] exI [of _ "0 :: nat"]) (use w None in simp)
  next
    case (Some t)
    let ?s = "set_ent s1 t (pt_idx ?v) (?e i)"
    have t: "sub s1 root (path ?v) = Some t" using w(4) Some by simp
    obtain err s' n where R: "map_loop ?s root virt phys flags is = (err, s')" "tables_ok s' root" "kernel_pml4 s' = kernel_pml4 ?s"
      "err = 0 \<and> n = length is \<or> err = - ENOMEM \<and> n < length is \<and> (free_set (pm s') = {} \<or> huge_on s' root (page_at virt (is ! n)))"
      "\<forall>w. pte s' root w =
        (case find (\<lambda>i. same_page w (page_at virt i)) (take n is) of None \<Rightarrow> pte ?s root w | Some i \<Rightarrow> Some (?e i))"
      using Cons.IH [OF set_leaf(2) [OF w(2) t] conjunct1 [OF ap], of "?e i"] by (elim exE conjE) (rule that)
    have e: "?e i AND PTE_PRESENT \<noteq> 0" by (rule present_or)
    have first: "find (\<lambda>j. same_page w (page_at virt j)) (take n is) = None" if "same_page w ?v" for w
      unfolding find_None_iff
    proof
      assume "\<exists>j. j \<in> set (take n is) \<and> same_page w (page_at virt j)"
      then obtain j where j: "j \<in> set is" "same_page w (page_at virt j)" by (auto dest: in_set_takeD)
      have "same_page (page_at virt j) ?v" using that j(2) by (simp add: same_page_def)
      then show False using ap j(1) by blast
    qed
    have P: "pte s' root w = (case find (\<lambda>i. same_page w (page_at virt i)) (take (Suc n) (i # is)) of
        None \<Rightarrow> pte s root w | Some i \<Rightarrow> Some (?e i))" for w
      using R(5) first [of w] set_leaf(3) [OF w(2) t, of "?e i" w] e w(3) by (simp split: option.splits)
    have run: "map_loop s root virt phys flags (i # is) = (err, s')" using w(1) Some R(1) by (simp add: Let_def)
    show ?thesis
      by (intro exI [of _ err] exI [of _ s'] exI [of _ "Suc n"] conjI allI run R(2) P) (use R(3,4) w(6) in auto)
  qed
qed

lemma get_flags_pte:
  assumes "pte s (root_of s space) v = Some e"
  shows "paging_get_flags s space v True = Inr e"
proof -
  let ?r = "root_of s space"
  obtain pdpt pd pt where c: "child s ?r (pml4_idx v) = Some pdpt" "child s pdpt (pdpt_idx v) = Some pd" "child s pd (pd_idx v) = Some pt"
    and e: "ent s pt (pt_idx v) AND PTE_PRESENT \<noteq> 0" "e = ent s pt (pt_idx v)"
    using assms by (auto simp: pte_def path_def split: option.splits if_splits)
  have l: "table_for s t i False 0 = (child s t i, s)" for t i by (simp add: table_for_def child_def Let_def)
  have g: "ent s t i AND PTE_PRESENT \<noteq> 0" "ent s t i AND PTE_HUGE = 0" if "child s t i = Some u" for t i u
    using that by (auto simp: child_def Let_def split: if_splits)
  show ?thesis using e g [OF c(2)] g [OF c(3)] by (simp add: paging_get_flags_def l c Let_def)
qed

section \<open>Properties\<close>

text \<open>One table of page tables, empty, beside the sample of free memory.\<close>

definition paging_sample :: paging_state where
  "paging_sample = \<lparr>pm = pmm_sample, ent = (\<lambda>_ _. 0), kernel_pml4 = 40\<rparr>"

lemma paging_sample_sub: "sub paging_sample 40 q = Some f \<Longrightarrow> q = [] \<and> f = 40"
  by (cases q) (simp_all add: child_def paging_sample_def)

lemma paging_sample_ok: "tables_ok paging_sample 40"
proof -
  have pm: "pm paging_sample = pmm_sample" by (simp add: paging_sample_def)
  show ?thesis unfolding tables_ok_def pm using pmm_sample_inv by (auto dest!: paging_sample_sub)
qed



end
