(* ===== verification/Spec2Isabelle.thy ===== *)
theory Spec2Isabelle
  imports Vma_Heap Kstring Initramfs Mutex Cmdline Process Paging
begin

text \<open>
  A verification development for the JNU kernel, a C kernel for x86-64. All paths are under
  \<^verbatim>\<open>src/\<close>.

  \<^bold>\<open>The program.\<close> At boot \<^verbatim>\<open>kernel/kernel/main.c\<close> takes the memory map and the command line from the boot
  loader, builds the page-frame allocator and the slab heap on it, loads the boot archive, starts the
  scheduler and runs the first process. Tasks, processes, open files and memory areas are objects of
  the heap; kernel stacks are page blocks beside it. The scheduler is round robin on one processor,
  driven by a timer tick, with sleep and wake-up by credit. Mutexes, the process tree and the
  descriptor tables are built on it. An address space is a red-black tree of areas.

  \<^bold>\<open>Reading the model.\<close> Pointers are natural numbers with \<open>0\<close> for \<^verbatim>\<open>NULL\<close>. A C structure on the heap is
  a group of maps from addresses, one per field, inside the record of its component, so that aliasing
  and sharing are those of the code. Machine words keep their width and wrap. A result of type
  \<open>'a option\<close> is \<open>None\<close> where the C function does not return: it panics, or its loop does not end.
  Error numbers are negative integers, as in the source. A loop over a linked structure is a
  \<open>partial_function\<close>, and the lemmas about it show that it returns; loops with a visible bound are total
  functions. No fuel is used anywhere. What runs under one spinlock is one step; a function that
  sleeps is cut at the sleep.

  \<^bold>\<open>Theories, in the order of the dependencies.\<close>

  \<^item> \<^verbatim>\<open>Jnu_Prelude\<close>, \<^verbatim>\<open>Linked_List\<close>: machine types, error numbers (\<^verbatim>\<open>include/uapi/jnu/errno.h\<close>), page
    geometry; doubly and singly linked lists through link fields, and the removal of a node by a
    pointer to a link, an idiom several components share.

  \<^item> \<^verbatim>\<open>Rbtree\<close>, \<^verbatim>\<open>Rbtree_Shape\<close>, \<^verbatim>\<open>Rbtree_Insert\<close>, \<^verbatim>\<open>Rbtree_Erase\<close>: \<^verbatim>\<open>kernel/lib/rbtree.c\<close>. The nodes are pointer
    structures, the specification is a tree read off them. Linking and recolouring insert exactly one
    node at its place, erasing removes exactly one, both keep the colours and black heights, and
    first/next walk the nodes in order. The interface the areas use is the locale \<open>node_sequence\<close>,
    interpreted on the code's functions.

  \<^item> \<^verbatim>\<open>Vma\<close>, \<^verbatim>\<open>Vma_Range\<close>, \<^verbatim>\<open>Vma_Heap\<close>: \<^verbatim>\<open>kernel/mm/vma.c\<close>. The abstract view of an address space is the partial
    function from addresses to flags. Insertion of a non-empty range is refused exactly when it overlaps an area (the code has no check
    for empty ranges), lookup and
    the search for a gap agree with that view, splitting keeps it, and removing a range removes just
    that range and leaks nothing. The heap the areas live on is the locale \<open>kernel_memory\<close>, interpreted
    on the slab allocator. One theorem shows a request size for which the gap search wraps around.

  \<^item> \<^verbatim>\<open>Pmm\<close>, \<^verbatim>\<open>Pmm_Inv\<close>, \<^verbatim>\<open>Pmm_Ops\<close>, \<^verbatim>\<open>Pmm_Boot\<close>: \<^verbatim>\<open>kernel/mm/pmm.c\<close>, the buddy allocator with its zones, free lists,
    statistics and reference counts, and its construction from a memory map. Allocation hands out
    only free pages of the right zone, freeing gives back exactly the block and merges it with its
    buddies, coalesced lists stay coalesced and are determined by the free pages, and booting yields
    the invariant with every free page a usable page of the map. The two critical sections of
    \<^verbatim>\<open>pmm_free_pages\<close> and \<^verbatim>\<open>pmm_put_user_page\<close>, with the clearing of the pages between them, are one step
    here: the statements are sequential.

  \<^item> \<^verbatim>\<open>Slab\<close>, \<^verbatim>\<open>Slab_Inv\<close>, \<^verbatim>\<open>Slab_Ops\<close>, \<^verbatim>\<open>Kmalloc\<close>: \<^verbatim>\<open>kernel/mm/slab.c\<close>, slab caches and \<^verbatim>\<open>kmalloc\<close> over the buddy
    allocator. Live objects never share a byte with each other or with a free page, a free removes
    exactly its object and a second one panics, small requests fail only when no page is free.

  \<^item> \<^verbatim>\<open>Kstring\<close>: \<^verbatim>\<open>kernel/lib/string.c\<close>. \<^verbatim>\<open>Cmdline\<close>: \<^verbatim>\<open>kernel/kernel/cmdline.c\<close> over the same byte memory; looking
    up a key after parsing agrees with a specification on byte lists, for arbitrary input.

  \<^item> \<^verbatim>\<open>Initramfs\<close>: \<^verbatim>\<open>kernel/initramfs/cpio_newc.c\<close> and \<^verbatim>\<open>initramfs.c\<close>; what a writer of the format stores is
    what loading, looking up and reading return, and on arbitrary bytes the parser stays in bounds
    and ends.

  \<^item> \<^verbatim>\<open>Fd\<close>: \<^verbatim>\<open>kernel/user/fd.c\<close>. Reference counts count the slots of all tables, a file is freed with its last
    slot, and cloning and draining a table cancel out.

  \<^item> \<^verbatim>\<open>Sched\<close>, \<^verbatim>\<open>Sched_Inv\<close>, \<^verbatim>\<open>Sched_Ops\<close>, \<^verbatim>\<open>Sched_Run\<close>: \<^verbatim>\<open>kernel/kernel/sched.c\<close> with \<^verbatim>\<open>context.S\<close>. The run queue holds
    exactly the runnable tasks; yielding rotates it, a tick wakes the expired sleepers and preempts,
    no wake-up is lost, a detached exit frees the task and its stack, and a switch disturbs no other
    task's registers.

  \<^item> \<^verbatim>\<open>Mutex\<close>: \<^verbatim>\<open>kernel/lib/mutex.c\<close> as a step relation over all interleavings with ticks, sleeps and stray
    wake-ups; mutual exclusion, first-in-first-out hand-over without loss, and a run in which the
    unlocker is about to read a waiter's node that no longer exists.

  \<^item> \<^verbatim>\<open>Process\<close>: \<^verbatim>\<open>kernel/user/process.c\<close>; exit hands the children to init and leaves a zombie, wait collects
    it and frees its tasks, stacks, address space and object.

  \<^bold>\<open>Arguments.\<close> \<^verbatim>\<open>vfs_close\<close> (the file-system layer) and \<^verbatim>\<open>vmm_destroy_space\<close> (the page tables) are
  arguments of the definitions that call them. The theorems need nothing of the first; of the second
  they need that it gives back memory of the space only, the predicate \<open>destroys\<close>.

  \<^bold>\<open>Not modelled.\<close> Device drivers (\<^verbatim>\<open>kernel/drivers\<close>: disks, PCI, ACPI, timers, keyboard, consoles) and the
  processor set-up (\<^verbatim>\<open>kernel/arch/x86_64\<close> except the switch): port and memory-mapped input/output and
  privileged instructions. The page tables (\<^verbatim>\<open>paging.c\<close>, \<^verbatim>\<open>vmm.c\<close>, \<^verbatim>\<open>clone_space.c\<close>, \<^verbatim>\<open>mmap.c\<close>) and the copying to and from
  user memory that walks them, beyond the range check. The virtual file system and the on-disk file
  systems (\<^verbatim>\<open>kernel/fs\<close>), the program loader (\<^verbatim>\<open>kernel/exec\<close>, \<^verbatim>\<open>execve.c\<close>), futexes, threads and fork
  (\<^verbatim>\<open>futex.c\<close>, \<^verbatim>\<open>clone.c\<close>, \<^verbatim>\<open>fork.c\<close>, \<^verbatim>\<open>retire.c\<close>), the system-call wrappers (\<^verbatim>\<open>kernel/syscall\<close>), formatted output
  and panics (\<^verbatim>\<open>printk.c\<close>, \<^verbatim>\<open>panic.c\<close>), the random generator (\<^verbatim>\<open>csprng.c\<close>), the boot sequence (\<^verbatim>\<open>main.c\<close>), the self
  tests and the user programs (\<^verbatim>\<open>user\<close>). Spinlocks appear only as the atomicity of steps, task names
  and log messages not at all.
\<close>

end
